(* ===== verification/PyBase.thy ===== *)
theory PyBase
  imports Main "HOL-Library.Word" "HOL-Library.AList" "HOL-Library.Multiset"
begin

text \<open>
  The prelude of the development: what every component uses of Python and of ctypes.

  \<^item> Bytes are \<open>8 word\<close>; a \<open>str\<close> is the byte list of its UTF-8 encoding (\<open>string\<close>, a list
    of \<open>char\<close>), so \<open>s.encode("utf-8")\<close> is the list of its characters' codes.
  \<^item> A Python \<open>dict\<close> and a \<open>collections.OrderedDict\<close> keep insertion order: both are
    association lists with distinct keys, read with \<open>map_of\<close>, written with \<open>AList.update\<close>
    (in place, or appended when the key is new) and \<open>AList.delete\<close>.
  \<^item> The address space of one process is a function from addresses to bytes, with
    \<open>ctypes.string_at\<close> and \<open>ctypes.memmove\<close> on it.
  \<^item> \<open>int.to_bytes\<close>/\<open>int.from_bytes\<close> and the integer formats of \<open>struct\<close>.
\<close>

named_theorems dict_simps \<open>lookups and key sets of dictionaries after an update\<close>
named_theorems mem_simps \<open>reads of memory after a write\<close>

type_synonym byte = "8 word"
type_synonym bytes = "byte list"
type_synonym mem = "nat \<Rightarrow> byte"
type_synonym ('k, 'v) dict = "('k \<times> 'v) list"

text \<open>
  A digest of \<open>hashlib\<close>, as a function of the digest size, the salt and the data. The library
  documents the length of its result, which is all that is ever assumed of it.
\<close>

type_synonym digest = "nat \<Rightarrow> bytes \<Rightarrow> bytes \<Rightarrow> bytes"

definition digest_sized :: "digest \<Rightarrow> bool" where
  "digest_sized B \<longleftrightarrow> (\<forall>n salt d. length (B n salt d) = n)"

section \<open>Exceptions\<close>

datatype exn =
    KeyError
  | ValueError
  | TypeError
  | AssertionError
  | StructError
  | OSError
  | ConnectionError
  | RuntimeError
  | ZeroDivisionError
  | IndexError
  | AttributeError

type_synonym 'a result = "exn + 'a"

definition bind_result :: "'a result \<Rightarrow> ('a \<Rightarrow> 'b result) \<Rightarrow> 'b result" where
  "bind_result r f = (case r of Inl e \<Rightarrow> Inl e | Inr x \<Rightarrow> f x)"

lemma bind_result_simps [simp]:
  "bind_result (Inl e) f = Inl e" "bind_result (Inr x) f = f x"
  by (simp_all add: bind_result_def)

fun map_result :: "('a \<Rightarrow> 'b result) \<Rightarrow> 'a list \<Rightarrow> 'b list result" where
  "map_result f [] = Inr []"
| "map_result f (x # xs) =
     bind_result (f x) (\<lambda>y. bind_result (map_result f xs) (\<lambda>ys. Inr (y # ys)))"

lemma map_result_map: "(\<And>x. f (g x) = Inr x) \<Longrightarrow> map_result f (map g xs) = Inr xs"
  by (induction xs) simp_all

lemma map_result_Inr_length: "map_result f xs = Inr ys \<Longrightarrow> length ys = length xs"
  by (induction xs arbitrary: ys) (auto simp: bind_result_def split: sum.splits)

text \<open>A function that cannot raise, on the value of a computation that may.\<close>

definition fmap_result :: "('a \<Rightarrow> 'b) \<Rightarrow> 'a result \<Rightarrow> 'b result" where
  "fmap_result f r = bind_result r (\<lambda>x. Inr (f x))"

lemma fmap_result_simps [simp]:
  "fmap_result f (Inl e) = Inl e" "fmap_result f (Inr x) = Inr (f x)"
  by (simp_all add: fmap_result_def)

lemma fmap_result_eq_Inr: "fmap_result f r = Inr y \<longleftrightarrow> (\<exists>x. r = Inr x \<and> y = f x)"
  by (cases r) auto

lemma bind_result_eq_Inr: "bind_result r f = Inr y \<longleftrightarrow> (\<exists>x. r = Inr x \<and> f x = Inr y)"
  by (cases r) auto

section \<open>Dictionaries\<close>

definition dict_ok :: "('k, 'v) dict \<Rightarrow> bool" where
  "dict_ok d \<longleftrightarrow> distinct (map fst d)"

definition has_key :: "('k, 'v) dict \<Rightarrow> 'k \<Rightarrow> bool" where
  "has_key d k \<longleftrightarrow> map_of d k \<noteq> None"

text \<open>\<open>OrderedDict.move_to_end(k)\<close>; the code only calls it on keys that are present.\<close>

definition move_to_end :: "'k \<Rightarrow> ('k, 'v) dict \<Rightarrow> ('k, 'v) dict" where
  "move_to_end k d = (case map_of d k of None \<Rightarrow> d | Some v \<Rightarrow> AList.delete k d @ [(k, v)])"

text \<open>\<open>d.update(entries)\<close>.\<close>

definition dict_update :: "('k, 'v) dict \<Rightarrow> ('k, 'v) dict \<Rightarrow> ('k, 'v) dict" where
  "dict_update d es = fold (\<lambda>(k, v). AList.update k v) es d"

text \<open>\<open>d.setdefault(k, []).append(x)\<close>, the grouping idiom.\<close>

definition append_at :: "'k \<Rightarrow> 'a \<Rightarrow> ('k, 'a list) dict \<Rightarrow> ('k, 'a list) dict" where
  "append_at k x d =
     AList.update k ((case map_of d k of None \<Rightarrow> [] | Some xs \<Rightarrow> xs) @ [x]) d"

lemma dict_okI [simp]: "distinct (map fst d) \<Longrightarrow> dict_ok d"
  by (simp add: dict_ok_def)

lemma dict_ok_Nil [simp]: "dict_ok []"
  by simp

lemma dict_ok_Cons [simp]: "dict_ok ((k, v) # d) \<longleftrightarrow> k \<notin> fst ` set d \<and> dict_ok d"
  by (simp add: dict_ok_def)

lemma dict_ok_append:
  "dict_ok (xs @ ys) \<longleftrightarrow> dict_ok xs \<and> dict_ok ys \<and> fst ` set xs \<inter> fst ` set ys = {}"
  by (simp add: dict_ok_def)

lemma dict_ok_update [simp]: "dict_ok d \<Longrightarrow> dict_ok (AList.update k v d)"
  by (simp add: dict_ok_def distinct_update)

lemma dict_ok_delete [simp]: "dict_ok d \<Longrightarrow> dict_ok (AList.delete k d)"
  by (simp add: dict_ok_def distinct_delete)

lemma map_of_update [simp, dict_simps]:
  "map_of (AList.update k v d) k' = (if k' = k then Some v else map_of d k')"
  by (simp add: update_conv')

lemma map_of_delete_if [simp, dict_simps]:
  "map_of (AList.delete k d) k' = (if k' = k then None else map_of d k')"
  by (simp add: delete_conv')

lemma has_key_iff: "has_key d k \<longleftrightarrow> k \<in> fst ` set d"
  by (auto simp: has_key_def map_of_eq_None_iff)

lemma map_of_None_fst: "map_of d k = None \<longleftrightarrow> k \<notin> fst ` set d"
  by (rule map_of_eq_None_iff)

lemma dict_ok_map_of: "dict_ok d \<Longrightarrow> (k, v) \<in> set d \<longleftrightarrow> map_of d k = Some v"
  by (auto simp: dict_ok_def)

lemma update_new: "k \<notin> fst ` set d \<Longrightarrow> AList.update k v d = d @ [(k, v)]"
  by (induction d) auto

lemma set_delete_subset: "set (AList.delete k d) \<subseteq> set d"
  by (auto simp: AList.delete_eq)

lemma set_update_subset: "set (AList.update k v d) \<subseteq> insert (k, v) (set d)"
  by (induction d) auto

lemma fst_set_delete [dict_simps]: "fst ` set (AList.delete k d) = fst ` set d - {k}"
  by (auto simp: AList.delete_eq image_iff)

lemma fst_set_update [dict_simps]: "fst ` set (AList.update k v d) = insert k (fst ` set d)"
  by (simp add: dom_update)

lemma delete_absent: "k \<notin> fst ` set d \<Longrightarrow> AList.delete k d = d"
  by (rule delete_id)

lemma delete_append: "AList.delete k (xs @ ys) = AList.delete k xs @ AList.delete k ys"
  by (simp add: AList.delete_eq)

lemma mset_delete_present:
  assumes "dict_ok d" and "map_of d k = Some v"
  shows "mset d = add_mset (k, v) (mset (AList.delete k d))"
  using assms
proof (induction d)
  case Nil
  then show ?case by simp
next
  case (Cons x d)
  obtain a b where x: "x = (a, b)" by fastforce
  show ?case
  proof (cases "a = k")
    case True
    with Cons.prems x have "AList.delete k d = d" and "b = v"
      by (auto simp: delete_absent)
    with True x show ?thesis by (simp add: AList.delete_eq)
  next
    case False
    with Cons x have "mset d = add_mset (k, v) (mset (AList.delete k d))" by simp
    with False x show ?thesis by (simp add: AList.delete_eq)
  qed
qed

lemma map_of_move_to_end [simp, dict_simps]: "map_of (move_to_end k d) = map_of d"
  by (rule ext) (auto simp: move_to_end_def map_add_def split: option.splits)

lemma fst_set_move_to_end [simp, dict_simps]: "fst ` set (move_to_end k d) = fst ` set d"
  by (rule set_eqI) (metis map_of_None_fst map_of_move_to_end)

lemma dict_ok_move_to_end [simp]: "dict_ok d \<Longrightarrow> dict_ok (move_to_end k d)"
  by (auto simp: move_to_end_def dict_ok_append fst_set_delete split: option.splits)

lemma mset_move_to_end: "dict_ok d \<Longrightarrow> mset (move_to_end k d) = mset d"
  by (auto simp: move_to_end_def mset_delete_present split: option.splits)

lemma last_move_to_end: "map_of d k = Some v \<Longrightarrow> last (move_to_end k d) = (k, v)"
  by (simp add: move_to_end_def)

lemma dict_update_Nil [simp]: "dict_update d [] = d"
  by (simp add: dict_update_def)

lemma dict_update_Cons [simp]:
  "dict_update d ((k, v) # es) = dict_update (AList.update k v d) es"
  by (simp add: dict_update_def)

lemma map_of_dict_update [dict_simps]:
  "dict_ok es \<Longrightarrow>
   map_of (dict_update d es) k = (case map_of es k of None \<Rightarrow> map_of d k | Some v \<Rightarrow> Some v)"
proof (induction es arbitrary: d)
  case Nil
  then show ?case by simp
next
  case (Cons e es)
  then show ?case by (cases e) (auto dest: map_of_SomeD simp: rev_image_eqI split: option.splits)
qed

lemma dict_ok_dict_update [simp]: "dict_ok d \<Longrightarrow> dict_ok (dict_update d es)"
  by (induction es arbitrary: d) auto

lemma map_of_fold_delete [dict_simps]:
  "map_of (fold AList.delete ks d) k = (if k \<in> set ks then None else map_of d k)"
  by (induction ks arbitrary: d) auto

lemma dict_ok_fold_delete [simp]: "dict_ok d \<Longrightarrow> dict_ok (fold AList.delete ks d)"
  by (induction ks arbitrary: d) auto

lemma map_of_append_at [dict_simps]:
  "map_of (append_at k x d) k' =
     (if k' = k then Some ((case map_of d k of None \<Rightarrow> [] | Some xs \<Rightarrow> xs) @ [x])
      else map_of d k')"
  by (simp add: append_at_def)

lemma dict_ok_append_at [simp]: "dict_ok d \<Longrightarrow> dict_ok (append_at k x d)"
  by (simp add: append_at_def)

section \<open>Pairwise relations on lists\<close>

lemma sorted_wrt_perm:
  assumes sym: "\<And>x y. R x y \<Longrightarrow> R y x"
  shows "mset xs = mset ys \<Longrightarrow> sorted_wrt R xs \<Longrightarrow> sorted_wrt R ys"
proof (induction xs arbitrary: ys)
  case Nil
  then show ?case by simp
next
  case (Cons x xs)
  from Cons.prems(1) have "x \<in> set ys" by (metis list.set_intros(1) set_mset_mset)
  then obtain a b where ys: "ys = a @ x # b" by (auto simp: in_set_conv_decomp)
  with Cons.prems(1) have m: "mset xs = mset (a @ b)" by simp
  with Cons.IH Cons.prems(2) have ab: "sorted_wrt R (a @ b)" by simp
  from m have "set xs = set (a @ b)" by (metis set_mset_mset)
  with Cons.prems(2) have "\<forall>y \<in> set (a @ b). R x y" by simp
  with ab sym show ?case by (auto simp: ys sorted_wrt_append)
qed

section \<open>Memory\<close>

text \<open>\<open>ctypes.string_at(addr, n)\<close>.\<close>

definition string_at :: "mem \<Rightarrow> nat \<Rightarrow> nat \<Rightarrow> bytes" where
  "string_at m a n = map m [a..<a + n]"

text \<open>\<open>ctypes.memmove(dst, buf, len(buf))\<close> from a private buffer.\<close>

definition write_bytes :: "mem \<Rightarrow> nat \<Rightarrow> bytes \<Rightarrow> mem" where
  "write_bytes m a bs = (\<lambda>x. if a \<le> x \<and> x < a + length bs then bs ! (x - a) else m x)"

text \<open>\<open>ctypes.memmove(dst, src, n)\<close> between two addresses of the process.\<close>

definition memmove :: "mem \<Rightarrow> nat \<Rightarrow> nat \<Rightarrow> nat \<Rightarrow> mem" where
  "memmove m dst src n = (\<lambda>x. if dst \<le> x \<and> x < dst + n then m (src + (x - dst)) else m x)"

definition disjoint_range :: "nat \<Rightarrow> nat \<Rightarrow> nat \<Rightarrow> nat \<Rightarrow> bool" where
  "disjoint_range a n b k \<longleftrightarrow> a + n \<le> b \<or> b + k \<le> a"

lemma length_string_at [simp]: "length (string_at m a n) = n"
  by (simp add: string_at_def)

lemma nth_string_at [simp]: "i < n \<Longrightarrow> string_at m a n ! i = m (a + i)"
  by (simp add: string_at_def)

lemma memmove_write_bytes: "memmove m dst src n = write_bytes m dst (string_at m src n)"
  by (rule ext) (auto simp: memmove_def write_bytes_def)

lemma string_at_write_same [simp, mem_simps]:
  "string_at (write_bytes m a bs) a (length bs) = bs"
  by (rule nth_equalityI) (auto simp: write_bytes_def)

lemma string_at_write_prefix [mem_simps]:
  "n \<le> length bs \<Longrightarrow> string_at (write_bytes m a bs) a n = take n bs"
  by (rule nth_equalityI) (auto simp: write_bytes_def)

lemma string_at_write_disjoint [mem_simps]:
  "disjoint_range a (length bs) b n \<Longrightarrow> string_at (write_bytes m a bs) b n = string_at m b n"
  by (rule nth_equalityI) (auto simp: write_bytes_def disjoint_range_def)

lemma string_at_cong: "(\<And>x. a \<le> x \<Longrightarrow> x < a + n \<Longrightarrow> m x = m' x) \<Longrightarrow> string_at m a n = string_at m' a n"
  by (simp add: string_at_def)

lemma string_at_split: "string_at m a (n + k) = string_at m a n @ string_at m (a + n) k"
  by (rule nth_equalityI) (auto simp: nth_append)

lemma string_at_slice:
  "o1 + n \<le> k \<Longrightarrow> take n (drop o1 (string_at m a k)) = string_at m (a + o1) n"
  by (rule nth_equalityI) (auto simp: add.assoc)

lemma disjoint_range_sym: "disjoint_range a n b k \<Longrightarrow> disjoint_range b k a n"
  by (auto simp: disjoint_range_def)

section \<open>Integers as bytes\<close>

primrec to_le :: "nat \<Rightarrow> nat \<Rightarrow> bytes" where
  "to_le 0 v = []"
| "to_le (Suc n) v = of_nat (v mod 256) # to_le n (v div 256)"

fun from_le :: "bytes \<Rightarrow> nat" where
  "from_le [] = 0"
| "from_le (b # bs) = unat b + 256 * from_le bs"

definition to_be :: "nat \<Rightarrow> nat \<Rightarrow> bytes" where
  "to_be n v = rev (to_le n v)"

definition from_be :: "bytes \<Rightarrow> nat" where
  "from_be bs = from_le (rev bs)"

text \<open>\<open>struct.pack(">I", n)\<close>.\<close>

definition pack_be32 :: "nat \<Rightarrow> bytes result" where
  "pack_be32 n = (if n < 256 ^ 4 then Inr (to_be 4 n) else Inl StructError)"

text \<open>\<open>s.encode("utf-8")\<close>: strings are kept as their encoded bytes.\<close>

definition encode :: "string \<Rightarrow> bytes" where
  "encode s = map (\<lambda>c. of_nat (of_char c)) s"

definition decode_utf8 :: "bytes \<Rightarrow> string" where
  "decode_utf8 bs = map (\<lambda>b. char_of (unat b)) bs"

lemma length_to_le [simp]: "length (to_le n v) = n"
  by (induction n arbitrary: v) auto

lemma length_to_be [simp]: "length (to_be n v) = n"
  by (simp add: to_be_def)

lemma unat_byte: "unat (of_nat (v mod 256) :: byte) = v mod 256"
  by (simp add: unat_of_nat)

lemma from_le_to_le: "v < 256 ^ n \<Longrightarrow> from_le (to_le n v) = v"
proof (induction n arbitrary: v)
  case 0
  then show ?case by simp
next
  case (Suc n)
  then have "v div 256 < 256 ^ n" by (simp add: less_mult_imp_div_less mult.commute)
  with Suc.IH show ?case by (simp add: unat_byte)
qed

lemma from_be_to_be: "v < 256 ^ n \<Longrightarrow> from_be (to_be n v) = v"
  by (simp add: from_be_def to_be_def from_le_to_le)

lemma from_le_bound: "from_le bs < 256 ^ length bs"
proof (induction bs)
  case Nil
  then show ?case by simp
next
  case (Cons b bs)
  have b: "unat b < 256" using unsigned_less [of b, where ?'a = nat] by simp
  have "unat b + 256 * from_le bs < 256 * (1 + from_le bs)" using b by simp
  also have "\<dots> \<le> 256 * 256 ^ length bs" using Cons.IH by (simp add: Suc_leI)
  finally show ?case by simp
qed

lemma length_encode [simp]: "length (encode s) = length s"
  by (simp add: encode_def)

lemma decode_encode [simp]: "decode_utf8 (encode s) = s"
proof -
  have "char_of (unat (of_nat (of_char c) :: byte)) = c" for c :: char
  proof -
    show ?thesis by (simp add: unat_of_nat)
  qed
  then show ?thesis by (simp add: decode_utf8_def encode_def comp_def)
qed

lemma encode_inject [simp]: "encode s = encode t \<longleftrightarrow> s = t"
  by (metis decode_encode)

text \<open>
  \<open>b.decode("utf-8")\<close> raises on bytes that are not well-formed UTF-8 (\<open>UnicodeDecodeError\<close>, a
  \<open>ValueError\<close>).
\<close>

definition utf8_cont :: "nat \<Rightarrow> bool" where
  "utf8_cont b \<longleftrightarrow> 0x80 \<le> b \<and> b \<le> 0xBF"

fun utf8_valid :: "nat list \<Rightarrow> bool" where
  "utf8_valid [] = True"
| "utf8_valid (a # bs) =
     (if a < 0x80 then utf8_valid bs
      else case bs of
        [] \<Rightarrow> False
      | b # bs2 \<Rightarrow>
          if 0xC2 \<le> a \<and> a \<le> 0xDF then utf8_cont b \<and> utf8_valid bs2
          else case bs2 of
            [] \<Rightarrow> False
          | c # bs3 \<Rightarrow>
              if 0xE0 \<le> a \<and> a \<le> 0xEF
              then utf8_cont b \<and> utf8_cont c \<and> (a = 0xE0 \<longrightarrow> 0xA0 \<le> b) \<and> (a = 0xED \<longrightarrow> b \<le> 0x9F) \<and> utf8_valid bs3
              else case bs3 of
                [] \<Rightarrow> False
              | d # bs4 \<Rightarrow>
                  0xF0 \<le> a \<and> a \<le> 0xF4 \<and> utf8_cont b \<and> utf8_cont c \<and> utf8_cont d \<and>
                  (a = 0xF0 \<longrightarrow> 0x90 \<le> b) \<and> (a = 0xF4 \<longrightarrow> b \<le> 0x8F) \<and> utf8_valid bs4)"

definition decode_strict :: "bytes \<Rightarrow> string result" where
  "decode_strict bs = (if utf8_valid (map unat bs) then Inr (decode_utf8 bs) else Inl ValueError)"

text \<open>The strings of the model that are Python strings.\<close>

definition py_str :: "string \<Rightarrow> bool" where
  "py_str s \<longleftrightarrow> utf8_valid (map of_char s)"

lemma unat_encode [simp]: "map unat (encode s) = map of_char s"
  by (simp add: encode_def unat_of_nat comp_def)

lemma decode_strict_encode [simp]: "py_str s \<Longrightarrow> decode_strict (encode s) = Inr s"
  by (simp add: decode_strict_def py_str_def)

lemma utf8_valid_ascii: "\<forall>b \<in> set bs. b < 0x80 \<Longrightarrow> utf8_valid bs"
  by (induction bs) simp_all

end
