(* ===== verification/Cache_Spec.thy ===== *)
theory Cache_Spec
  imports PyBase
begin

text \<open>
  The contract of a soft-state cache, as the pool and the slot region share it: a write may displace other entries, but whatever a lookup still returns was there
  before or is what this write stored under this key. A run of writes then never returns,
  for a key, a value that was not written for that key.
\<close>

locale cache_contract =
  fixes inv :: "'s \<Rightarrow> bool"
    and view :: "'s \<Rightarrow> 'k \<rightharpoonup> 'v"
    and put :: "'s \<Rightarrow> 'r \<Rightarrow> 's"
    and key_of :: "'r \<Rightarrow> 'k"
    and val_of :: "'s \<Rightarrow> 'r \<Rightarrow> 'v"
  assumes inv_put: "inv s \<Longrightarrow> inv (put s r)"
    and put_sound: "inv s \<Longrightarrow> view (put s r) k = Some v \<Longrightarrow>
      view s k = Some v \<or> k = key_of r \<and> v = val_of s r"
begin

lemma run_inv: "inv s \<Longrightarrow> inv (foldl put s rs)"
  by (induction rs arbitrary: s) (auto simp: inv_put)

lemma run_sound:
  "inv s \<Longrightarrow> view (foldl put s rs) k = Some v \<Longrightarrow>
   view s k = Some v \<or>
   (\<exists>xs r ys. rs = xs @ r # ys \<and> key_of r = k \<and> v = val_of (foldl put s xs) r)"
proof (induction rs rule: rev_induct)
  case Nil
  then show ?case by simp
next
  case (snoc r rs)
  have "inv (foldl put s rs)" using snoc.prems(1) by (rule run_inv)
  with snoc.prems(2) put_sound [of "foldl put s rs" r k v]
  have "view (foldl put s rs) k = Some v \<or> k = key_of r \<and> v = val_of (foldl put s rs) r"
    by simp
  then show ?case
  proof
    assume "view (foldl put s rs) k = Some v"
    with snoc.IH snoc.prems(1) consider "view s k = Some v"
      | xs r' ys where "rs = xs @ r' # ys" "key_of r' = k" "v = val_of (foldl put s xs) r'"
      by blast
    then show ?case
    proof cases
      case 2
      then have "rs @ [r] = xs @ r' # (ys @ [r])" by simp
      with 2 show ?thesis by blast
    qed simp
  next
    assume "k = key_of r \<and> v = val_of (foldl put s rs) r"
    then show ?case by (intro disjI2 exI [of _ rs] exI [of _ r] exI [of _ "[]"]) simp
  qed
qed

end

text \<open>A cache with explicit removal: the removed key is gone and no other lookup changes.\<close>

locale cache_removal = cache_contract inv view put key_of val_of
  for inv :: "'s \<Rightarrow> bool" and view :: "'s \<Rightarrow> 'k \<rightharpoonup> 'v" and put :: "'s \<Rightarrow> 'r \<Rightarrow> 's"
    and key_of :: "'r \<Rightarrow> 'k" and val_of :: "'s \<Rightarrow> 'r \<Rightarrow> 'v" +
  fixes del :: "'s \<Rightarrow> 'k \<Rightarrow> 's"
  assumes inv_del: "inv s \<Longrightarrow> inv (del s k)"
    and view_del: "inv s \<Longrightarrow> view (del s k) = (view s)(k := None)"
begin

lemma del_all: "inv s \<Longrightarrow> view (foldl del s ks) = (view s) |` (- set ks)"
proof (induction ks arbitrary: s)
  case Nil
  then show ?case by (simp add: restrict_map_def)
next
  case (Cons k ks)
  then show ?case by (auto simp: inv_del view_del restrict_map_def fun_eq_iff)
qed

end

end
