(* ===== verification/Pool.thy ===== *)
theory Pool
  imports PyBase Cache_Spec
begin

text \<open>
  The published pool (\<^verbatim>\<open>python/peercache/pool.py\<close>): a bump allocator with exact-size free
  lists over one registered region, an LRU of resident pages, and the byte copies into it.
  Every operation runs under the pool's lock, so each is one atomic transition; the keys
  displaced by an allocation are returned, for the caller to hand to \<open>on_evict\<close>.
\<close>

section \<open>State and operations\<close>

record pool =
  pl_base :: nat
  pl_capacity :: nat
  pl_rkey :: nat
  pl_rkeys :: "nat list"
  pl_next_offset :: nat
  pl_free :: "(nat, nat list) dict"
  pl_entries :: "(string, nat \<times> nat) dict"
  pl_used :: int

definition pool_init :: "nat \<Rightarrow> nat \<Rightarrow> nat \<Rightarrow> nat list \<Rightarrow> pool" where
  "pool_init base_addr capacity rkey rkeys =
     \<lparr>pl_base = base_addr, pl_capacity = capacity, pl_rkey = rkey,
      pl_rkeys = (if rkeys = [] then [rkey] else rkeys),
      pl_next_offset = 0, pl_free = [], pl_entries = [], pl_used = 0\<rparr>"

definition bytes_used :: "pool \<Rightarrow> int" where
  "bytes_used p = pl_used p"

definition pool_contains :: "pool \<Rightarrow> string \<Rightarrow> bool" where
  "pool_contains p key \<longleftrightarrow> has_key (pl_entries p) key"

definition pool_len :: "pool \<Rightarrow> nat" where
  "pool_len p = length (pl_entries p)"

definition address_of :: "pool \<Rightarrow> string \<Rightarrow> pool \<times> (nat \<times> nat) option" where
  "address_of p key =
     (case map_of (pl_entries p) key of
        None \<Rightarrow> (p, None)
      | Some (off, len) \<Rightarrow>
          (p\<lparr>pl_entries := move_to_end key (pl_entries p)\<rparr>, Some (pl_base p + off, len)))"

definition free_list :: "(nat, nat list) dict \<Rightarrow> nat \<Rightarrow> nat list" where
  "free_list fr len = (case map_of fr len of None \<Rightarrow> [] | Some os \<Rightarrow> os)"

text \<open>The eviction loop of \<open>_allocate\<close>: pop the oldest page until one of the wanted size goes.\<close>

function evict_until :: "nat \<Rightarrow> pool \<Rightarrow> string list \<Rightarrow> pool \<times> nat option \<times> string list" where
  "evict_until len p evicted =
     (case pl_entries p of
        [] \<Rightarrow> (p, None, evicted)
      | (old_key, (old_off, old_len)) # rest \<Rightarrow>
          (let p1 = p\<lparr>pl_entries := rest, pl_used := pl_used p - int old_len,
                      pl_free := append_at old_len old_off (pl_free p)\<rparr>
           in if old_len = len
              then (p1\<lparr>pl_free := AList.update len (butlast (free_list (pl_free p1) len)) (pl_free p1)\<rparr>,
                    Some (last (free_list (pl_free p1) len)), evicted @ [old_key])
              else evict_until len p1 (evicted @ [old_key])))"
  by pat_completeness auto
termination
  by (relation "measure (\<lambda>(len, p, evicted). length (pl_entries p))") auto

declare evict_until.simps [simp del]

definition allocate :: "pool \<Rightarrow> nat \<Rightarrow> pool \<times> nat option \<times> string list" where
  "allocate p len =
     (if len > pl_capacity p then (p, None, [])
      else if free_list (pl_free p) len \<noteq> [] then
        (p\<lparr>pl_free := AList.update len (butlast (free_list (pl_free p) len)) (pl_free p)\<rparr>,
         Some (last (free_list (pl_free p) len)), [])
      else if pl_next_offset p + len \<le> pl_capacity p then
        (p\<lparr>pl_next_offset := pl_next_offset p + len\<rparr>, Some (pl_next_offset p), [])
      else evict_until len p [])"

definition insert_entry :: "pool \<Rightarrow> string \<Rightarrow> nat \<Rightarrow> nat \<Rightarrow> pool" where
  "insert_entry p key off len =
     p\<lparr>pl_entries := move_to_end key (AList.update key (off, len) (pl_entries p)),
       pl_used := pl_used p + int len\<rparr>"

text \<open>\<open>publish\<close> and \<open>reserve\<close> return the new pool, the memory, the address and the evicted keys.\<close>

definition publish ::
  "pool \<Rightarrow> mem \<Rightarrow> string \<Rightarrow> nat \<Rightarrow> nat \<Rightarrow> pool \<times> mem \<times> nat option \<times> string list" where
  "publish p m key src_ptr len =
     (case map_of (pl_entries p) key of
        Some (off, _) \<Rightarrow>
          (p\<lparr>pl_entries := move_to_end key (pl_entries p)\<rparr>, m, Some (pl_base p + off), [])
      | None \<Rightarrow>
          (case allocate p len of
             (p1, None, evicted) \<Rightarrow> (p1, m, None, evicted)
           | (p1, Some off, evicted) \<Rightarrow>
               (insert_entry p1 key off len, memmove m (pl_base p + off) src_ptr len,
                Some (pl_base p + off), evicted)))"

definition reserve :: "pool \<Rightarrow> string \<Rightarrow> nat \<Rightarrow> pool \<times> nat option \<times> string list" where
  "reserve p key len =
     (case map_of (pl_entries p) key of
        Some (off, _) \<Rightarrow>
          (p\<lparr>pl_entries := move_to_end key (pl_entries p)\<rparr>, Some (pl_base p + off), [])
      | None \<Rightarrow>
          (case allocate p len of
             (p1, None, evicted) \<Rightarrow> (p1, None, evicted)
           | (p1, Some off, evicted) \<Rightarrow>
               (insert_entry p1 key off len, Some (pl_base p + off), evicted)))"

definition snapshot :: "pool \<Rightarrow> (string \<times> nat \<times> nat) list" where
  "snapshot p = map (\<lambda>(k, (off, ln)). (k, pl_base p + off, ln)) (pl_entries p)"

definition pool_remove :: "pool \<Rightarrow> string \<Rightarrow> pool" where
  "pool_remove p key =
     (case map_of (pl_entries p) key of
        None \<Rightarrow> p
      | Some (off, len) \<Rightarrow>
          p\<lparr>pl_entries := AList.delete key (pl_entries p), pl_used := pl_used p - int len,
            pl_free := append_at len off (pl_free p)\<rparr>)"

section \<open>The layout invariant\<close>

text \<open>
  The blocks of a pool are the pages it holds and the ranges on its free lists. They tile
  \<open>[0, next_offset)\<close>: no two overlap and no byte below the bump pointer is lost.
\<close>

definition free_blocks :: "(nat, nat list) dict \<Rightarrow> (nat \<times> nat) list" where
  "free_blocks fr = concat (map (\<lambda>(len, os). map (\<lambda>o1. (o1, len)) os) fr)"

definition blocks :: "pool \<Rightarrow> (nat \<times> nat) list" where
  "blocks p = map snd (pl_entries p) @ free_blocks (pl_free p)"

definition block_disjoint :: "nat \<times> nat \<Rightarrow> nat \<times> nat \<Rightarrow> bool" where
  "block_disjoint b c \<longleftrightarrow> disjoint_range (fst b) (snd b) (fst c) (snd c)"

definition pool_inv :: "pool \<Rightarrow> bool" where
  "pool_inv p \<longleftrightarrow>
     dict_ok (pl_entries p) \<and> dict_ok (pl_free p) \<and>
     sorted_wrt block_disjoint (blocks p) \<and>
     (\<forall>(off, len) \<in> set (blocks p). off + len \<le> pl_next_offset p) \<and>
     sum_list (map snd (blocks p)) = pl_next_offset p \<and>
     pl_next_offset p \<le> pl_capacity p \<and>
     pl_used p = int (sum_list (map (snd \<circ> snd) (pl_entries p)))"

text \<open>What a pool holds, seen from outside: the bytes of each resident page.\<close>

definition pages :: "pool \<Rightarrow> mem \<Rightarrow> string \<rightharpoonup> bytes" where
  "pages p m = (\<lambda>k. map_option (\<lambda>(off, len). string_at m (pl_base p + off) len)
                       (map_of (pl_entries p) k))"

section \<open>Block accounting\<close>

lemma block_disjoint_sym: "block_disjoint b c \<Longrightarrow> block_disjoint c b"
  by (auto simp: block_disjoint_def intro: disjoint_range_sym)

lemma free_list_append_at [simp]:
  "free_list (append_at len off fr) len' = free_list fr len' @ (if len' = len then [off] else [])"
  by (simp add: free_list_def map_of_append_at split: option.splits)

lemma free_blocks_Cons [simp]:
  "free_blocks ((len, os) # fr) = map (\<lambda>o1. (o1, len)) os @ free_blocks fr"
  by (simp add: free_blocks_def)

lemma free_blocks_Nil [simp]: "free_blocks [] = []"
  by (simp add: free_blocks_def)

lemma free_list_Cons:
  "free_list ((len', os) # fr) len = (if len = len' then os else free_list fr len)"
  by (simp add: free_list_def)

lemma mset_free_blocks_update:
  "dict_ok fr \<Longrightarrow>
   mset (free_blocks (AList.update len os fr)) + mset (map (\<lambda>o1. (o1, len)) (free_list fr len)) =
   mset (free_blocks fr) + mset (map (\<lambda>o1. (o1, len)) os)"
proof (induction fr)
  case Nil
  then show ?case by (simp add: free_list_def)
next
  case (Cons e fr)
  obtain l xs where e: "e = (l, xs)" by fastforce
  show ?case
  proof (cases "l = len")
    case True
    with e show ?thesis by (simp add: free_list_Cons union_ac)
  next
    case False
    with Cons e have "mset (free_blocks (AList.update len os fr)) +
        mset (map (\<lambda>o1. (o1, len)) (free_list fr len)) =
        mset (free_blocks fr) + mset (map (\<lambda>o1. (o1, len)) os)" by simp
    with False e show ?thesis by (simp add: free_list_Cons union_ac)
  qed
qed

lemma mset_free_blocks_append_at:
  assumes "dict_ok fr"
  shows "mset (free_blocks (append_at len off fr)) = add_mset (off, len) (mset (free_blocks fr))"
proof -
  have "append_at len off fr = AList.update len (free_list fr len @ [off]) fr"
    by (simp add: append_at_def free_list_def)
  then show ?thesis
    using mset_free_blocks_update [OF assms, of len "free_list fr len @ [off]"] by simp
qed

lemma mset_free_blocks_pop:
  assumes "dict_ok fr" and "free_list fr len \<noteq> []"
  shows "add_mset (last (free_list fr len), len)
           (mset (free_blocks (AList.update len (butlast (free_list fr len)) fr))) =
         mset (free_blocks fr)"
proof -
  let ?os = "free_list fr len"
  from assms(2) obtain ys y where "?os = ys @ [y]" by (cases ?os rule: rev_cases) auto
  then have "mset (map (\<lambda>o1. (o1, len)) ?os) =
        add_mset (last ?os, len) (mset (map (\<lambda>o1. (o1, len)) (butlast ?os)))"
    by simp
  then show ?thesis
    using mset_free_blocks_update [OF assms(1), of len "butlast ?os"] by simp
qed

text \<open>The layout facts depend on the blocks as a multiset only.\<close>

definition tiled :: "nat \<Rightarrow> (nat \<times> nat) multiset \<Rightarrow> bool" where
  "tiled n B \<longleftrightarrow>
     (\<exists>bs. mset bs = B \<and> sorted_wrt block_disjoint bs) \<and>
     (\<forall>(off, len) \<in># B. off + len \<le> n) \<and> sum_mset (image_mset snd B) = n"

lemma tiled_list: "tiled n (mset bs) \<longleftrightarrow>
    sorted_wrt block_disjoint bs \<and> (\<forall>(off, len) \<in> set bs. off + len \<le> n) \<and>
    sum_list (map snd bs) = n"
proof -
  have "(\<exists>cs. mset cs = mset bs \<and> sorted_wrt block_disjoint cs) \<longleftrightarrow> sorted_wrt block_disjoint bs"
    using sorted_wrt_perm [of block_disjoint] block_disjoint_sym by metis
  then show ?thesis
    by (simp add: tiled_def sum_mset_sum_list flip: mset_map)
qed

lemma pool_inv_tiled:
  "pool_inv p \<longleftrightarrow> dict_ok (pl_entries p) \<and> dict_ok (pl_free p) \<and>
     tiled (pl_next_offset p) (mset (blocks p)) \<and> pl_next_offset p \<le> pl_capacity p \<and>
     pl_used p = int (sum_list (map (snd \<circ> snd) (pl_entries p)))"
  by (auto simp: pool_inv_def tiled_list)

lemma tiled_bump: "tiled n B \<Longrightarrow> tiled (n + len) (add_mset (n, len) B)"
proof -
  assume t: "tiled n B"
  then obtain bs where bs: "mset bs = B" by (auto simp: tiled_def)
  have "tiled (n + len) (mset ((n, len) # bs))"
    using t unfolding bs [symmetric] tiled_list
    by (auto simp: block_disjoint_def disjoint_range_def)
  then show ?thesis by (simp add: bs)
qed

section \<open>Allocation\<close>

text \<open>
  What \<open>_allocate\<close> promises on every path: the evicted keys are the oldest ones, in order;
  nothing else leaves the pool; and the offset it returns is a block of its own.
\<close>

definition alloc_post ::
  "pool \<Rightarrow> nat \<Rightarrow> pool \<times> nat option \<times> string list \<Rightarrow> bool" where
  "alloc_post p len res = (case res of (p', r, evicted) \<Rightarrow>
     pl_base p' = pl_base p \<and> pl_capacity p' = pl_capacity p \<and>
     pl_rkey p' = pl_rkey p \<and> pl_rkeys p' = pl_rkeys p \<and>
     evicted = map fst (take (length evicted) (pl_entries p)) \<and>
     pl_entries p' = drop (length evicted) (pl_entries p) \<and>
     pl_used p' = int (sum_list (map (snd \<circ> snd) (pl_entries p'))) \<and>
     dict_ok (pl_free p') \<and> pl_next_offset p' \<le> pl_capacity p' \<and>
     set (blocks p') \<subseteq> set (blocks p) \<and>
     tiled (pl_next_offset p')
       (case r of None \<Rightarrow> mset (blocks p') | Some off \<Rightarrow> add_mset (off, len) (mset (blocks p'))))"

lemma pool_inv_evict_head:
  assumes "pool_inv p" and "pl_entries p = (k, (off, ln)) # rest"
  shows "pool_inv (p\<lparr>pl_entries := rest, pl_used := pl_used p - int ln,
                     pl_free := append_at ln off (pl_free p)\<rparr>)"
  using assms
  by (auto simp: pool_inv_tiled blocks_def mset_free_blocks_append_at)

lemma set_free_blocks_append_at:
  "dict_ok fr \<Longrightarrow> set (free_blocks (append_at len off fr)) = insert (off, len) (set (free_blocks fr))"
  by (metis mset_free_blocks_append_at set_mset_add_mset_insert set_mset_mset)

lemma set_free_blocks_pop:
  "dict_ok fr \<Longrightarrow> free_list fr len \<noteq> [] \<Longrightarrow>
   set (free_blocks (AList.update len (butlast (free_list fr len)) fr)) \<subseteq> set (free_blocks fr)"
  by (metis mset_free_blocks_pop set_mset_add_mset_insert set_mset_mset subset_insertI)

lemma alloc_post_evict_head:
  assumes inv: "pool_inv p" and e: "pl_entries p = (k, (off, ln)) # rest"
    and post: "alloc_post (p\<lparr>pl_entries := rest, pl_used := pl_used p - int ln,
                             pl_free := append_at ln off (pl_free p)\<rparr>) len (p', r, evicted)"
  shows "alloc_post p len (p', r, k # evicted)"
proof -
  have "set (blocks (p\<lparr>pl_entries := rest, pl_used := pl_used p - int ln,
                       pl_free := append_at ln off (pl_free p)\<rparr>)) = set (blocks p)"
    using inv by (simp add: blocks_def e set_free_blocks_append_at pool_inv_def)
  then show ?thesis using post by (simp add: alloc_post_def e)
qed

lemma pop_free_post:
  assumes inv: "pool_inv p" and ne: "free_list (pl_free p) len \<noteq> []"
  shows "alloc_post p len
    (p\<lparr>pl_free := AList.update len (butlast (free_list (pl_free p) len)) (pl_free p)\<rparr>,
     Some (last (free_list (pl_free p) len)), [])"
proof -
  have ok: "dict_ok (pl_free p)" using inv by (simp add: pool_inv_def)
  show ?thesis
    using inv set_free_blocks_pop [OF ok ne]
    by (auto simp: alloc_post_def pool_inv_tiled blocks_def simp flip: mset_free_blocks_pop [OF ok ne])
qed

lemma evict_until_post:
  assumes "pool_inv p"
  obtains p' r ev where "evict_until len p acc = (p', r, acc @ ev)"
    and "alloc_post p len (p', r, ev)"
    and "r = None \<Longrightarrow> pl_entries p' = []"
  using assms
proof (induction len p acc arbitrary: thesis rule: evict_until.induct)
  case (1 len p acc)
  show ?case
  proof (cases "pl_entries p")
    case Nil
    show ?thesis
      by (rule "1.prems"(1) [of p None "[]"])
        (use Nil "1.prems"(2) in \<open>auto simp: evict_until.simps [of len p] alloc_post_def pool_inv_tiled\<close>)
  next
    case (Cons e rest)
    obtain k off ln where e: "e = (k, (off, ln))" by (metis surj_pair)
    let ?p1 = "p\<lparr>pl_entries := rest, pl_used := pl_used p - int ln,
                 pl_free := append_at ln off (pl_free p)\<rparr>"
    have ent: "pl_entries p = (k, (off, ln)) # rest" using Cons e by simp
    have inv1: "pool_inv ?p1" using "1.prems"(2) ent by (rule pool_inv_evict_head)
    show ?thesis
    proof (cases "ln = len")
      case True
      let ?p2 = "?p1\<lparr>pl_free := AList.update len (butlast (free_list (pl_free ?p1) len)) (pl_free ?p1)\<rparr>"
      have eq: "evict_until len p acc = (?p2, Some (last (free_list (pl_free ?p1) len)), acc @ [k])"
        by (subst evict_until.simps) (simp add: ent True)
      have "alloc_post ?p1 len (?p2, Some (last (free_list (pl_free ?p1) len)), [])"
        by (rule pop_free_post [OF inv1]) (simp add: True)
      from alloc_post_evict_head [OF "1.prems"(2) ent this]
      show ?thesis by (rule "1.prems"(1) [OF eq]) simp
    next
      case False
      have eq: "evict_until len p acc = evict_until len ?p1 (acc @ [k])"
        by (subst evict_until.simps) (simp add: ent False)
      obtain p' r ev where rec: "evict_until len ?p1 (acc @ [k]) = (p', r, (acc @ [k]) @ ev)"
        and post: "alloc_post ?p1 len (p', r, ev)" and none: "r = None \<Longrightarrow> pl_entries p' = []"
        using "1.IH" [OF Cons e [symmetric] refl refl False _ inv1] by metis
      show ?thesis
        by (rule "1.prems"(1) [of p' r "k # ev"])
          (use eq rec none alloc_post_evict_head [OF "1.prems"(2) ent post] in auto)
    qed
  qed
qed

lemma allocate_post:
  assumes inv: "pool_inv p"
  shows "alloc_post p len (allocate p len)"
proof -
  obtain p' r ev where ev: "evict_until len p [] = (p', r, [] @ ev)"
    and post: "alloc_post p len (p', r, ev)"
    using evict_until_post [OF inv] by metis
  have bump: "pl_next_offset p + len \<le> pl_capacity p \<Longrightarrow>
      alloc_post p len (p\<lparr>pl_next_offset := pl_next_offset p + len\<rparr>, Some (pl_next_offset p), [])"
    using inv by (auto simp: alloc_post_def pool_inv_tiled blocks_def intro: tiled_bump)
  show ?thesis
    using ev post bump pop_free_post [OF inv, of len] inv
    by (auto simp: allocate_def) (auto simp: alloc_post_def pool_inv_tiled)
qed

section \<open>Operations keep the invariant\<close>

lemma pool_init_inv [simp]: "pool_inv (pool_init base_addr capacity rkey rkeys)"
  by (simp add: pool_init_def pool_inv_def blocks_def)

lemma pool_init_fixed [simp]:
  "pl_base (pool_init base_addr capacity rkey rkeys) = base_addr"
  "pl_capacity (pool_init base_addr capacity rkey rkeys) = capacity"
  by (simp_all add: pool_init_def)

lemma pool_inv_move_to_end:
  "pool_inv p \<Longrightarrow> pool_inv (p\<lparr>pl_entries := move_to_end k (pl_entries p)\<rparr>)"
proof -
  assume inv: "pool_inv p"
  then have ok: "dict_ok (pl_entries p)" by (simp add: pool_inv_def)
  have m: "mset (map f (move_to_end k (pl_entries p))) = mset (map f (pl_entries p))"
    for f :: "string \<times> nat \<times> nat \<Rightarrow> 'c" using mset_move_to_end [OF ok] by simp
  have "sum_list (map (snd \<circ> snd) (move_to_end k (pl_entries p))) =
        sum_list (map (snd \<circ> snd) (pl_entries p))"
    using m [of "snd \<circ> snd"] by (metis sum_mset_sum_list)
  with inv ok m [of snd] show ?thesis by (simp add: pool_inv_tiled blocks_def)
qed

lemma address_of_inv: "pool_inv p \<Longrightarrow> pool_inv (fst (address_of p key))"
  by (auto simp: address_of_def pool_inv_move_to_end split: option.splits)

lemma insert_entry_new:
  "key \<notin> fst ` set (pl_entries p) \<Longrightarrow>
   pl_entries (insert_entry p key off len) = pl_entries p @ [(key, (off, len))]"
  using map_of_None_fst [of "pl_entries p" key]
  by (simp add: insert_entry_def move_to_end_def update_new delete_append delete_absent
      map_add_def)

lemma alloc_post_keys:
  "alloc_post p len (p', r, ev) \<Longrightarrow> fst ` set (pl_entries p') \<subseteq> fst ` set (pl_entries p)"
  by (auto simp: alloc_post_def dest: in_set_dropD)

lemma alloc_post_None_inv:
  assumes "pool_inv p" and "alloc_post p len (p', None, ev)"
  shows "pool_inv p'"
proof -
  have "dict_ok (drop (length ev) (pl_entries p))"
    using assms(1) by (simp add: pool_inv_def dict_ok_def drop_map [symmetric])
  with assms show ?thesis by (auto simp: alloc_post_def pool_inv_tiled)
qed

lemma alloc_post_insert_inv:
  assumes inv: "pool_inv p" and post: "alloc_post p len (p', Some off, ev)"
    and new: "key \<notin> fst ` set (pl_entries p)"
  shows "pool_inv (insert_entry p' key off len)"
proof -
  have ok: "dict_ok (drop (length ev) (pl_entries p))"
    using inv by (simp add: pool_inv_def dict_ok_def drop_map [symmetric])
  have new': "key \<notin> fst ` set (pl_entries p')" using alloc_post_keys [OF post] new by auto
  have ent: "pl_entries (insert_entry p' key off len) = pl_entries p' @ [(key, (off, len))]"
    using new' by (rule insert_entry_new)
  have rest: "pl_free (insert_entry p' key off len) = pl_free p'"
    "pl_next_offset (insert_entry p' key off len) = pl_next_offset p'"
    "pl_capacity (insert_entry p' key off len) = pl_capacity p'"
    "pl_used (insert_entry p' key off len) = pl_used p' + int len"
    by (simp_all add: insert_entry_def)
  have "dict_ok (pl_entries p' @ [(key, (off, len))])"
    using ok new' post by (simp add: dict_ok_append alloc_post_def)
  with post show ?thesis
    unfolding pool_inv_tiled ent rest by (auto simp: alloc_post_def blocks_def ent rest)
qed

lemma publish_inv:
  assumes "pool_inv p"
  shows "pool_inv (fst (publish p m key src len))"
  using assms allocate_post [OF assms, of len]
  by (auto simp: publish_def pool_inv_move_to_end map_of_None_fst alloc_post_None_inv
      intro: alloc_post_insert_inv split: option.splits prod.splits)

lemma reserve_inv:
  assumes "pool_inv p"
  shows "pool_inv (fst (reserve p key len))"
  using assms allocate_post [OF assms, of len]
  by (auto simp: reserve_def pool_inv_move_to_end map_of_None_fst alloc_post_None_inv
      intro: alloc_post_insert_inv split: option.splits prod.splits)

lemma pool_remove_inv:
  assumes inv: "pool_inv p"
  shows "pool_inv (pool_remove p key)"
proof (cases "map_of (pl_entries p) key")
  case None
  with inv show ?thesis by (simp add: pool_remove_def)
next
  case (Some v)
  obtain off len where v: "v = (off, len)" by fastforce
  have m: "mset (pl_entries p) = add_mset (key, (off, len)) (mset (AList.delete key (pl_entries p)))"
    using inv Some v by (intro mset_delete_present) (auto simp: pool_inv_def)
  have s: "sum_list (map (snd \<circ> snd) (pl_entries p)) =
        len + sum_list (map (snd \<circ> snd) (AList.delete key (pl_entries p)))"
    using arg_cong [OF m, of "\<lambda>M. sum_mset (image_mset (snd \<circ> snd) M)"]
    by (simp add: sum_mset_sum_list flip: mset_map)
  show ?thesis
    using inv unfolding pool_inv_tiled
    by (simp add: pool_remove_def Some v blocks_def mset_free_blocks_append_at s m)
qed

section \<open>Contents\<close>

lemma tiled_add_disjoint: "tiled n (add_mset b B) \<Longrightarrow> c \<in># B \<Longrightarrow> block_disjoint b c"
proof -
  assume t: "tiled n (add_mset b B)" and c: "c \<in># B"
  obtain bs where bs: "mset bs = B" by (metis ex_mset)
  with t have "tiled n (mset (b # bs))" by simp
  then have "\<forall>c \<in> set bs. block_disjoint b c" unfolding tiled_list by simp
  with c bs show ?thesis by auto
qed

lemma map_of_drop:
  "dict_ok es \<Longrightarrow>
   map_of (drop n es) k = (if k \<in> set (map fst (take n es)) then None else map_of es k)"
proof (induction es arbitrary: n)
  case Nil
  then show ?case by simp
next
  case (Cons e es)
  obtain a b where e: "e = (a, b)" by fastforce
  show ?case
  proof (cases n)
    case 0
    then show ?thesis by simp
  next
    case (Suc n')
    with Cons e show ?thesis by (auto simp: map_of_None_fst dest: in_set_dropD)
  qed
qed

lemma pages_alloc_None:
  assumes "pool_inv p" and "alloc_post p len (p', None, ev)"
  shows "pages p' m = pages p m |` (- set ev)"
proof -
  have ev: "set ev = set (map fst (take (length ev) (pl_entries p)))"
    using assms(2) by (auto simp: alloc_post_def)
  have "map_of (pl_entries p') k = (if k \<in> set ev then None else map_of (pl_entries p) k)" for k
    unfolding ev using assms map_of_drop [of "pl_entries p" "length ev" k]
    by (simp add: alloc_post_def pool_inv_def)
  then show ?thesis
    using assms(2) by (auto simp: pages_def restrict_map_def alloc_post_def fun_eq_iff)
qed

lemma pages_alloc_insert:
  assumes inv: "pool_inv p" and post: "alloc_post p len (p', Some off, ev)"
    and new: "key \<notin> fst ` set (pl_entries p)" and bs: "length bs = len"
  shows "pages (insert_entry p' key off len) (write_bytes m (pl_base p + off) bs) =
         (pages p m |` (- set ev))(key \<mapsto> bs)"
proof
  fix k
  have new': "key \<notin> fst ` set (pl_entries p')" using alloc_post_keys [OF post] new by auto
  have ev: "set ev = set (map fst (take (length ev) (pl_entries p)))"
    using post by (auto simp: alloc_post_def)
  have mo: "map_of (pl_entries p') k = (if k \<in> set ev then None else map_of (pl_entries p) k)"
    unfolding ev using inv post map_of_drop [of "pl_entries p" "length ev" k]
    by (simp add: alloc_post_def pool_inv_def)
  have base: "pl_base p' = pl_base p" using post by (simp add: alloc_post_def)
  have keep: "string_at (write_bytes m (pl_base p + off) bs) (pl_base p + o') l' =
      string_at m (pl_base p + o') l'" if "map_of (pl_entries p') k = Some (o', l')" for o' l'
  proof -
    have "(o', l') \<in># mset (blocks p')"
      using map_of_SomeD [OF that] by (force simp: blocks_def)
    moreover have "tiled (pl_next_offset p') (add_mset (off, len) (mset (blocks p')))"
      using post by (simp add: alloc_post_def)
    ultimately have "block_disjoint (off, len) (o', l')" by (metis tiled_add_disjoint)
    then show ?thesis
      by (intro string_at_write_disjoint) (auto simp: block_disjoint_def disjoint_range_def bs)
  qed
  have ent: "pl_entries (insert_entry p' key off len) = pl_entries p' @ [(key, (off, len))]"
    using new' by (rule insert_entry_new)
  have base': "pl_base (insert_entry p' key off len) = pl_base p"
    by (simp add: insert_entry_def base)
  show "pages (insert_entry p' key off len) (write_bytes m (pl_base p + off) bs) k =
        ((pages p m |` (- set ev))(key \<mapsto> bs)) k"
  proof (cases "k = key")
    case True
    with new' have "map_of (pl_entries p') key = None" by (simp add: map_of_None_fst)
    moreover have "string_at (write_bytes m (pl_base p + off) bs) (pl_base p + off) len = bs"
      using string_at_write_same [of m "pl_base p + off" bs] bs by simp
    ultimately show ?thesis using True by (simp add: pages_def ent base' map_add_def)
  next
    case False
    then have "map_of (pl_entries p' @ [(key, (off, len))]) k = map_of (pl_entries p') k"
      by (simp add: map_add_def split: option.splits)
    with False keep mo show ?thesis
      by (cases "map_of (pl_entries p) k") (auto simp: pages_def ent base' restrict_map_def)
  qed
qed

lemma publish_cases:
  assumes inv: "pool_inv p" and pub: "publish p m key src len = (p', m', r, ev)"
  obtains (resident) off ln where "map_of (pl_entries p) key = Some (off, ln)"
      "p' = p\<lparr>pl_entries := move_to_end key (pl_entries p)\<rparr>" "m' = m"
      "r = Some (pl_base p + off)" "ev = []"
  | (full) "map_of (pl_entries p) key = None" "alloc_post p len (p', None, ev)" "m' = m" "r = None"
  | (stored) p1 off where "map_of (pl_entries p) key = None" "alloc_post p len (p1, Some off, ev)"
      "p' = insert_entry p1 key off len"
      "m' = write_bytes m (pl_base p + off) (string_at m src len)"
      "r = Some (pl_base p + off)"
  using pub allocate_post [OF inv, of len]
  by (auto simp: publish_def memmove_write_bytes split: option.splits prod.splits)

lemma pages_move_to_end [simp]:
  "pages (p\<lparr>pl_entries := move_to_end k (pl_entries p)\<rparr>) m = pages p m"
  by (simp add: pages_def)

lemma pages_remove: "pages (pool_remove p key) m = (pages p m)(key := None)"
  by (auto simp: pages_def pool_remove_def fun_eq_iff split: option.splits)

lemma publish_view:
  assumes inv: "pool_inv p" and pub: "publish p m key src len = (p', m', r, ev)"
  shows "pages p' m' =
    (if has_key (pl_entries p) key then pages p m
     else if r = None then pages p m |` (- set ev)
     else (pages p m |` (- set ev))(key \<mapsto> string_at m src len))"
  using inv pub
proof (cases rule: publish_cases)
  case resident
  then show ?thesis by (simp add: has_key_def)
next
  case full
  then show ?thesis using pages_alloc_None [OF inv] by (simp add: has_key_def)
next
  case (stored p1 off)
  then show ?thesis
    using pages_alloc_insert [OF inv stored(2), of key "string_at m src len" m]
    by (simp add: has_key_def map_of_None_fst)
qed

section \<open>The pool as a cache\<close>

definition pool_put :: "pool \<times> mem \<Rightarrow> string \<times> nat \<times> nat \<Rightarrow> pool \<times> mem" where
  "pool_put s r = (case s of (p, m) \<Rightarrow> case r of (key, src, len) \<Rightarrow>
     (case publish p m key src len of (p', m', _, _) \<Rightarrow> (p', m')))"

definition pool_request_bytes :: "pool \<times> mem \<Rightarrow> string \<times> nat \<times> nat \<Rightarrow> bytes" where
  "pool_request_bytes s r = (case r of (key, src, len) \<Rightarrow> string_at (snd s) src len)"

interpretation pool_cache: cache_removal
  "\<lambda>s. pool_inv (fst s)" "\<lambda>s. pages (fst s) (snd s)" pool_put fst pool_request_bytes
  "\<lambda>s k. (pool_remove (fst s) k, snd s)"
proof (unfold_locales, goal_cases)
  case (1 s r)
  obtain p m key src len where sr: "s = (p, m)" "r = (key, src, len)" by (metis surj_pair)
  show ?case
    using publish_inv [of p m key src len] 1
    by (auto simp: sr pool_put_def split: prod.splits)
next
  case (2 s r k v)
  obtain p m key src len where sr: "s = (p, m)" "r = (key, src, len)" by (metis surj_pair)
  obtain p' m' a ev where pub: "publish p m key src len = (p', m', a, ev)" by (metis surj_pair)
  show ?case
    using 2 publish_view [OF _ pub]
    by (auto simp: sr pool_put_def pool_request_bytes_def pub restrict_map_def split: if_splits)
next
  case (3 s k)
  then show ?case by (simp add: pool_remove_inv)
next
  case (4 s k)
  then show ?case by (simp add: pages_remove)
qed

section \<open>Runs of pool operations\<close>

datatype pool_op =
    Publish string nat nat
  | Reserve string nat
  | Remove string
  | AddressOf string

fun pool_step :: "pool \<times> mem \<Rightarrow> pool_op \<Rightarrow> pool \<times> mem" where
  "pool_step (p, m) (Publish key src len) = pool_put (p, m) (key, src, len)"
| "pool_step (p, m) (Reserve key len) = (fst (reserve p key len), m)"
| "pool_step (p, m) (Remove key) = (pool_remove p key, m)"
| "pool_step (p, m) (AddressOf key) = (fst (address_of p key), m)"

lemma pool_step_inv: "pool_inv (fst s) \<Longrightarrow> pool_inv (fst (pool_step s op1))"
  using pool_cache.inv_put [of s]
  by (cases s; cases op1) (auto simp: reserve_inv pool_remove_inv address_of_inv)

lemma allocate_fixed:
  assumes "pool_inv p" and "allocate p len = (p', r, ev)"
  shows "pl_base p' = pl_base p" and "pl_capacity p' = pl_capacity p"
  using allocate_post [OF assms(1), of len] assms(2) by (simp_all add: alloc_post_def)

lemma pool_step_fixed:
  assumes "pool_inv (fst s)"
  shows "pl_base (fst (pool_step s op1)) = pl_base (fst s)"
    and "pl_capacity (fst (pool_step s op1)) = pl_capacity (fst s)"
  using assms
  by (cases s; cases op1; auto simp: pool_put_def publish_def reserve_def pool_remove_def
      address_of_def insert_entry_def allocate_fixed split: option.splits prod.splits)+

lemma pool_run_inv:
  "pool_inv (fst s) \<Longrightarrow> pool_inv (fst (foldl pool_step s ops)) \<and>
     pl_base (fst (foldl pool_step s ops)) = pl_base (fst s) \<and>
     pl_capacity (fst (foldl pool_step s ops)) = pl_capacity (fst s)"
proof (induction ops arbitrary: s)
  case Nil
  then show ?case by simp
next
  case (Cons op1 ops)
  then show ?case using Cons.IH [of "pool_step s op1"]
    by (simp add: pool_step_inv pool_step_fixed)
qed

lemma pool_inv_disjoint:
  assumes inv: "pool_inv p" and ne: "k1 \<noteq> k2"
    and e1: "map_of (pl_entries p) k1 = Some b1" and e2: "map_of (pl_entries p) k2 = Some b2"
  shows "block_disjoint b1 b2"
proof -
  have ok: "dict_ok (pl_entries p)" using inv by (simp add: pool_inv_def)
  let ?es = "AList.delete k1 (pl_entries p)"
  have m: "mset (pl_entries p) = add_mset (k1, b1) (mset ?es)"
    using ok e1 by (rule mset_delete_present)
  have "tiled (pl_next_offset p) (add_mset b1 (mset (map snd ?es @ free_blocks (pl_free p))))"
    using inv by (simp add: pool_inv_tiled blocks_def m)
  moreover have "(k2, b2) \<in> set ?es"
    using e2 ne ok by (simp add: dict_ok_map_of)
  then have "b2 \<in># mset (map snd ?es @ free_blocks (pl_free p))" by force
  ultimately show ?thesis by (rule tiled_add_disjoint)
qed

lemma pool_inv_bounds:
  assumes "pool_inv p" and "map_of (pl_entries p) k = Some (off, len)"
  shows "off + len \<le> pl_capacity p"
proof -
  have "(off, len) \<in> set (blocks p)" using assms(2) by (force simp: blocks_def dest: map_of_SomeD)
  with assms(1) show ?thesis by (force simp: pool_inv_def)
qed


lemmas pool_eval = pool_init_def pool_put_def publish_def reserve_def allocate_def free_list_def
  evict_until.simps insert_entry_def address_of_def pool_remove_def append_at_def move_to_end_def




text \<open>Pools of one page size: every block, resident or free, has that size.\<close>

definition op_size_ok :: "nat \<Rightarrow> pool_op \<Rightarrow> bool" where
  "op_size_ok L op1 = (case op1 of
     Publish _ _ len \<Rightarrow> len = L | Reserve _ len \<Rightarrow> len = L | Remove _ \<Rightarrow> True | AddressOf _ \<Rightarrow> True)"

definition uniform :: "nat \<Rightarrow> pool \<Rightarrow> bool" where
  "uniform L p \<longleftrightarrow> (\<forall>b \<in> set (blocks p). snd b = L)"

lemma uniform_empty_next:
  assumes "pool_inv p" and "uniform L p" and "pl_entries p = []" and "free_list (pl_free p) L = []"
  shows "pl_next_offset p = 0"
proof -
  have "free_blocks (pl_free p) = []"
  proof (rule ccontr)
    assume "free_blocks (pl_free p) \<noteq> []"
    then obtain off len where b: "(off, len) \<in> set (free_blocks (pl_free p))"
      by (metis last_in_set surj_pair)
    then obtain os where os: "(len, os) \<in> set (pl_free p)" "off \<in> set os"
      by (auto simp: free_blocks_def)
    from b have "(off, len) \<in> set (blocks p)" by (simp add: blocks_def)
    then have "len = L" using assms(2) unfolding uniform_def by (metis snd_conv)
    moreover have "map_of (pl_free p) len = Some os"
      using os(1) assms(1) by (simp add: pool_inv_def dict_ok_map_of)
    ultimately show False using os(2) assms(4) by (simp add: free_list_def)
  qed
  then show ?thesis using assms(1,3) by (simp add: pool_inv_def blocks_def)
qed

lemma uniform_allocate:
  assumes inv: "pool_inv p" and u: "uniform L p" and L: "L \<le> pl_capacity p"
  obtains p' off ev where "allocate p L = (p', Some off, ev)" and "uniform L p'"
    and "length ev \<le> 1" and "pl_next_offset p + L \<le> pl_capacity p \<Longrightarrow> ev = []"
proof -
  obtain p' r ev where al: "allocate p L = (p', r, ev)" by (metis surj_pair)
  have post: "alloc_post p L (p', r, ev)" using allocate_post [OF inv, of L] al by simp
  have rev: "r \<noteq> None \<and> length ev \<le> 1 \<and> (pl_next_offset p + L \<le> pl_capacity p \<longrightarrow> ev = [])"
  proof (cases "free_list (pl_free p) L \<noteq> [] \<or> pl_next_offset p + L \<le> pl_capacity p")
    case True
    with al L show ?thesis by (auto simp: allocate_def split: if_splits)
  next
    case False
    then have "pl_entries p \<noteq> []" using uniform_empty_next [OF inv u] L by auto
    then obtain k off ln rest where e: "pl_entries p = (k, (off, ln)) # rest"
      by (metis list.exhaust surj_pair)
    have "ln = L" using u e by (simp add: uniform_def blocks_def)
    then have "evict_until L p [] = (p', r, ev) \<Longrightarrow> r \<noteq> None \<and> ev = [k]"
      by (subst (asm) evict_until.simps) (auto simp: e)
    with al False L show ?thesis by (auto simp: allocate_def)
  qed
  moreover have "uniform L p'" using u post by (auto simp: uniform_def alloc_post_def)
  ultimately show thesis using that al by (cases r) auto
qed

lemma uniform_insert:
  assumes "uniform L p"
  shows "uniform L (insert_entry p key off L)"
proof -
  have "set (pl_entries (insert_entry p key off L)) \<subseteq> insert (key, (off, L)) (set (pl_entries p))"
    using set_update_subset [of key "(off, L)" "pl_entries p"]
    by (auto simp: insert_entry_def move_to_end_def dest: subsetD [OF set_delete_subset])
  with assms show ?thesis by (force simp: uniform_def blocks_def insert_entry_def)
qed

lemma uniform_move_to_end:
  assumes "pool_inv p" and "uniform L p"
  shows "uniform L (p\<lparr>pl_entries := move_to_end k (pl_entries p)\<rparr>)"
proof -
  have "set (move_to_end k (pl_entries p)) = set (pl_entries p)"
    using assms(1) mset_move_to_end by (metis pool_inv_def set_mset_mset)
  with assms(2) show ?thesis by (simp add: uniform_def blocks_def)
qed

lemma uniform_remove:
  assumes "pool_inv p" and "uniform L p"
  shows "uniform L (pool_remove p key)"
proof (cases "map_of (pl_entries p) key")
  case None
  with assms show ?thesis by (simp add: pool_remove_def)
next
  case (Some v)
  obtain off len where v: "v = (off, len)" by fastforce
  with Some have mem: "(key, (off, len)) \<in> set (pl_entries p)" by (simp add: map_of_SomeD)
  then have "(off, len) \<in> set (blocks p)" by (force simp: blocks_def)
  then have len: "len = L" using assms(2) unfolding uniform_def by (metis snd_conv)
  have "set (blocks (pool_remove p key)) \<subseteq> insert (off, len) (set (blocks p))"
    using set_delete_subset [of key "pl_entries p"] assms(1)
    by (auto simp: pool_remove_def Some v blocks_def set_free_blocks_append_at pool_inv_def)
  with assms(2) len show ?thesis by (auto simp: uniform_def)
qed

lemma uniform_publish:
  assumes inv: "pool_inv p" and u: "uniform L p" and L: "L \<le> pl_capacity p"
  obtains p' m' a ev where "publish p m key src L = (p', m', Some a, ev)" and "uniform L p'"
    and "length ev \<le> 1" and "pl_next_offset p + L \<le> pl_capacity p \<Longrightarrow> ev = []"
    and "fst (reserve p key L) = p'"
proof (cases "map_of (pl_entries p) key")
  case None
  obtain p1 off ev where al: "allocate p L = (p1, Some off, ev)" "uniform L p1" "length ev \<le> 1"
    "pl_next_offset p + L \<le> pl_capacity p \<Longrightarrow> ev = []"
    using uniform_allocate [OF inv u L] by metis
  show thesis
    by (rule that [of "insert_entry p1 key off L" "memmove m (pl_base p + off) src L"
            "pl_base p + off" ev])
      (use al None uniform_insert in \<open>simp_all add: publish_def reserve_def\<close>)
next
  case (Some v)
  obtain off ln where v: "v = (off, ln)" by fastforce
  show thesis
    by (rule that [of "p\<lparr>pl_entries := move_to_end key (pl_entries p)\<rparr>" m "pl_base p + off" "[]"])
      (use Some v uniform_move_to_end [OF inv u] in \<open>simp_all add: publish_def reserve_def\<close>)
qed

lemma uniform_step:
  assumes inv: "pool_inv (fst s)" and u: "uniform L (fst s)" and L: "L \<le> pl_capacity (fst s)"
    and op1: "op_size_ok L op1"
  shows "uniform L (fst (pool_step s op1))"
proof -
  obtain p m where s: "s = (p, m)" by fastforce
  have *: "uniform L (fst (pool_put s (key, src, L))) \<and> uniform L (fst (reserve p key L))" for key src
  proof -
    obtain p' m' a ev where "publish p m key src L = (p', m', Some a, ev)" "uniform L p'"
      "fst (reserve p key L) = p'"
      using uniform_publish [of p L m key src] inv u L s by (metis fst_conv)
    then show ?thesis by (simp add: s pool_put_def)
  qed
  show ?thesis
    using inv u op1 *
    by (cases op1) (auto simp: s op_size_ok_def uniform_remove address_of_def uniform_move_to_end
        split: option.splits)
qed

lemma uniform_run:
  assumes "pool_inv (fst s)" and "uniform L (fst s)" and "L \<le> pl_capacity (fst s)"
    and "list_all (op_size_ok L) ops"
  shows "uniform L (fst (foldl pool_step s ops))"
  using assms
proof (induction ops arbitrary: s)
  case Nil
  then show ?case by simp
next
  case (Cons op1 ops)
  then show ?case
    using Cons.IH [of "pool_step s op1"] by (simp add: pool_step_inv pool_step_fixed uniform_step)
qed

text \<open>
  C6. The doc comment of the pool promises that pages of one fixed size never fragment it.
  For any page size that fits the capacity: after any run of operations that use this size
  only, publishing a further page of that size never fails, displaces at most one page, and
  displaces none while the pool still has room for another page.
\<close>

theorem publish_uniform_never_fails:
  assumes L: "L \<le> capacity" and ops: "list_all (op_size_ok L) ops"
    and run: "foldl pool_step (pool_init base_addr capacity rkey rkeys, m0) ops = (p, m)"
  shows "\<exists>p' m' a ev. publish p m key src L = (p', m', Some a, ev) \<and> length ev \<le> 1 \<and>
    (pl_next_offset p + L \<le> capacity \<longrightarrow> ev = [])"
proof -
  let ?s = "(pool_init base_addr capacity rkey rkeys, m0)"
  have init: "uniform L (fst ?s)" by (simp add: uniform_def blocks_def pool_init_def)
  have inv: "pool_inv p" and cap: "pl_capacity p = capacity"
    using pool_run_inv [of ?s ops] run by simp_all
  have "uniform L p" using uniform_run [of ?s L ops] init L ops run by simp
  then show ?thesis using uniform_publish [OF inv, of L] L cap by metis
qed

theorem publish_uniform_never_fails_witness:
  "\<exists>p' m' a ev. publish (fst (foldl pool_step (pool_init 0 9 1 [], \<lambda>_. 0)
       [Publish ''a'' 50 4, Publish ''b'' 60 4]))
      (snd (foldl pool_step (pool_init 0 9 1 [], \<lambda>_. 0) [Publish ''a'' 50 4, Publish ''b'' 60 4]))
      ''c'' 70 4 = (p', m', Some a, ev) \<and> length ev \<le> 1"
  using publish_uniform_never_fails [of 4 9 "[Publish ''a'' 50 4, Publish ''b'' 60 4]" 0 1 "[]" "\<lambda>_. 0"
      "fst (foldl pool_step (pool_init 0 9 1 [], \<lambda>_. 0) [Publish ''a'' 50 4, Publish ''b'' 60 4])"
      "snd (foldl pool_step (pool_init 0 9 1 [], \<lambda>_. 0) [Publish ''a'' 50 4, Publish ''b'' 60 4])"
      "''c''" 70]
  by (fastforce simp: op_size_ok_def)

text \<open>
  C7. The byte counter is exact: after any run, the bytes in use are the sum of the resident
  page lengths, they never exceed the capacity, and together with the bytes on the free
  lists they make up everything below the bump pointer, so no byte is ever leaked.
\<close>

theorem pool_accounting:
  "(let p = fst (foldl pool_step (pool_init base_addr capacity rkey rkeys, m) ops) in
     bytes_used p = int (sum_list (map (snd \<circ> snd) (pl_entries p))) \<and>
     bytes_used p \<le> int capacity \<and>
     bytes_used p + int (sum_list (map snd (free_blocks (pl_free p)))) = int (pl_next_offset p))"
proof -
  let ?p = "fst (foldl pool_step (pool_init base_addr capacity rkey rkeys, m) ops)"
  have inv: "pool_inv ?p" and cap: "pl_capacity ?p = capacity"
    using pool_run_inv [of "(pool_init base_addr capacity rkey rkeys, m)" ops] by simp_all
  have sum: "sum_list (map (snd \<circ> snd) (pl_entries ?p)) +
      sum_list (map snd (free_blocks (pl_free ?p))) = pl_next_offset ?p"
    using inv by (simp add: pool_inv_def blocks_def)
  have "bytes_used ?p = int (sum_list (map (snd \<circ> snd) (pl_entries ?p)))"
    using inv by (simp add: pool_inv_def bytes_used_def)
  moreover have "pl_next_offset ?p \<le> capacity" using inv cap by (simp add: pool_inv_def)
  ultimately show ?thesis using sum by (simp add: Let_def)
qed

text \<open>
  C8. Cache soundness of the pool: whatever a run of publishes from an empty pool still
  holds for a key is byte for byte what some publish of that key copied in.
\<close>

theorem pool_never_mixes_keys:
  assumes "pages (fst s) (snd s) k = Some bs"
    and "s = foldl pool_put (pool_init base_addr capacity rkey rkeys, m) reqs"
  shows "\<exists>xs src len ys. reqs = xs @ (k, src, len) # ys \<and>
    bs = string_at (snd (foldl pool_put (pool_init base_addr capacity rkey rkeys, m) xs)) src len"
proof -
  let ?s0 = "(pool_init base_addr capacity rkey rkeys, m)"
  have "pages (fst ?s0) (snd ?s0) k = None" by (simp add: pages_def pool_init_def)
  with pool_cache.run_sound [of ?s0 reqs k bs] assms
  obtain xs r ys where "reqs = xs @ r # ys" "fst r = k"
    "bs = pool_request_bytes (foldl pool_put ?s0 xs) r" by auto
  then show ?thesis by (cases r) (auto simp: pool_request_bytes_def)
qed

theorem pool_never_mixes_keys_witness:
  "\<exists>xs src len ys. [(''a'', 5, 2), (''b'', 9, 2)] = xs @ (''b'', src, len) # ys \<and>
    [9, 10] = string_at (snd (foldl pool_put (pool_init 100 4 7 [], \<lambda>x. of_nat x) xs)) src len"
  by (rule pool_never_mixes_keys [OF _ refl])
    (simp add: pool_eval pages_def memmove_def string_at_def upt_rec)

end
