(* ===== verification/Wire.thy ===== *)
theory Wire
  imports PyBase
begin

text \<open>
  The shared data types (\<^verbatim>\<open>python/peercache/types.py\<close>) and the values that travel over the
  control plane: \<open>NodeInfo\<close>, \<open>DataLocation\<close>, their \<open>to_dict\<close>/\<open>from_dict\<close> codecs, and decimal
  rendering and parsing of integers as \<open>str(n)\<close>, f-strings and \<open>int(s)\<close> do it.
\<close>

section \<open>Decimal numbers\<close>

fun str_nat :: "nat \<Rightarrow> string" where
  "str_nat n = (if n < 10 then [char_of (48 + n)]
                else str_nat (n div 10) @ [char_of (48 + n mod 10)])"

declare str_nat.simps [simp del]

definition digit_val :: "char \<Rightarrow> nat option" where
  "digit_val c = (if 48 \<le> (of_char c :: nat) \<and> (of_char c :: nat) < 58
                  then Some (of_char c - 48) else None)"

text \<open>\<open>int(s)\<close> on a string of decimal digits; anything else is a \<open>ValueError\<close>.\<close>

definition parse_nat :: "string \<Rightarrow> nat result" where
  "parse_nat s =
     (if s = [] then Inl ValueError
      else foldl (\<lambda>r c. case r of Inl e \<Rightarrow> Inl e | Inr n \<Rightarrow>
                    (case digit_val c of None \<Rightarrow> Inl ValueError | Some d \<Rightarrow> Inr (10 * n + d)))
             (Inr 0) s)"

lemma digit_val_char_of: "d < 10 \<Longrightarrow> digit_val (char_of (48 + d)) = Some d"
  by (simp add: digit_val_def)

lemma str_nat_nonempty [simp]: "str_nat n \<noteq> []"
  by (subst str_nat.simps) simp

lemma parse_nat_str_nat [simp]: "parse_nat (str_nat n) = Inr n"
proof -
  have "foldl (\<lambda>r c. case r of Inl e \<Rightarrow> Inl e | Inr n \<Rightarrow>
                    (case digit_val c of None \<Rightarrow> Inl ValueError | Some d \<Rightarrow> Inr (10 * n + d)))
             (Inr 0) (str_nat n) = Inr n"
  proof (induction n rule: str_nat.induct)
    case (1 n)
    show ?case
    proof (cases "n < 10")
      case True
      then show ?thesis by (subst str_nat.simps) (simp add: digit_val_char_of)
    next
      case False
      with 1 show ?thesis by (subst str_nat.simps) (simp add: digit_val_char_of)
    qed
  qed
  then show ?thesis by (simp add: parse_nat_def)
qed

lemma str_nat_inject [simp]: "str_nat a = str_nat b \<longleftrightarrow> a = b"
  by (metis parse_nat_str_nat sum.inject(2))

lemma digits_str_nat: "c \<in> set (str_nat n) \<Longrightarrow> digit_val c \<noteq> None"
proof (induction n rule: str_nat.induct)
  case (1 n)
  show ?case
  proof (cases "n < 10")
    case True
    with 1(2) show ?thesis by (subst (asm) str_nat.simps) (simp add: digit_val_char_of)
  next
    case False
    with 1(2) have "c \<in> set (str_nat (n div 10)) \<or> c = char_of (48 + n mod 10)"
      by (subst (asm) str_nat.simps) auto
    with 1(1) [OF False] show ?thesis by (auto simp: digit_val_char_of)
  qed
qed

text \<open>\<open>f"{host}:{port}"\<close> and its inverse \<open>s.rsplit(":", 1)\<close>.\<close>

definition endpoint :: "string \<Rightarrow> nat \<Rightarrow> string" where
  "endpoint host port = host @ '':'' @ str_nat port"

definition rsplit_colon :: "string \<Rightarrow> (string \<times> string) option" where
  "rsplit_colon s =
     (if CHR '':'' \<in> set s
      then Some (rev (tl (dropWhile (\<lambda>c. c \<noteq> CHR '':'') (rev s))),
                 rev (takeWhile (\<lambda>c. c \<noteq> CHR '':'') (rev s)))
      else None)"

lemma rsplit_colon_append:
  "CHR '':'' \<notin> set t \<Longrightarrow> rsplit_colon (s @ '':'' @ t) = Some (s, t)"
proof -
  assume t: "CHR '':'' \<notin> set t"
  then have "takeWhile (\<lambda>c. c \<noteq> CHR '':'') (rev t @ CHR '':'' # rev s) = rev t"
    and "dropWhile (\<lambda>c. c \<noteq> CHR '':'') (rev t @ CHR '':'' # rev s) = CHR '':'' # rev s"
    by (auto simp: takeWhile_append dropWhile_append)
  then show ?thesis by (simp add: rsplit_colon_def)
qed

lemma colon_not_digit: "digit_val (CHR '':'') = None"
  by (simp add: digit_val_def)

lemma rsplit_endpoint [simp]: "rsplit_colon (endpoint host port) = Some (host, str_nat port)"
  unfolding endpoint_def
  by (rule rsplit_colon_append) (metis colon_not_digit digits_str_nat)

section \<open>Control-plane values\<close>

datatype pyval =
    VNone
  | VBool bool
  | VInt int
  | VStr string
  | VBytes bytes
  | VList "pyval list"
  | VDict "(string \<times> pyval) list"

fun truthy :: "pyval \<Rightarrow> bool" where
  "truthy VNone = False"
| "truthy (VBool b) = b"
| "truthy (VInt i) = (i \<noteq> 0)"
| "truthy (VStr s) = (s \<noteq> [])"
| "truthy (VBytes b) = (b \<noteq> [])"
| "truthy (VList l) = (l \<noteq> [])"
| "truthy (VDict d) = (d \<noteq> [])"

text \<open>\<open>int(x)\<close> for the unsigned quantities of the protocol (addresses, keys, lengths, ports).\<close>

fun as_nat :: "pyval \<Rightarrow> nat result" where
  "as_nat (VInt i) = (if i < 0 then Inl ValueError else Inr (nat i))"
| "as_nat (VBool b) = Inr (if b then 1 else 0)"
| "as_nat (VStr s) = parse_nat s"
| "as_nat _ = Inl TypeError"

text \<open>\<open>int(x)\<close> where a negative number is a value like any other.\<close>

fun as_int :: "pyval \<Rightarrow> int result" where
  "as_int (VInt i) = Inr i"
| "as_int (VBool b) = Inr (if b then 1 else 0)"
| "as_int (VStr s) = fmap_result int (parse_nat s)"
| "as_int _ = Inl TypeError"

text \<open>A field the dataclass annotates as \<open>str\<close>.\<close>

fun as_str :: "pyval \<Rightarrow> string result" where
  "as_str (VStr s) = Inr s"
| "as_str _ = Inl TypeError"

text \<open>\<open>d[k]\<close> and \<open>d.get(k, default)\<close>.\<close>

definition field :: "(string \<times> pyval) list \<Rightarrow> string \<Rightarrow> pyval result" where
  "field d k = (case map_of d k of None \<Rightarrow> Inl KeyError | Some v \<Rightarrow> Inr v)"

definition field_or :: "(string \<times> pyval) list \<Rightarrow> string \<Rightarrow> pyval \<Rightarrow> pyval" where
  "field_or d k dflt = (case map_of d k of None \<Rightarrow> dflt | Some v \<Rightarrow> v)"

text \<open>The same on a value that should be a dictionary, and the items of one that should be a list.\<close>

definition item :: "pyval \<Rightarrow> string \<Rightarrow> pyval result" where
  "item v k = (case v of VDict d \<Rightarrow> field d k | _ \<Rightarrow> Inl TypeError)"

definition item_or :: "pyval \<Rightarrow> string \<Rightarrow> pyval \<Rightarrow> pyval result" where
  "item_or v k dflt = (case v of VDict d \<Rightarrow> Inr (field_or d k dflt) | _ \<Rightarrow> Inl TypeError)"

fun as_list :: "pyval \<Rightarrow> pyval list result" where
  "as_list (VList l) = Inr l"
| "as_list _ = Inl TypeError"

fun as_dict :: "pyval \<Rightarrow> (string \<times> pyval) list result" where
  "as_dict (VDict d) = Inr d"
| "as_dict _ = Inl TypeError"

lemma item_VDict [simp]: "item (VDict d) k = field d k" "item_or (VDict d) k v = Inr (field_or d k v)"
  by (simp_all add: item_def item_or_def)

text \<open>\<open>list(d.get(k, []) or [])\<close>.\<close>

definition list_field :: "(string \<times> pyval) list \<Rightarrow> string \<Rightarrow> pyval list result" where
  "list_field d k =
     (let v = field_or d k (VList []) in
      if truthy v then (case v of VList l \<Rightarrow> Inr l | _ \<Rightarrow> Inl TypeError) else Inr [])"

section \<open>NodeInfo\<close>

record node_info =
  ni_node_id :: string
  control_host :: string
  control_port :: nat
  rdma_host :: string
  rdma_port :: nat
  ni_role :: string

definition rdma_endpoint :: "node_info \<Rightarrow> string" where
  "rdma_endpoint n = endpoint (rdma_host n) (rdma_port n)"

definition control_endpoint :: "node_info \<Rightarrow> string" where
  "control_endpoint n = endpoint (control_host n) (control_port n)"

definition node_to_dict :: "node_info \<Rightarrow> (string \<times> pyval) list" where
  "node_to_dict n =
     [(''node_id'', VStr (ni_node_id n)), (''control_host'', VStr (control_host n)),
      (''control_port'', VInt (int (control_port n))), (''rdma_host'', VStr (rdma_host n)),
      (''rdma_port'', VInt (int (rdma_port n))), (''role'', VStr (ni_role n))]"

definition node_from_dict :: "(string \<times> pyval) list \<Rightarrow> node_info result" where
  "node_from_dict d =
     bind_result (bind_result (field d ''node_id'') as_str) (\<lambda>nid.
     bind_result (bind_result (field d ''control_host'') as_str) (\<lambda>ch.
     bind_result (bind_result (field d ''control_port'') as_nat) (\<lambda>cp.
     bind_result (bind_result (field d ''rdma_host'') as_str) (\<lambda>rh.
     bind_result (bind_result (field d ''rdma_port'') as_nat) (\<lambda>rp.
     bind_result (as_str (field_or d ''role'' (VStr ''inference''))) (\<lambda>ro.
     Inr \<lparr>ni_node_id = nid, control_host = ch, control_port = cp, rdma_host = rh,
          rdma_port = rp, ni_role = ro\<rparr>))))))"

section \<open>DataLocation\<close>

definition DIRECTORY_SCHEMA_VERSION :: nat where
  "DIRECTORY_SCHEMA_VERSION = 2"

record data_location =
  loc_node_id :: string
  loc_rdma_endpoint :: string
  remote_addr :: nat
  loc_rkey :: nat
  loc_length :: nat
  resident :: bool
  rail_endpoints :: "string list"
  rail_rkeys :: "nat list"

definition loc_endpoints :: "data_location \<Rightarrow> string list" where
  "loc_endpoints l = (if rail_endpoints l = [] then [loc_rdma_endpoint l] else rail_endpoints l)"

definition loc_rkeys :: "data_location \<Rightarrow> nat list" where
  "loc_rkeys l = (if rail_rkeys l = [] then [loc_rkey l] else rail_rkeys l)"

definition loc_to_dict :: "data_location \<Rightarrow> (string \<times> pyval) list" where
  "loc_to_dict l =
     [(''node_id'', VStr (loc_node_id l)), (''rdma_endpoint'', VStr (loc_rdma_endpoint l)),
      (''remote_addr'', VInt (int (remote_addr l))), (''rkey'', VInt (int (loc_rkey l))),
      (''length'', VInt (int (loc_length l))), (''resident'', VBool (resident l)),
      (''rail_endpoints'', VList (map VStr (rail_endpoints l))),
      (''rail_rkeys'', VList (map (\<lambda>k. VInt (int k)) (rail_rkeys l))),
      (''v'', VInt (int DIRECTORY_SCHEMA_VERSION))]"

definition loc_from_dict :: "(string \<times> pyval) list \<Rightarrow> data_location result" where
  "loc_from_dict d =
     bind_result (bind_result (field d ''node_id'') as_str) (\<lambda>nid.
     bind_result (bind_result (field d ''rdma_endpoint'') as_str) (\<lambda>ep.
     bind_result (bind_result (field d ''remote_addr'') as_nat) (\<lambda>ra.
     bind_result (bind_result (field d ''rkey'') as_nat) (\<lambda>rk.
     bind_result (bind_result (field d ''length'') as_nat) (\<lambda>ln.
     bind_result (bind_result (list_field d ''rail_endpoints'') (map_result as_str)) (\<lambda>reps.
     bind_result (bind_result (list_field d ''rail_rkeys'') (map_result as_nat)) (\<lambda>rks.
     Inr \<lparr>loc_node_id = nid, loc_rdma_endpoint = ep, remote_addr = ra, loc_rkey = rk,
          loc_length = ln, resident = truthy (field_or d ''resident'' (VBool True)),
          rail_endpoints = reps, rail_rkeys = rks\<rparr>)))))))"

section \<open>Round trips\<close>

lemma list_field_hit: "map_of d k = Some (VList l) \<Longrightarrow> list_field d k = Inr l"
  by (simp add: list_field_def field_or_def)

lemma list_field_miss: "map_of d k = None \<Longrightarrow> list_field d k = Inr []"
  by (simp add: list_field_def field_or_def)

lemmas codec_simps = field_def field_or_def list_field_hit list_field_miss map_result_map

lemma loc_from_to_dict [simp]: "loc_from_dict (loc_to_dict l) = Inr l"
  by (simp add: loc_from_dict_def loc_to_dict_def codec_simps)

lemma node_from_to_dict [simp]: "node_from_dict (node_to_dict n) = Inr n"
  by (simp add: node_from_dict_def node_to_dict_def codec_simps)

lemma loc_to_dict_nonempty [simp]: "loc_to_dict l \<noteq> []"
  by (simp add: loc_to_dict_def)

text \<open>
  C36. The directory record survives the wire in every schema version: decoding an encoded
  location gives it back whatever further (newer) fields are appended to the record, and a
  version 1 record, which has neither rails nor the residency flag, decodes to a resident
  location that is reached through its single legacy endpoint and key.
\<close>

theorem data_location_roundtrip:
  "loc_from_dict (loc_to_dict l @ extra) = Inr l \<and>
   (\<exists>l'. loc_from_dict (take 5 (loc_to_dict l)) = Inr l' \<and> resident l' \<and>
     loc_endpoints l' = [loc_rdma_endpoint l] \<and> loc_rkeys l' = [loc_rkey l] \<and>
     remote_addr l' = remote_addr l \<and> loc_length l' = loc_length l \<and>
     loc_node_id l' = loc_node_id l)"
  by (simp add: loc_from_dict_def loc_to_dict_def codec_simps loc_endpoints_def loc_rkeys_def)

text \<open>
  A node advertises endpoints that peers can take apart again: decoding an encoded
  \<open>NodeInfo\<close> (with any further fields) gives it back, a record without a role is an inference
  node, and \<open>rsplit(":", 1)\<close> followed by \<open>int\<close> recovers host and port of both endpoints,
  even for hosts that contain colons.
\<close>

theorem node_info_roundtrip:
  "node_from_dict (node_to_dict n @ extra) = Inr n \<and>
   node_from_dict (take 5 (node_to_dict n)) = Inr (n\<lparr>ni_role := ''inference''\<rparr>) \<and>
   map_option (\<lambda>(h, p). (h, parse_nat p)) (rsplit_colon (control_endpoint n)) =
     Some (control_host n, Inr (control_port n)) \<and>
   map_option (\<lambda>(h, p). (h, parse_nat p)) (rsplit_colon (rdma_endpoint n)) =
     Some (rdma_host n, Inr (rdma_port n))"
  by (simp add: node_from_dict_def node_to_dict_def codec_simps control_endpoint_def
      rdma_endpoint_def)

end
