(* ===== verification/Hashring.thy ===== *)
theory Hashring
  imports Wire "HOL-Library.List_Lexorder" "HOL-Library.Char_ord"
begin

text \<open>
  The consistent-hash ring (\<^verbatim>\<open>python/peercache/hashring.py\<close>).

  The digest (\<open>hashlib.blake2b\<close>) is a parameter \<open>B\<close>, taking the digest size, the salt and the
  data: every statement below holds for whatever function it is, and collisions of ring
  points are treated explicitly. Iterating over a Python \<open>set\<close> visits its elements in an
  order the language does not fix: \<open>set_nodes\<close> takes that order as the parameter \<open>enum\<close>.
\<close>

definition ring_hash :: "digest \<Rightarrow> string \<Rightarrow> nat" where
  "ring_hash B data = from_be (B 8 [] (encode data))"

section \<open>State and operations\<close>

record hash_ring =
  hr_vnodes :: nat
  hr_ring :: "(nat, string) dict"
  hr_sorted_keys :: "nat list"
  hr_nodes :: "string set"

definition ring_init :: "nat \<Rightarrow> hash_ring" where
  "ring_init vnodes = \<lparr>hr_vnodes = vnodes, hr_ring = [], hr_sorted_keys = [], hr_nodes = {}\<rparr>"

definition nodes :: "hash_ring \<Rightarrow> string list" where
  "nodes r = sorted_list_of_set (hr_nodes r)"

definition ring_contains :: "hash_ring \<Rightarrow> string \<Rightarrow> bool" where
  "ring_contains r node_id \<longleftrightarrow> node_id \<in> hr_nodes r"

definition ring_len :: "hash_ring \<Rightarrow> nat" where
  "ring_len r = card (hr_nodes r)"

definition rebuild :: "hash_ring \<Rightarrow> hash_ring" where
  "rebuild r = r\<lparr>hr_sorted_keys := sort (map fst (hr_ring r))\<rparr>"

text \<open>\<open>_hash(f"{node_id}#{i}")\<close>, the ring points of a node.\<close>

definition vpoint :: "digest \<Rightarrow> string \<Rightarrow> nat \<Rightarrow> nat" where
  "vpoint B node_id i = ring_hash B (node_id @ ''#'' @ str_nat i)"

definition add_points :: "digest \<Rightarrow> nat \<Rightarrow> string \<Rightarrow> (nat, string) dict \<Rightarrow> (nat, string) dict" where
  "add_points B v node_id d = fold (\<lambda>i. AList.update (vpoint B node_id i) node_id) [0..<v] d"

definition del_points :: "digest \<Rightarrow> nat \<Rightarrow> string \<Rightarrow> (nat, string) dict \<Rightarrow> (nat, string) dict" where
  "del_points B v node_id d = fold (\<lambda>i. AList.delete (vpoint B node_id i)) [0..<v] d"

definition add_node :: "digest \<Rightarrow> hash_ring \<Rightarrow> string \<Rightarrow> hash_ring" where
  "add_node B r node_id =
     (if node_id \<in> hr_nodes r then r
      else rebuild (r\<lparr>hr_nodes := insert node_id (hr_nodes r),
                      hr_ring := add_points B (hr_vnodes r) node_id (hr_ring r)\<rparr>))"

definition remove_node :: "digest \<Rightarrow> hash_ring \<Rightarrow> string \<Rightarrow> hash_ring" where
  "remove_node B r node_id =
     (if node_id \<notin> hr_nodes r then r
      else rebuild (r\<lparr>hr_nodes := hr_nodes r - {node_id},
                      hr_ring := del_points B (hr_vnodes r) node_id (hr_ring r)\<rparr>))"

definition set_nodes ::
  "digest \<Rightarrow> (string set \<Rightarrow> string list) \<Rightarrow> hash_ring \<Rightarrow> string list \<Rightarrow> hash_ring" where
  "set_nodes B enum r node_ids =
     (let target = set node_ids in
      if target = hr_nodes r then r
      else rebuild (r\<lparr>hr_nodes := target,
                      hr_ring := fold (add_points B (hr_vnodes r)) (enum target) []\<rparr>))"

text \<open>\<open>bisect.bisect(a, x)\<close>: the insertion point after the entries that are at most \<open>x\<close>.\<close>

definition bisect_right :: "nat list \<Rightarrow> nat \<Rightarrow> nat" where
  "bisect_right xs x = length (takeWhile (\<lambda>k. k \<le> x) xs)"

text \<open>\<open>self._ring[h]\<close>; \<open>ring_point_owned\<close> below shows that it never raises a \<open>KeyError\<close>.\<close>

definition ring_owner :: "hash_ring \<Rightarrow> nat \<Rightarrow> string" where
  "ring_owner r h = (case map_of (hr_ring r) h of Some n \<Rightarrow> n | None \<Rightarrow> [])"

definition get_node :: "digest \<Rightarrow> hash_ring \<Rightarrow> string \<Rightarrow> string option" where
  "get_node B r key =
     (if hr_sorted_keys r = [] then None
      else let idx = bisect_right (hr_sorted_keys r) (ring_hash B key);
               idx = (if idx = length (hr_sorted_keys r) then 0 else idx)
           in Some (ring_owner r (hr_sorted_keys r ! idx)))"

text \<open>The clockwise walk of \<open>get_nodes\<close>: \<open>n\<close> distinct owners, or once around the ring.\<close>

function ring_walk :: "hash_ring \<Rightarrow> nat \<Rightarrow> nat \<Rightarrow> nat \<Rightarrow> string list \<Rightarrow> string list" where
  "ring_walk r n idx i result =
     (if length result < n then
        (let count = length (hr_sorted_keys r);
             node = ring_owner r (hr_sorted_keys r ! (i mod count));
             result' = (if node \<in> set result then result else result @ [node])
         in if i + 1 - idx > count then result' else ring_walk r n idx (i + 1) result')
      else result)"
  by pat_completeness auto
termination
  by (relation "measure (\<lambda>(r, n, idx, i, result). Suc (idx + length (hr_sorted_keys r)) - i)") auto

declare ring_walk.simps [simp del]

definition get_nodes :: "digest \<Rightarrow> hash_ring \<Rightarrow> string \<Rightarrow> nat \<Rightarrow> string list" where
  "get_nodes B r key n =
     (if hr_sorted_keys r = [] \<or> n = 0 then []
      else let idx = bisect_right (hr_sorted_keys r) (ring_hash B key)
           in ring_walk r (min n (card (hr_nodes r))) idx idx [])"

section \<open>Points of the ring\<close>

lemma map_of_add_points:
  "map_of (add_points B v n d) h = (if \<exists>i<v. h = vpoint B n i then Some n else map_of d h)"
proof -
  have "map_of (fold (\<lambda>i. AList.update (vpoint B n i) n) is d) h =
      (if \<exists>i \<in> set is. h = vpoint B n i then Some n else map_of d h)" for "is"
    by (induction "is" arbitrary: d) auto
  then show ?thesis by (auto simp: add_points_def)
qed

lemma dict_ok_add_points [simp]: "dict_ok d \<Longrightarrow> dict_ok (add_points B v n d)"
proof -
  have "dict_ok d \<Longrightarrow> dict_ok (fold (\<lambda>i. AList.update (vpoint B n i) n) is d)" for "is"
    by (induction "is" arbitrary: d) auto
  then show "dict_ok d \<Longrightarrow> dict_ok (add_points B v n d)" by (simp add: add_points_def)
qed

lemma map_of_del_points:
  "map_of (del_points B v n d) h = (if \<exists>i<v. h = vpoint B n i then None else map_of d h)"
proof -
  have "map_of (fold (\<lambda>i. AList.delete (vpoint B n i)) is d) h =
      (if \<exists>i \<in> set is. h = vpoint B n i then None else map_of d h)" for "is"
    by (induction "is" arbitrary: d) auto
  then show ?thesis by (auto simp: del_points_def)
qed

lemma dict_ok_del_points [simp]: "dict_ok d \<Longrightarrow> dict_ok (del_points B v n d)"
proof -
  have "dict_ok d \<Longrightarrow> dict_ok (fold (\<lambda>i. AList.delete (vpoint B n i)) is d)" for "is"
    by (induction "is" arbitrary: d) auto
  then show "dict_ok d \<Longrightarrow> dict_ok (del_points B v n d)" by (simp add: del_points_def)
qed

lemma map_of_fold_add_points:
  "map_of (fold (add_points B v) ns d) h = Some n \<Longrightarrow>
   n \<in> set ns \<and> (\<exists>i<v. h = vpoint B n i) \<or> map_of d h = Some n"
  by (induction ns arbitrary: d) (fastforce simp: map_of_add_points split: if_splits)+

lemma fold_add_points_covers:
  "(n \<in> set ns \<and> i < v \<and> h = vpoint B n i) \<or> map_of d h \<noteq> None \<Longrightarrow>
   map_of (fold (add_points B v) ns d) h \<noteq> None"
proof (induction ns arbitrary: d)
  case Nil
  then show ?case by simp
next
  case (Cons a ns)
  have "n \<in> set ns \<and> i < v \<and> h = vpoint B n i \<or> map_of (add_points B v a d) h \<noteq> None"
    using Cons.prems by (auto simp: map_of_add_points)
  then show ?case using Cons.IH by simp
qed

lemma dict_ok_fold_add_points: "dict_ok d \<Longrightarrow> dict_ok (fold (add_points B v) ns d)"
  by (induction ns arbitrary: d) auto

section \<open>Invariant\<close>

text \<open>
  The sorted key list mirrors the point table, and every point belongs to a member that
  hashes to it. (A colliding point belongs to whichever of the nodes wrote it last.)
\<close>

definition ring_inv :: "digest \<Rightarrow> hash_ring \<Rightarrow> bool" where
  "ring_inv B r \<longleftrightarrow>
     dict_ok (hr_ring r) \<and> hr_sorted_keys r = sort (map fst (hr_ring r)) \<and> finite (hr_nodes r) \<and>
     (\<forall>h n. map_of (hr_ring r) h = Some n \<longrightarrow> n \<in> hr_nodes r \<and> (\<exists>i<hr_vnodes r. h = vpoint B n i))"

lemma ring_init_inv [simp]: "ring_inv B (ring_init v)"
  by (simp add: ring_inv_def ring_init_def)

lemma add_node_inv: "ring_inv B r \<Longrightarrow> ring_inv B (add_node B r n)"
  by (auto simp: ring_inv_def add_node_def rebuild_def map_of_add_points split: if_splits)

lemma set_nodes_inv:
  assumes "ring_inv B r" and "set (enum (set ids)) = set ids"
  shows "ring_inv B (set_nodes B enum r ids)"
  using assms
  by (auto simp: ring_inv_def set_nodes_def rebuild_def Let_def dict_ok_fold_add_points
      dest!: map_of_fold_add_points)

text \<open>Removal keeps the invariant where the removed node's points are its own.\<close>

definition owns_points :: "digest \<Rightarrow> hash_ring \<Rightarrow> string \<Rightarrow> bool" where
  "owns_points B r n \<longleftrightarrow> (\<forall>i<hr_vnodes r. map_of (hr_ring r) (vpoint B n i) = Some n)"

lemma remove_node_inv: "ring_inv B r \<Longrightarrow> ring_inv B (remove_node B r n)"
  by (auto simp: ring_inv_def remove_node_def rebuild_def map_of_del_points split: if_splits)

lemma set_sorted_keys: "ring_inv B r \<Longrightarrow> set (hr_sorted_keys r) = dom (map_of (hr_ring r))"
  by (simp add: ring_inv_def dom_map_of_conv_image_fst)

lemma ring_point_owned:
  "ring_inv B r \<Longrightarrow> h \<in> set (hr_sorted_keys r) \<Longrightarrow> map_of (hr_ring r) h = Some (ring_owner r h)"
  by (auto simp: set_sorted_keys ring_owner_def)

section \<open>The owner of a key\<close>

text \<open>The declarative meaning: the first point clockwise strictly after the hash.\<close>

definition ring_succ :: "nat set \<Rightarrow> nat \<Rightarrow> nat" where
  "ring_succ P h = (if \<exists>p\<in>P. h < p then Min {p \<in> P. h < p} else Min P)"

lemma bisect_succ:
  assumes srt: "sorted xs" and ne: "xs \<noteq> []"
  shows "xs ! (if bisect_right xs h = length xs then 0 else bisect_right xs h) = ring_succ (set xs) h"
proof (cases "bisect_right xs h = length xs")
  case True
  then have "takeWhile (\<lambda>k. k \<le> h) xs = xs"
    by (metis bisect_right_def takeWhile_eq_take take_all order_refl)
  then have "\<forall>p \<in> set xs. \<not> h < p" by (metis not_le set_takeWhileD)
  then have "ring_succ (set xs) h = Min (set xs)" by (auto simp: ring_succ_def)
  also have "\<dots> = hd xs" using srt ne by (metis Min_insert2 finite_set hd_Cons_tl list.simps(15) sorted_simps(2))
  finally show ?thesis using True ne by (simp add: hd_conv_nth)
next
  case False
  let ?i = "bisect_right xs h"
  have i: "?i < length xs"
    using False length_takeWhile_le [of "\<lambda>k. k \<le> h" xs] by (simp add: bisect_right_def)
  have gt: "h < xs ! ?i"
    using nth_length_takeWhile [of "\<lambda>k. k \<le> h" xs] i by (simp add: bisect_right_def not_le)
  have "Min {p \<in> set xs. h < p} = xs ! ?i"
  proof (rule Min_eqI)
    show "xs ! ?i \<in> {p \<in> set xs. h < p}" using gt i by simp
    fix y assume "y \<in> {p \<in> set xs. h < p}"
    then obtain j where j: "j < length xs" "y = xs ! j" "h < y" by (auto simp: in_set_conv_nth)
    have "\<not> j < ?i"
    proof
      assume "j < ?i"
      then have "xs ! j \<in> set (takeWhile (\<lambda>k. k \<le> h) xs)"
        by (metis bisect_right_def nth_mem takeWhile_nth)
      with j show False by (auto dest: set_takeWhileD)
    qed
    with j i srt show "xs ! ?i \<le> y" by (simp add: sorted_nth_mono)
  qed simp
  with gt i False show ?thesis by (auto simp: ring_succ_def)
qed

lemma get_node_succ:
  assumes "ring_inv B r"
  shows "get_node B r key =
    (if hr_ring r = [] then None
     else map_of (hr_ring r) (ring_succ (dom (map_of (hr_ring r))) (ring_hash B key)))"
proof (cases "hr_ring r = []")
  case True
  then show ?thesis using assms by (simp add: get_node_def ring_inv_def)
next
  case False
  let ?ks = "hr_sorted_keys r"
  have ne: "?ks \<noteq> []" and srt: "sorted ?ks"
    using assms False by (auto simp: ring_inv_def)
      (metis length_0_conv length_map length_sort)
  have "get_node B r key = Some (ring_owner r (ring_succ (set ?ks) (ring_hash B key)))"
    using ne bisect_succ [OF srt ne, of "ring_hash B key"] by (simp add: get_node_def Let_def)
  moreover have "ring_succ (set ?ks) (ring_hash B key) \<in> set ?ks"
  proof -
    have "?ks ! (if bisect_right ?ks (ring_hash B key) = length ?ks then 0
                 else bisect_right ?ks (ring_hash B key)) \<in> set ?ks"
      using ne length_takeWhile_le [of "\<lambda>k. k \<le> ring_hash B key" ?ks]
      by (intro nth_mem) (auto simp: bisect_right_def)
    then show ?thesis using bisect_succ [OF srt ne] by simp
  qed
  ultimately show ?thesis
    using False ring_point_owned [OF assms] set_sorted_keys [OF assms] by simp
qed

lemma ring_succ_in: "finite P \<Longrightarrow> P \<noteq> {} \<Longrightarrow> ring_succ P h \<in> P"
proof -
  assume P: "finite P" "P \<noteq> {}"
  show ?thesis
  proof (cases "\<exists>p\<in>P. h < p")
    case True
    then have "Min {p \<in> P. h < p} \<in> {p \<in> P. h < p}" using P by (intro Min_in) auto
    with True show ?thesis by (simp add: ring_succ_def)
  qed (use P in \<open>simp add: ring_succ_def\<close>)
qed

lemma ring_succ_superset:
  assumes "finite Q" and "P \<subseteq> Q" and "P \<noteq> {}" and "ring_succ Q h \<in> P"
  shows "ring_succ P h = ring_succ Q h"
proof (cases "\<exists>p\<in>Q. h < p")
  case True
  let ?s = "ring_succ Q h"
  have s: "?s = Min {p \<in> Q. h < p}" using True by (simp add: ring_succ_def)
  have "?s \<in> {p \<in> Q. h < p}" unfolding s using True assms(1) by (intro Min_in) auto
  with assms(4) have sP: "?s \<in> {p \<in> P. h < p}" by simp
  have "Min {p \<in> P. h < p} = ?s"
  proof (rule Min_eqI)
    show "finite {p \<in> P. h < p}" using assms(1,2) by (simp add: finite_subset)
    fix y assume "y \<in> {p \<in> P. h < p}"
    then show "?s \<le> y" unfolding s using assms(1,2) by (intro Min_le) auto
  qed (rule sP)
  then show ?thesis using sP by (auto simp: ring_succ_def)
next
  case False
  then have s: "ring_succ Q h = Min Q" by (simp add: ring_succ_def)
  have "Min P = Min Q"
    by (rule Min_eqI) (use assms s in \<open>auto simp: finite_subset\<close>)
  with False assms(2) show ?thesis by (auto simp: ring_succ_def)
qed

section \<open>The replica walk\<close>

text \<open>The walk as a fold over the owners it passes, which stops once it has \<open>n\<close> of them.\<close>

fun collect :: "nat \<Rightarrow> 'a list \<Rightarrow> 'a list \<Rightarrow> 'a list" where
  "collect n [] res = res"
| "collect n (x # xs) res =
     (if length res < n then collect n xs (if x \<in> set res then res else res @ [x]) else res)"

definition owner_at :: "hash_ring \<Rightarrow> nat \<Rightarrow> string" where
  "owner_at r i = ring_owner r (hr_sorted_keys r ! (i mod length (hr_sorted_keys r)))"

lemma collect_done: "n \<le> length res \<Longrightarrow> collect n xs res = res"
  by (cases xs) simp_all

lemma ring_walk_collect:
  "idx \<le> i \<Longrightarrow> i \<le> idx + length (hr_sorted_keys r) \<Longrightarrow>
   ring_walk r n idx i res =
     collect n (map (owner_at r) [i..<Suc (idx + length (hr_sorted_keys r))]) res"
proof (induction r n idx i res rule: ring_walk.induct)
  case (1 r n idx i res)
  let ?c = "length (hr_sorted_keys r)"
  let ?x = "owner_at r i"
  let ?res = "if ?x \<in> set res then res else res @ [?x]"
  have upt: "[i..<Suc (idx + ?c)] = i # [Suc i..<Suc (idx + ?c)]"
    using "1.prems" by (simp add: upt_conv_Cons)
  show ?case
  proof (cases "length res < n")
    case False
    then show ?thesis by (subst ring_walk.simps) (simp add: collect_done)
  next
    case True
    show ?thesis
    proof (cases "i + 1 - idx > ?c")
      case last: True
      then have "[Suc i..<Suc (idx + ?c)] = []" using "1.prems" by simp
      then show ?thesis using True last unfolding upt
        by (subst ring_walk.simps) (simp add: owner_at_def Let_def)
    next
      case more: False
      have "ring_walk r n idx (i + 1) ?res = collect n (map (owner_at r) [i + 1..<Suc (idx + ?c)]) ?res"
        by (rule "1.IH" [OF True refl refl refl more, folded owner_at_def])
          (use more "1.prems" in auto)
      moreover have "ring_walk r n idx i res = ring_walk r n idx (i + 1) ?res"
        using True more by (subst ring_walk.simps) (simp add: owner_at_def Let_def)
      ultimately show ?thesis using True unfolding upt by simp
    qed
  qed
qed

lemma collect_props:
  assumes "distinct res" and "length res \<le> n"
  shows "distinct (collect n xs res) \<and> set (collect n xs res) \<subseteq> set res \<union> set xs \<and>
    length (collect n xs res) = min n (card (set res \<union> set xs)) \<and>
    take (length res) (collect n xs res) = res"
  using assms
proof (induction xs arbitrary: res)
  case Nil
  then show ?case by (simp add: distinct_card min_def)
next
  case (Cons x xs)
  show ?case
  proof (cases "length res < n")
    case True
    define res' where "res' = (if x \<in> set res then res else res @ [x])"
    have IH: "distinct (collect n xs res') \<and> set (collect n xs res') \<subseteq> set res' \<union> set xs \<and>
      length (collect n xs res') = min n (card (set res' \<union> set xs)) \<and>
      take (length res') (collect n xs res') = res'"
      by (rule Cons.IH) (use Cons.prems True in \<open>auto simp: res'_def\<close>)
    have sets: "set res' \<union> set xs = set res \<union> set (x # xs)" by (auto simp: res'_def)
    have "length res \<le> length res'" and pre: "take (length res) res' = res" by (auto simp: res'_def)
    then have "take (length res) (collect n xs res') =
        take (length res) (take (length res') (collect n xs res'))" by (simp add: min_def)
    also have "\<dots> = res" using IH pre by simp
    finally have "take (length res) (collect n xs res') = res" .
    moreover have "collect n (x # xs) res = collect n xs res'" using True by (simp add: res'_def)
    ultimately show ?thesis using IH unfolding sets by simp
  next
    case False
    with Cons.prems have n: "length res = n" by simp
    have "n \<le> card (set res \<union> set (x # xs))"
      using Cons.prems n by (metis List.finite_set card_mono distinct_card finite_UnI sup_ge1)
    with False Cons.prems n show ?thesis by auto
  qed
qed

lemma set_owner_walk:
  assumes "hr_sorted_keys r \<noteq> []"
  shows "set (map (owner_at r) [idx..<Suc (idx + length (hr_sorted_keys r))]) =
    ring_owner r ` set (hr_sorted_keys r)"
proof -
  let ?ks = "hr_sorted_keys r" and ?c = "length (hr_sorted_keys r)"
  have c: "?c > 0" using assms by simp
  have "(\<lambda>i. i mod ?c) ` {idx..<Suc (idx + ?c)} = {..<?c}"
  proof
    show "(\<lambda>i. i mod ?c) ` {idx..<Suc (idx + ?c)} \<subseteq> {..<?c}" using c by auto
    show "{..<?c} \<subseteq> (\<lambda>i. i mod ?c) ` {idx..<Suc (idx + ?c)}"
    proof
      fix j assume j: "j \<in> {..<?c}"
      let ?i = "idx + (j + (?c - idx mod ?c)) mod ?c"
      have "?i mod ?c = (idx mod ?c + (j + (?c - idx mod ?c))) mod ?c" by (simp add: mod_simps)
      also have "idx mod ?c + (j + (?c - idx mod ?c)) = j + ?c"
        using mod_less_divisor [OF c, of idx] by linarith
      finally have "?i mod ?c = j" using j by simp
      moreover have "?i \<in> {idx..<Suc (idx + ?c)}" using mod_less_divisor [OF c] by (auto simp: less_Suc_eq_le less_imp_le)
      ultimately show "j \<in> (\<lambda>i. i mod ?c) ` {idx..<Suc (idx + ?c)}" by (metis imageI)
    qed
  qed
  note mods = this
  have "set (map (owner_at r) [idx..<Suc (idx + ?c)]) =
      ring_owner r ` ((\<lambda>j. ?ks ! j) ` ((\<lambda>i. i mod ?c) ` {idx..<Suc (idx + ?c)}))"
    by (simp add: owner_at_def image_image del: upt_Suc)
  also have "(\<lambda>j. ?ks ! j) ` ((\<lambda>i. i mod ?c) ` {idx..<Suc (idx + ?c)}) = set ?ks"
    unfolding mods by (auto simp: in_set_conv_nth)
  finally show ?thesis .
qed

section \<open>Runs of membership changes\<close>

datatype ring_op = AddNode string | RemoveNode string | SetNodes "string list"

fun ring_step :: "digest \<Rightarrow> (string set \<Rightarrow> string list) \<Rightarrow> hash_ring \<Rightarrow> ring_op \<Rightarrow> hash_ring" where
  "ring_step B enum r (AddNode n) = add_node B r n"
| "ring_step B enum r (RemoveNode n) = remove_node B r n"
| "ring_step B enum r (SetNodes ids) = set_nodes B enum r ids"

text \<open>A set iteration visits exactly the elements of the set.\<close>

definition enumerates :: "(string set \<Rightarrow> string list) \<Rightarrow> bool" where
  "enumerates enum \<longleftrightarrow> (\<forall>S. finite S \<longrightarrow> set (enum S) = S)"

lemma enumerates_sorted: "enumerates sorted_list_of_set"
  by (simp add: enumerates_def)

lemma ring_run_inv:
  "enumerates enum \<Longrightarrow> ring_inv B r \<Longrightarrow> ring_inv B (foldl (ring_step B enum) r ops)"
proof (induction ops arbitrary: r)
  case Nil
  then show ?case by simp
next
  case (Cons op1 ops)
  then have "ring_inv B (ring_step B enum r op1)"
    by (cases op1) (auto simp: add_node_inv remove_node_inv enumerates_def intro!: set_nodes_inv)
  with Cons show ?case by simp
qed

lemma hr_vnodes_step [simp]: "hr_vnodes (ring_step B enum r op1) = hr_vnodes r"
  by (cases op1) (simp_all add: add_node_def remove_node_def set_nodes_def rebuild_def Let_def)

lemma hr_vnodes_run [simp]: "hr_vnodes (foldl (ring_step B enum) r ops) = hr_vnodes r"
  by (induction ops arbitrary: r) simp_all

text \<open>No ring point is shared by two nodes of \<open>N\<close>.\<close>

definition collision_free :: "digest \<Rightarrow> nat \<Rightarrow> string set \<Rightarrow> bool" where
  "collision_free B v N \<longleftrightarrow>
     (\<forall>n\<in>N. \<forall>m\<in>N. \<forall>i<v. \<forall>j<v. vpoint B n i = vpoint B m j \<longrightarrow> n = m)"

definition exact_ring :: "digest \<Rightarrow> hash_ring \<Rightarrow> bool" where
  "exact_ring B r \<longleftrightarrow>
     (\<forall>h n. map_of (hr_ring r) h = Some n \<longleftrightarrow> n \<in> hr_nodes r \<and> (\<exists>i<hr_vnodes r. h = vpoint B n i))"

fun op_nodes :: "ring_op \<Rightarrow> string set" where
  "op_nodes (AddNode n) = {n}"
| "op_nodes (RemoveNode n) = {}"
| "op_nodes (SetNodes ids) = set ids"

lemma collision_freeD:
  "collision_free B v N \<Longrightarrow> n \<in> N \<Longrightarrow> m \<in> N \<Longrightarrow> i < v \<Longrightarrow> j < v \<Longrightarrow>
   vpoint B n i = vpoint B m j \<Longrightarrow> n = m"
  by (auto simp: collision_free_def)

lemma exact_ring_add:
  assumes "collision_free B (hr_vnodes r) N" and "insert n (hr_nodes r) \<subseteq> N" and "exact_ring B r"
  shows "exact_ring B (add_node B r n)"
  using assms by (auto simp: exact_ring_def add_node_def rebuild_def map_of_add_points
      intro: collision_freeD)

lemma exact_ring_remove:
  assumes "collision_free B (hr_vnodes r) N" and "hr_nodes r \<subseteq> N" and "exact_ring B r"
  shows "exact_ring B (remove_node B r n)"
  using assms by (auto simp: exact_ring_def remove_node_def rebuild_def map_of_del_points
      dest: collision_freeD)

lemma map_of_fold_add_points_exact:
  assumes "collision_free B v N" and "set ns \<subseteq> N" and "n \<in> set ns" and "i < v"
  shows "map_of (fold (add_points B v) ns d) (vpoint B n i) = Some n"
  using assms(2,3)
proof (induction ns arbitrary: d rule: rev_induct)
  case Nil
  then show ?case by simp
next
  case (snoc a ns)
  show ?case
  proof (cases "\<exists>j<v. vpoint B n i = vpoint B a j")
    case True
    then have "a = n" using assms(1,4) snoc.prems collision_freeD by (metis Un_iff set_append set_subset_Cons subsetD list.set_intros(1))
    with True show ?thesis by (simp add: map_of_add_points)
  next
    case False
    with assms(4) have "n \<noteq> a" by auto
    with snoc False show ?thesis by (auto simp: map_of_add_points)
  qed
qed

lemma exact_ring_set_nodes:
  assumes "collision_free B (hr_vnodes r) N" and "set ids \<subseteq> N" and "set (enum (set ids)) = set ids"
    and "exact_ring B r"
  shows "exact_ring B (set_nodes B enum r ids)"
proof (cases "set ids = hr_nodes r")
  case True
  then show ?thesis using assms(4) by (simp add: set_nodes_def)
next
  case False
  let ?d = "fold (add_points B (hr_vnodes r)) (enum (set ids)) []"
  have "map_of ?d h = Some n \<longleftrightarrow> n \<in> set ids \<and> (\<exists>i<hr_vnodes r. h = vpoint B n i)" for h n
    using map_of_fold_add_points [of B "hr_vnodes r" "enum (set ids)" "[]" h n]
      map_of_fold_add_points_exact [OF assms(1), of "enum (set ids)" n] assms(2,3) by auto
  then show ?thesis using False by (simp add: exact_ring_def set_nodes_def Let_def rebuild_def)
qed

lemma exact_ring_step:
  assumes "collision_free B (hr_vnodes r) N" and "hr_nodes r \<subseteq> N" and "op_nodes op1 \<subseteq> N"
    and "enumerates enum" and "exact_ring B r"
  shows "exact_ring B (ring_step B enum r op1) \<and> hr_nodes (ring_step B enum r op1) \<subseteq> N"
proof (cases op1)
  case (AddNode n)
  with assms exact_ring_add [of B r N n] show ?thesis
    by (auto simp: add_node_def rebuild_def)
next
  case (RemoveNode n)
  with assms exact_ring_remove [of B r N n] show ?thesis
    by (auto simp: remove_node_def rebuild_def)
next
  case (SetNodes ids)
  with assms exact_ring_set_nodes [of B r N ids enum] show ?thesis
    by (auto simp: set_nodes_def rebuild_def Let_def enumerates_def)
qed

lemma exact_ring_run:
  assumes "collision_free B (hr_vnodes r) N" and "hr_nodes r \<subseteq> N"
    and "(\<Union>op1 \<in> set ops. op_nodes op1) \<subseteq> N" and "enumerates enum" and "exact_ring B r"
  shows "exact_ring B (foldl (ring_step B enum) r ops)"
  using assms
proof (induction ops arbitrary: r)
  case Nil
  then show ?case by simp
next
  case (Cons op1 ops)
  then show ?case
    using exact_ring_step [of B r N op1 enum] Cons.IH [of "ring_step B enum r op1"] by simp
qed

lemma exact_ring_unique:
  assumes "ring_inv B r" and "ring_inv B r'" and "exact_ring B r" and "exact_ring B r'"
    and "hr_nodes r = hr_nodes r'" and "hr_vnodes r = hr_vnodes r'"
  shows "map_of (hr_ring r) = map_of (hr_ring r')" and "hr_sorted_keys r = hr_sorted_keys r'"
proof -
  show eq: "map_of (hr_ring r) = map_of (hr_ring r')"
  proof
    fix h
    have "map_of (hr_ring r) h = Some n \<longleftrightarrow> map_of (hr_ring r') h = Some n" for n
      using assms(3-) by (simp add: exact_ring_def)
    then show "map_of (hr_ring r) h = map_of (hr_ring r') h" by (metis option.exhaust)
  qed
  have keys: "hr_sorted_keys q = sorted_list_of_set (dom (map_of (hr_ring q)))" if "ring_inv B q" for q
    using that by (auto simp: ring_inv_def dict_ok_def dom_map_of_conv_image_fst
        sorted_list_of_set_sort_remdups distinct_remdups_id simp flip: set_map)
  show "hr_sorted_keys r = hr_sorted_keys r'"
    using keys [OF assms(1)] keys [OF assms(2)] eq by simp
qed

lemma get_nodes_collect:
  "get_nodes B r key n =
     (if hr_sorted_keys r = [] \<or> n = 0 then []
      else let idx = bisect_right (hr_sorted_keys r) (ring_hash B key)
           in collect (min n (card (hr_nodes r)))
                (map (owner_at r) [idx..<Suc (idx + length (hr_sorted_keys r))]) [])"
  by (simp add: get_nodes_def ring_walk_collect Let_def del: upt_Suc)

lemma get_node_member:
  assumes inv: "ring_inv B r" and ne: "hr_ring r \<noteq> []"
  shows "\<exists>n i. get_node B r key = Some n \<and> n \<in> hr_nodes r \<and> i < hr_vnodes r \<and>
    vpoint B n i = ring_succ (fst ` set (hr_ring r)) (ring_hash B key) \<and>
    map_of (hr_ring r) (vpoint B n i) = Some n"
proof -
  let ?h = "ring_succ (dom (map_of (hr_ring r))) (ring_hash B key)"
  have dom: "dom (map_of (hr_ring r)) = fst ` set (hr_ring r)" by (rule dom_map_of_conv_image_fst)
  have "?h \<in> dom (map_of (hr_ring r))" using ne dom by (intro ring_succ_in) auto
  then obtain n where n: "map_of (hr_ring r) ?h = Some n" by auto
  with inv obtain i where "n \<in> hr_nodes r" "i < hr_vnodes r" "?h = vpoint B n i"
    by (auto simp: ring_inv_def)
  with n ne dom show ?thesis by (auto simp: get_node_succ [OF inv])
qed

lemma owner_image:
  "ring_inv B r \<Longrightarrow> ring_owner r ` set (hr_sorted_keys r) = ran (map_of (hr_ring r))"
  by (force simp: set_sorted_keys ring_owner_def ran_def image_iff)

section \<open>Properties\<close>

text \<open>
  C13. After any sequence of joins, leaves and membership refreshes, \<open>get_node\<close> answers with
  the owner of the first ring point strictly after the key's hash, wrapping to the smallest
  point; it answers \<open>None\<close> exactly when there is no point, and the owner is a current member
  one of whose virtual nodes hashes to that point. No dictionary lookup ever fails.
\<close>

theorem get_node_clockwise_successor:
  assumes "enumerates enum" and r: "r = foldl (ring_step B enum) (ring_init v) ops"
  shows "(hr_ring r = [] \<longleftrightarrow> get_node B r key = None) \<and>
    (hr_ring r \<noteq> [] \<longrightarrow>
       (\<exists>n i. get_node B r key = Some n \<and> n \<in> hr_nodes r \<and> i < v \<and>
          vpoint B n i = ring_succ (fst ` set (hr_ring r)) (ring_hash B key) \<and>
          map_of (hr_ring r) (vpoint B n i) = Some n))"
proof (cases "hr_ring r = []")
  case True
  have "ring_inv B r" using ring_run_inv [OF assms(1) ring_init_inv] r by simp
  with True show ?thesis by (simp add: get_node_succ)
next
  case False
  have "ring_inv B r" using ring_run_inv [OF assms(1) ring_init_inv] r by simp
  moreover have "hr_vnodes r = v" using r by (simp add: ring_init_def)
  ultimately show ?thesis
    using False get_node_member [of B r key] by (metis option.distinct(1))
qed

lemma toy_digest_hash: "ring_hash (\<lambda>n salt d. [of_nat (length d)]) key = length key mod 256"
  by (simp add: ring_hash_def from_be_def unat_of_nat)

theorem get_node_clockwise_successor_witness:
  "get_node (\<lambda>n salt d. [of_nat (length d)])
     (foldl (ring_step (\<lambda>n salt d. [of_nat (length d)]) sorted_list_of_set) (ring_init 1) [AddNode ''ab''])
     ''k'' \<noteq> None"
  using get_node_clockwise_successor [OF enumerates_sorted refl,
      of "\<lambda>n salt d. [of_nat (length d)]" 1 "[AddNode ''ab'']" "''k''"]
  by (auto simp: add_node_def ring_init_def rebuild_def add_points_def)

lemma same_routing:
  assumes "ring_inv B r" and "ring_inv B r'" and "exact_ring B r" and "exact_ring B r'"
    and "hr_nodes r = hr_nodes r'" and "hr_vnodes r = hr_vnodes r'"
  shows "get_node B r key = get_node B r' key \<and> get_nodes B r key n = get_nodes B r' key n"
proof -
  note eq = exact_ring_unique [OF assms]
  have owner: "ring_owner r = ring_owner r'" using eq(1) by (simp add: ring_owner_def fun_eq_iff)
  then have "owner_at r = owner_at r'" using eq(2) by (simp add: owner_at_def fun_eq_iff)
  with owner eq(2) assms(5) show ?thesis by (simp add: get_node_def get_nodes_collect)
qed

text \<open>
  C12. Routing agreement: two nodes that see the same membership route every key to the same
  owner and the same replica list, however they got there (single joins and leaves, bulk
  refreshes, in any order, with any set iteration order), provided that no ring point is
  shared by two of the node ids that ever occur.
\<close>

theorem routing_agreement:
  assumes free: "collision_free B v N"
    and e: "enumerates enum" and e': "enumerates enum'"
    and ops: "(\<Union>op1 \<in> set ops. op_nodes op1) \<subseteq> N" and ops': "(\<Union>op1 \<in> set ops'. op_nodes op1) \<subseteq> N"
    and r: "r = foldl (ring_step B enum) (ring_init v) ops"
    and r': "r' = foldl (ring_step B enum') (ring_init v) ops'"
    and same: "hr_nodes r = hr_nodes r'"
  shows "get_node B r key = get_node B r' key \<and> get_nodes B r key n = get_nodes B r' key n"
proof -
  have inv: "ring_inv B r" "ring_inv B r'" using ring_run_inv e e' r r' by simp_all
  have v: "hr_vnodes r = v" "hr_vnodes r' = v" using r r' by (simp_all add: ring_init_def)
  have init: "exact_ring B (ring_init v)" by (simp add: exact_ring_def ring_init_def)
  have "exact_ring B r" "exact_ring B r'"
    using exact_ring_run [OF _ _ ops e init] exact_ring_run [OF _ _ ops' e' init] free r r'
    by (simp_all add: ring_init_def)
  from same_routing [OF inv this same] v show ?thesis by simp
qed

definition toy_digest :: digest where
  "toy_digest n salt d = [last (butlast (butlast d)), last d]"

lemma str_nat_small: "n < 10 \<Longrightarrow> str_nat n = [char_of (48 + n)]"
  by (subst str_nat.simps) simp

lemma toy_free: "collision_free toy_digest 2 {''a'', ''b''}"
proof -
  have "vpoint toy_digest ''a'' i \<noteq> vpoint toy_digest ''b'' j" if "i < 2" "j < 2" for i j
    using that
    by (auto simp: less_2_cases_iff vpoint_def ring_hash_def toy_digest_def encode_def from_be_def str_nat_small
        unat_of_nat)
  then show ?thesis unfolding collision_free_def by (metis insert_iff singletonD)
qed

theorem routing_agreement_witness:
  "get_node toy_digest (foldl (ring_step toy_digest sorted_list_of_set) (ring_init 2)
      [AddNode ''a'', AddNode ''b'']) ''key'' =
   get_node toy_digest (foldl (ring_step toy_digest (rev \<circ> sorted_list_of_set)) (ring_init 2)
      [SetNodes [''b'', ''a'']]) ''key''"
proof -
  have e: "enumerates (rev \<circ> sorted_list_of_set)" by (simp add: enumerates_def)
  show ?thesis
    by (rule routing_agreement [OF toy_free enumerates_sorted e _ _ refl refl, THEN conjunct1])
      (auto simp: add_node_def set_nodes_def rebuild_def ring_init_def)
qed

text \<open>
  C14. Consistent hashing on a join: when a node joins, every key keeps its owner or moves to
  the joining node. This holds for every digest, collisions of ring points included.
\<close>

theorem add_node_moves_keys_only_to_it:
  assumes inv: "ring_inv B r" and own: "get_node B r key = Some a"
  shows "get_node B (add_node B r n) key \<in> {Some a, Some n}"
proof (cases "n \<in> hr_nodes r")
  case True
  with own show ?thesis by (simp add: add_node_def)
next
  case False
  let ?r = "add_node B r n" and ?h = "ring_hash B key"
  let ?P = "dom (map_of (hr_ring r))" and ?Q = "dom (map_of (hr_ring ?r))"
  have inv': "ring_inv B ?r" using inv by (rule add_node_inv)
  have mo: "map_of (hr_ring ?r) h =
      (if \<exists>i<hr_vnodes r. h = vpoint B n i then Some n else map_of (hr_ring r) h)" for h
    using False by (simp add: add_node_def rebuild_def map_of_add_points)
  have ne: "hr_ring r \<noteq> []" using own by (auto simp: get_node_succ [OF inv] split: if_splits)
  then have Pne: "?P \<noteq> {}" by (simp add: dom_map_of_conv_image_fst)
  have PQ: "?P \<subseteq> ?Q" by (auto simp: mo)
  then have ne': "hr_ring ?r \<noteq> []" using Pne by (auto simp: dom_map_of_conv_image_fst)
  obtain q where q: "q = ring_succ ?Q ?h" by simp
  have new: "get_node B ?r key = map_of (hr_ring ?r) q"
    using ne' q by (simp add: get_node_succ [OF inv'])
  show ?thesis
  proof (cases "\<exists>i<hr_vnodes r. q = vpoint B n i")
    case True
    then show ?thesis using new mo by simp
  next
    case points: False
    have fin: "finite ?Q" by (rule finite_dom_map_of)
    have "q \<in> ?Q" unfolding q using PQ Pne by (intro ring_succ_in [OF fin]) blast
    moreover have mq: "map_of (hr_ring ?r) q = map_of (hr_ring r) q" using points by (simp only: mo if_False)
    ultimately have qP: "q \<in> ?P" by (metis domIff)
    have "ring_succ ?P ?h = q"
      unfolding q using PQ qP [unfolded q] Pne by (intro ring_succ_superset [OF fin])
    then show ?thesis using new mq own ne by (simp add: get_node_succ [OF inv])
  qed
qed

lemma toy_ring:
  "ring_inv toy_digest (add_node toy_digest (ring_init 2) ''a'')"
  "hr_nodes (add_node toy_digest (ring_init 2) ''a'') = {''a''}"
  "get_node toy_digest (add_node toy_digest (ring_init 2) ''a'') ''key'' = Some ''a''"
proof -
  show inv: "ring_inv toy_digest (add_node toy_digest (ring_init 2) ''a'')"
    by (intro add_node_inv ring_init_inv)
  show "hr_nodes (add_node toy_digest (ring_init 2) ''a'') = {''a''}"
    by (simp add: add_node_def ring_init_def rebuild_def)
  have "hr_ring (add_node toy_digest (ring_init 2) ''a'') \<noteq> []"
    by (simp add: add_node_def ring_init_def rebuild_def add_points_def upt_rec)
  then show "get_node toy_digest (add_node toy_digest (ring_init 2) ''a'') ''key'' = Some ''a''"
    using get_node_member [OF inv, of "''key''"] by (auto simp: add_node_def ring_init_def rebuild_def)
qed

theorem add_node_moves_keys_only_to_it_witness:
  "get_node toy_digest (add_node toy_digest (add_node toy_digest (ring_init 2) ''a'') ''b'') ''key'' \<in>
     {Some ''a'', Some ''b''}"
  by (rule add_node_moves_keys_only_to_it) (simp_all add: toy_ring)

text \<open>
  C15. Consistent hashing on a leave: when a node leaves, every key that another node owned
  keeps its owner, provided that the leaving node still owns all of its ring points (no other
  node's virtual node overwrote one of them).
\<close>

theorem remove_node_keeps_other_owners:
  assumes inv: "ring_inv B r" and owns: "owns_points B r n"
    and own: "get_node B r key = Some a" and other: "a \<noteq> n"
  shows "get_node B (remove_node B r n) key = Some a"
proof (cases "n \<in> hr_nodes r")
  case False
  with own show ?thesis by (simp add: remove_node_def)
next
  case True
  let ?r = "remove_node B r n" and ?h = "ring_hash B key"
  let ?P = "dom (map_of (hr_ring ?r))" and ?Q = "dom (map_of (hr_ring r))"
  have inv': "ring_inv B ?r" using inv by (rule remove_node_inv)
  obtain q where q: "q = ring_succ ?Q ?h" by simp
  have ne: "hr_ring r \<noteq> []" using own by (auto simp: get_node_succ [OF inv] split: if_splits)
  then have mq: "map_of (hr_ring r) q = Some a" using own q by (simp add: get_node_succ [OF inv])
  have mo: "map_of (hr_ring ?r) h =
      (if \<exists>i<hr_vnodes r. h = vpoint B n i then None else map_of (hr_ring r) h)" for h
    using True by (simp add: remove_node_def rebuild_def map_of_del_points)
  have "\<not> (\<exists>i<hr_vnodes r. q = vpoint B n i)" using owns mq other True by (auto simp: owns_points_def)
  then have mq': "map_of (hr_ring ?r) q = Some a" using mq by (simp only: mo if_False)
  then have qP: "q \<in> ?P" by (rule domI)
  have sub: "?P \<subseteq> ?Q" by (auto simp: mo split: if_splits)
  have "ring_succ ?P ?h = ring_succ ?Q ?h"
    by (rule ring_succ_superset [OF finite_dom_map_of sub _ qP [unfolded q]]) (use qP in blast)
  moreover have "hr_ring ?r \<noteq> []" using mq' by (metis map_of.simps(1) option.distinct(1))
  ultimately show ?thesis using mq' q by (simp add: get_node_succ [OF inv'])
qed

lemma toy_ring2:
  fixes r defines "r \<equiv> foldl (ring_step toy_digest sorted_list_of_set) (ring_init 2) [AddNode ''a'', AddNode ''b'']"
  shows "ring_inv toy_digest r" and "n \<in> {''a'', ''b''} \<Longrightarrow> owns_points toy_digest r n"
    and "\<exists>n \<in> {''a'', ''b''}. get_node toy_digest r key = Some n"
proof -
  have nodes: "hr_nodes r = {''a'', ''b''}" and v: "hr_vnodes r = 2"
    by (auto simp: r_def add_node_def ring_init_def rebuild_def)
  show inv: "ring_inv toy_digest r"
    unfolding r_def by (rule ring_run_inv [OF enumerates_sorted ring_init_inv])
  have "exact_ring toy_digest r"
    unfolding r_def
    by (rule exact_ring_run [OF _ _ _ enumerates_sorted, where N = "{''a'', ''b''}"])
      (auto simp: ring_init_def exact_ring_def toy_free)
  then show owns: "n \<in> {''a'', ''b''} \<Longrightarrow> owns_points toy_digest r n" for n
    using nodes by (auto simp: exact_ring_def owns_points_def)
  have "hr_ring r \<noteq> []" using owns [of "''a''"] v by (auto simp: owns_points_def dest: spec [of _ "0::nat"])
  then show "\<exists>n \<in> {''a'', ''b''}. get_node toy_digest r key = Some n"
    using get_node_member [OF inv, of key] nodes by blast
qed

theorem remove_node_keeps_other_owners_witness:
  "\<exists>r a n. hr_nodes r = {''a'', ''b''} \<and> n \<in> hr_nodes r \<and> a \<noteq> n \<and>
     get_node toy_digest r ''key'' = Some a \<and>
     get_node toy_digest (remove_node toy_digest r n) ''key'' = Some a"
proof -
  let ?r = "foldl (ring_step toy_digest sorted_list_of_set) (ring_init 2) [AddNode ''a'', AddNode ''b'']"
  have nodes: "hr_nodes ?r = {''a'', ''b''}" by (auto simp: add_node_def ring_init_def rebuild_def)
  obtain a where a: "a \<in> {''a'', ''b''}" "get_node toy_digest ?r ''key'' = Some a"
    using toy_ring2(3) by blast
  obtain n where n: "n \<in> {''a'', ''b''}" "a \<noteq> n" using a(1) by auto
  have "get_node toy_digest (remove_node toy_digest ?r n) ''key'' = Some a"
    by (rule remove_node_keeps_other_owners [OF toy_ring2(1) toy_ring2(2) [OF n(1)] a(2) n(2)])
  with nodes a n show ?thesis
    by (intro exI [of _ ?r] exI [of _ a] exI [of _ n]) (simp only: simp_thms)
qed

text \<open>
  C16. Replica placement: when every member owns a point, \<open>get_nodes\<close> answers with
  \<open>min n (number of members)\<close> pairwise distinct members, the first of which is the owner
  that \<open>get_node\<close> gives.
\<close>

theorem get_nodes_distinct_members:
  assumes inv: "ring_inv B r" and pts: "ran (map_of (hr_ring r)) = hr_nodes r" and n: "0 < n"
  shows "distinct (get_nodes B r key n) \<and> set (get_nodes B r key n) \<subseteq> hr_nodes r \<and>
    length (get_nodes B r key n) = min n (card (hr_nodes r)) \<and>
    get_node B r key = (case get_nodes B r key n of [] \<Rightarrow> None | m # _ \<Rightarrow> Some m)"
proof (cases "hr_sorted_keys r = []")
  case True
  then have "hr_ring r = []" using set_sorted_keys [OF inv] by (simp add: dom_map_of_conv_image_fst)
  with True pts [symmetric] show ?thesis by (simp add: get_node_def get_nodes_def)
next
  case False
  let ?ks = "hr_sorted_keys r" and ?idx = "bisect_right (hr_sorted_keys r) (ring_hash B key)"
  let ?n = "min n (card (hr_nodes r))"
  let ?rest = "map (owner_at r) [Suc ?idx..<Suc (?idx + length ?ks)]"
  let ?walk = "map (owner_at r) [?idx..<Suc (?idx + length ?ks)]"
  have owners: "set ?walk = hr_nodes r"
    unfolding set_owner_walk [OF False] owner_image [OF inv] by (rule pts)
  have walk: "?walk = owner_at r ?idx # ?rest" by (simp add: upt_conv_Cons del: upt_Suc)
  have pos: "0 < ?n" using n owners walk inv
    by (metis List.finite_set card_gt_0_iff empty_iff list.set_intros(1) min_less_iff_conj)
  have eq: "get_nodes B r key n = collect ?n ?walk []"
    using False n by (simp add: get_nodes_collect Let_def del: upt_Suc)
  have "collect ?n ?walk [] = collect ?n ?rest [owner_at r ?idx]" using pos unfolding walk by simp
  moreover have "take 1 (collect ?n ?rest [owner_at r ?idx]) = [owner_at r ?idx]"
    using collect_props [of "[owner_at r ?idx]" ?n ?rest] pos by simp
  ultimately have hd: "take 1 (get_nodes B r key n) = [owner_at r ?idx]" using eq by simp
  have "?idx \<le> length ?ks" by (simp add: bisect_right_def length_takeWhile_le)
  then have "get_node B r key = Some (owner_at r ?idx)"
    using False by (auto simp: get_node_def owner_at_def Let_def)
  with hd have "get_node B r key = (case get_nodes B r key n of [] \<Rightarrow> None | m # _ \<Rightarrow> Some m)"
    by (auto split: list.splits)
  with collect_props [of "[]" ?n ?walk] show ?thesis
    unfolding eq owners by simp
qed

theorem get_nodes_distinct_members_witness:
  "length (get_nodes toy_digest (add_node toy_digest (ring_init 2) ''a'') ''key'' 3) = 1"
proof -
  have "map_of (hr_ring (add_node toy_digest (ring_init 2) ''a'')) =
      (\<lambda>h. if \<exists>i<2. h = vpoint toy_digest ''a'' i then Some ''a'' else None)"
    by (auto simp: add_node_def rebuild_def ring_init_def map_of_add_points)
  moreover have "\<exists>h. \<exists>i<2::nat. h = vpoint toy_digest ''a'' i" by (metis zero_less_numeral)
  ultimately have "ran (map_of (hr_ring (add_node toy_digest (ring_init 2) ''a''))) = {''a''}"
    by (auto simp: ran_def)
  then show ?thesis
    using get_nodes_distinct_members [OF toy_ring(1), of 3 "''key''"] by (simp add: toy_ring)
qed

end
