(* ===== verification/Slotmap.thy ===== *)
theory Slotmap
  imports Wire Cache_Spec
begin

unbundle bit_operations_syntax

text \<open>
  The slot-addressed store (\<^verbatim>\<open>python/peercache/slotmap.py\<close>): the slot header and its gate, the
  way chooser of remote writers, the geometry of a region and the owner side of a region.

  The digest is a parameter \<open>B\<close>. A region lives in the memory of its process, which the
  operations take and return. \<open>struct.pack\<close> raises on a value outside its field and
  \<open>bucket_index\<close> on a region without buckets; both are values of the result type here.
\<close>

section \<open>Slot header\<close>

definition MAGIC :: nat where "MAGIC = 0x50434B31"
definition HDR_VER :: nat where "HDR_VER = 1"
definition HEADER_SIZE :: nat where "HEADER_SIZE = 64"
definition HDR_STRUCT_SIZE :: nat where "HDR_STRUCT_SIZE = 40"

definition key_hash128 :: "digest \<Rightarrow> string \<Rightarrow> nat \<times> nat" where
  "key_hash128 B key =
     (let d = B 16 [] (encode key) in (from_le (take 8 d), from_le (drop 8 d)))"

definition bucket_hash :: "digest \<Rightarrow> string \<Rightarrow> nat" where
  "bucket_hash B key = from_le (B 8 (encode ''bucket'') (encode key))"

text \<open>One unsigned integer field of a little-endian \<open>struct\<close> format.\<close>

definition pack_uint :: "nat \<Rightarrow> nat \<Rightarrow> bytes result" where
  "pack_uint w v = (if v < 256 ^ w then Inr (to_le w v) else Inl StructError)"

text \<open>\<open>Struct("<IHHQQIIQ").pack(...)\<close>.\<close>

definition hdr_pack :: "nat \<Rightarrow> nat \<Rightarrow> nat \<Rightarrow> nat \<Rightarrow> nat \<Rightarrow> nat \<Rightarrow> nat \<Rightarrow> nat \<Rightarrow> bytes result" where
  "hdr_pack magic ver flags hi lo plen pad seq =
     fmap_result concat
       (map_result (\<lambda>(w, v). pack_uint w v)
          [(4, magic), (2, ver), (2, flags), (8, hi), (8, lo), (4, plen), (4, pad), (8, seq)])"

definition encode_header :: "digest \<Rightarrow> string \<Rightarrow> nat \<Rightarrow> nat \<Rightarrow> bytes result" where
  "encode_header B key payload_len seq =
     (let (hi, lo) = key_hash128 B key in
      fmap_result (\<lambda>body. body @ replicate (HEADER_SIZE - length body) 0)
        (hdr_pack MAGIC HDR_VER 0 hi lo payload_len 0 seq))"

text \<open>\<open>Struct("<IHHQQIIQ").unpack(buf)\<close> of 40 bytes.\<close>

definition hdr_unpack :: "bytes \<Rightarrow> nat \<times> nat \<times> nat \<times> nat \<times> nat \<times> nat \<times> nat \<times> nat" where
  "hdr_unpack buf =
     (let f = (\<lambda>off w. from_le (take w (drop off buf))) in
      (f 0 4, f 4 2, f 6 2, f 8 8, f 16 8, f 24 4, f 28 4, f 32 8))"

definition decode_header :: "bytes \<Rightarrow> (bool \<times> nat \<times> nat \<times> nat \<times> nat) option" where
  "decode_header buf =
     (if length buf < HDR_STRUCT_SIZE then None
      else let (magic, ver, flags, hi, lo, plen, pad, seq) = hdr_unpack (take HDR_STRUCT_SIZE buf) in
        if magic \<noteq> MAGIC \<or> ver \<noteq> HDR_VER then Some (False, 0, 0, 0, 0)
        else Some (True, hi, lo, plen, seq))"

definition slot_matches :: "digest \<Rightarrow> bytes \<Rightarrow> string \<Rightarrow> nat \<Rightarrow> bool" where
  "slot_matches B header_bytes key expected_len =
     (case decode_header header_bytes of
        None \<Rightarrow> False
      | Some (ok, hi, lo, plen, seq) \<Rightarrow>
          if \<not> ok then False
          else if seq AND 1 \<noteq> 0 then False
          else if plen \<noteq> expected_len then False
          else let (khi, klo) = key_hash128 B key in hi = khi \<and> lo = klo)"

definition slot_present :: "digest \<Rightarrow> bytes \<Rightarrow> string \<Rightarrow> nat option" where
  "slot_present B header_bytes key =
     (case decode_header header_bytes of
        None \<Rightarrow> None
      | Some (ok, hi, lo, plen, seq) \<Rightarrow>
          if \<not> ok then None
          else if seq AND 1 \<noteq> 0 then None
          else let (khi, klo) = key_hash128 B key in
            if hi = khi \<and> lo = klo then Some plen else None)"

section \<open>Geometry\<close>

definition align64 :: "nat \<Rightarrow> nat" where
  "align64 n = (n + 64 - 1) div 64 * 64"

record slot_geometry =
  max_payload :: nat
  num_buckets :: nat
  ways :: nat
  slot_stride :: nat
  bucket_stride :: nat

definition SlotGeometry :: "nat \<Rightarrow> nat \<Rightarrow> nat \<Rightarrow> slot_geometry" where
  "SlotGeometry mp nb ws =
     \<lparr>max_payload = mp, num_buckets = nb, ways = ws,
      slot_stride = align64 (HEADER_SIZE + mp),
      bucket_stride = align64 (HEADER_SIZE + mp) * ws\<rparr>"

definition capacity :: "slot_geometry \<Rightarrow> nat" where
  "capacity g = bucket_stride g * num_buckets g"

definition bucket_index :: "digest \<Rightarrow> slot_geometry \<Rightarrow> string \<Rightarrow> nat result" where
  "bucket_index B g key =
     (if num_buckets g = 0 then Inl ZeroDivisionError else Inr (bucket_hash B key mod num_buckets g))"

definition bucket_offset :: "digest \<Rightarrow> slot_geometry \<Rightarrow> string \<Rightarrow> nat result" where
  "bucket_offset B g key = fmap_result (\<lambda>b. b * bucket_stride g) (bucket_index B g key)"

definition slot_offset :: "slot_geometry \<Rightarrow> nat \<Rightarrow> nat \<Rightarrow> nat" where
  "slot_offset g bucket_idx way = bucket_idx * bucket_stride g + way * slot_stride g"

section \<open>The way chooser of a remote writer\<close>

text \<open>
  The loop over the ways of a bucket snapshot. Its state is
  (\<open>empty_way\<close>, \<open>oldest_way\<close>, \<open>oldest_seq\<close>, \<open>chosen\<close>).
\<close>

type_synonym way_state = "nat option \<times> nat \<times> nat option \<times> nat option"

definition way_step ::
  "bytes \<Rightarrow> slot_geometry \<Rightarrow> nat \<times> nat \<Rightarrow> way_state \<Rightarrow> nat \<Rightarrow> way_state" where
  "way_step bucket_bytes geom kh st way =
     (let (empty_way, oldest_way, oldest_seq, chosen) = st;
          off = way * slot_stride geom;
          (empty_way, seq, chosen) =
            (case decode_header (take HEADER_SIZE (drop off bucket_bytes)) of
               Some (True, hi, lo, plen, seq) \<Rightarrow>
                 (empty_way, seq, if (hi, lo) = kh then Some way else chosen)
             | _ \<Rightarrow> (if empty_way = None then Some way else empty_way, 0, chosen))
      in if oldest_seq = None \<or> seq < the oldest_seq
         then (empty_way, way, Some seq, chosen)
         else (empty_way, oldest_way, oldest_seq, chosen))"

definition pick_way_from_bucket :: "digest \<Rightarrow> bytes \<Rightarrow> slot_geometry \<Rightarrow> string \<Rightarrow> nat \<times> nat" where
  "pick_way_from_bucket B bucket_bytes geom key =
     (let (empty_way, oldest_way, oldest_seq, chosen) =
            foldl (way_step bucket_bytes geom (key_hash128 B key)) (None, 0, None, None) [0..<ways geom];
          chosen = (case chosen of Some w \<Rightarrow> w
                    | None \<Rightarrow> (case empty_way of Some w \<Rightarrow> w | None \<Rightarrow> oldest_way));
          base = (case oldest_seq of Some s \<Rightarrow> s | None \<Rightarrow> 0);
          new_seq = nat (int (base + 2) AND NOT 1);
          new_seq = (if new_seq = 0 then 2 else new_seq)
      in (chosen, new_seq))"

section \<open>The owner side of a region\<close>

record slot_region =
  sr_base :: nat
  sr_geom :: slot_geometry
  sr_seq :: "(nat \<times> nat, nat) dict"

definition SlotRegion :: "nat \<Rightarrow> slot_geometry \<Rightarrow> slot_region" where
  "SlotRegion base_addr geom = \<lparr>sr_base = base_addr, sr_geom = geom, sr_seq = []\<rparr>"

definition slot_key_hash :: "slot_region \<Rightarrow> mem \<Rightarrow> nat \<Rightarrow> nat \<Rightarrow> (nat \<times> nat) option" where
  "slot_key_hash rg m bucket way =
     (let off = slot_offset (sr_geom rg) bucket way;
          hdr = string_at m (sr_base rg + off) HEADER_SIZE
      in case decode_header hdr of
           Some (True, hi, lo, plen, seq) \<Rightarrow> Some (hi, lo)
         | _ \<Rightarrow> None)"

definition local_seq :: "slot_region \<Rightarrow> nat \<Rightarrow> nat \<Rightarrow> nat" where
  "local_seq rg bucket way = (case map_of (sr_seq rg) (bucket, way) of Some s \<Rightarrow> s | None \<Rightarrow> 0)"

fun pick_loop ::
  "slot_region \<Rightarrow> mem \<Rightarrow> nat \<Rightarrow> nat \<times> nat \<Rightarrow> nat list \<Rightarrow> nat option \<Rightarrow> nat \<Rightarrow> nat option \<Rightarrow> nat" where
  "pick_loop rg m bucket kh [] empty_way oldest_way oldest_seq =
     (case empty_way of Some w \<Rightarrow> w | None \<Rightarrow> oldest_way)"
| "pick_loop rg m bucket kh (way # rest) empty_way oldest_way oldest_seq =
     (let h = slot_key_hash rg m bucket way in
      if h = Some kh then way
      else let empty_way = (if h = None \<and> empty_way = None then Some way else empty_way);
               s = local_seq rg bucket way
           in if oldest_seq = None \<or> s < the oldest_seq
              then pick_loop rg m bucket kh rest empty_way way (Some s)
              else pick_loop rg m bucket kh rest empty_way oldest_way oldest_seq)"

definition pick_way :: "digest \<Rightarrow> slot_region \<Rightarrow> mem \<Rightarrow> string \<Rightarrow> (nat \<times> nat) result" where
  "pick_way B rg m key =
     fmap_result
       (\<lambda>bucket. (bucket, pick_loop rg m bucket (key_hash128 B key) [0..<ways (sr_geom rg)] None 0 None))
       (bucket_index B (sr_geom rg) key)"

definition mark_seq :: "digest \<Rightarrow> slot_region \<Rightarrow> mem \<Rightarrow> nat \<Rightarrow> nat \<Rightarrow> string \<Rightarrow> nat \<Rightarrow> mem result" where
  "mark_seq B rg m off seq key len =
     fmap_result (write_bytes m (sr_base rg + off)) (encode_header B key len seq)"

definition write_header :: "digest \<Rightarrow> slot_region \<Rightarrow> mem \<Rightarrow> nat \<Rightarrow> string \<Rightarrow> nat \<Rightarrow> nat \<Rightarrow> mem result" where
  "write_header B rg m off key len seq = mark_seq B rg m off seq key len"

definition next_seq :: "nat \<Rightarrow> nat" where
  "next_seq seq = (if seq AND 1 = 0 then seq + 2 else seq + 1)"

text \<open>
  An exception leaves memory and bookkeeping as they were: only the first \<open>mark_seq\<close> can
  raise, the second one packs the same fields with a smaller \<open>seq\<close> (\<open>write_local_cases\<close>).
\<close>

definition write_local ::
  "digest \<Rightarrow> slot_region \<Rightarrow> mem \<Rightarrow> string \<Rightarrow> nat \<Rightarrow> nat \<Rightarrow> (slot_region \<times> mem \<times> nat option) result" where
  "write_local B rg m key src_ptr len =
     (if len > max_payload (sr_geom rg) then Inr (rg, m, None)
      else bind_result (pick_way B rg m key) (\<lambda>(bucket, way).
        let off = slot_offset (sr_geom rg) bucket way;
            new_seq = next_seq (local_seq rg bucket way)
        in bind_result (mark_seq B rg m off (new_seq OR 1) key len) (\<lambda>m1.
           let m2 = memmove m1 (sr_base rg + off + HEADER_SIZE) src_ptr len
           in bind_result (write_header B rg m2 off key len new_seq) (\<lambda>m3.
              Inr (rg\<lparr>sr_seq := AList.update (bucket, way) new_seq (sr_seq rg)\<rparr>, m3, Some off)))))"

fun read_loop ::
  "digest \<Rightarrow> slot_region \<Rightarrow> mem \<Rightarrow> string \<Rightarrow> nat \<Rightarrow> nat \<Rightarrow> nat \<Rightarrow> nat list \<Rightarrow> mem \<times> bool" where
  "read_loop B rg m key dst_ptr len bucket [] = (m, False)"
| "read_loop B rg m key dst_ptr len bucket (way # rest) =
     (let off = slot_offset (sr_geom rg) bucket way;
          hdr = string_at m (sr_base rg + off) HEADER_SIZE
      in if slot_matches B hdr key len
         then (memmove m dst_ptr (sr_base rg + off + HEADER_SIZE) len, True)
         else read_loop B rg m key dst_ptr len bucket rest)"

definition read_local ::
  "digest \<Rightarrow> slot_region \<Rightarrow> mem \<Rightarrow> string \<Rightarrow> nat \<Rightarrow> nat \<Rightarrow> (mem \<times> bool) result" where
  "read_local B rg m key dst_ptr len =
     fmap_result (\<lambda>bucket. read_loop B rg m key dst_ptr len bucket [0..<ways (sr_geom rg)])
       (bucket_index B (sr_geom rg) key)"

fun exists_loop :: "digest \<Rightarrow> slot_region \<Rightarrow> mem \<Rightarrow> string \<Rightarrow> nat \<Rightarrow> nat list \<Rightarrow> nat option" where
  "exists_loop B rg m key bucket [] = None"
| "exists_loop B rg m key bucket (way # rest) =
     (let off = slot_offset (sr_geom rg) bucket way;
          hdr = string_at m (sr_base rg + off) HEADER_SIZE
      in case slot_present B hdr key of
           Some plen \<Rightarrow> Some plen
         | None \<Rightarrow> exists_loop B rg m key bucket rest)"

definition exists_local :: "digest \<Rightarrow> slot_region \<Rightarrow> mem \<Rightarrow> string \<Rightarrow> nat option result" where
  "exists_local B rg m key =
     fmap_result (\<lambda>bucket. exists_loop B rg m key bucket [0..<ways (sr_geom rg)])
       (bucket_index B (sr_geom rg) key)"

section \<open>Header lemmas\<close>

lemma fold_size_simps [simp]: "HEADER_SIZE = 64" "HDR_STRUCT_SIZE = 40"
  by (simp_all add: HEADER_SIZE_def HDR_STRUCT_SIZE_def)

lemma hdr_pack_Inr:
  "hdr_pack mg ve fl hi lo pl pd sq = Inr b \<longleftrightarrow>
     mg < 256 ^ 4 \<and> ve < 256 ^ 2 \<and> fl < 256 ^ 2 \<and> hi < 256 ^ 8 \<and> lo < 256 ^ 8 \<and> pl < 256 ^ 4 \<and>
     pd < 256 ^ 4 \<and> sq < 256 ^ 8 \<and>
     b = to_le 4 mg @ to_le 2 ve @ to_le 2 fl @ to_le 8 hi @ to_le 8 lo @ to_le 4 pl @ to_le 4 pd @ to_le 8 sq"
  unfolding hdr_pack_def pack_uint_def
  by (auto simp add: fmap_result_eq_Inr bind_result_eq_Inr)

lemma hdr_unpack_pack: "hdr_pack mg ve fl hi lo pl pd sq = Inr b \<Longrightarrow>
   hdr_unpack b = (mg, ve, fl, hi, lo, pl, pd, sq)"
  by (auto simp: hdr_pack_Inr hdr_unpack_def Let_def from_le_to_le)

lemma encode_header_Inr:
  assumes "encode_header B key plen seq = Inr h"
  shows "length h = 64"
    and "decode_header h = Some (True, fst (key_hash128 B key), snd (key_hash128 B key), plen, seq)"
proof -
  obtain hi lo where kh: "key_hash128 B key = (hi, lo)" by fastforce
  obtain b where b: "hdr_pack MAGIC HDR_VER 0 hi lo plen 0 seq = Inr b"
    and h: "h = b @ replicate (64 - length b) 0"
    using assms by (auto simp: encode_header_def kh fmap_result_eq_Inr)
  have len: "length b = 40" using b by (auto simp: hdr_pack_Inr)
  then show "length h = 64" using h by simp
  have "take 40 h = b" "\<not> length h < 40" using h len by simp_all
  then show "decode_header h = Some (True, fst (key_hash128 B key), snd (key_hash128 B key), plen, seq)"
    by (simp add: decode_header_def hdr_unpack_pack [OF b] kh)
qed

lemma key_hash128_bound:
  assumes "digest_sized B"
  shows "fst (key_hash128 B key) < 256 ^ 8" and "snd (key_hash128 B key) < 256 ^ 8"
  using assms from_le_bound [of "take 8 (B 16 [] (encode key))"]
    from_le_bound [of "drop 8 (B 16 [] (encode key))"]
  by (simp_all add: key_hash128_def digest_sized_def Let_def)

lemma encode_header_ok:
  assumes "digest_sized B"
  shows "(\<exists>h. encode_header B key plen seq = Inr h) \<longleftrightarrow> plen < 256 ^ 4 \<and> seq < 256 ^ 8"
proof -
  obtain hi lo where kh: "key_hash128 B key = (hi, lo)" by fastforce
  have "hi < 256 ^ 8" "lo < 256 ^ 8" using key_hash128_bound [OF assms, of key] kh by simp_all
  then show ?thesis
    by (simp add: encode_header_def kh fmap_result_eq_Inr hdr_pack_Inr MAGIC_def HDR_VER_def)
qed

lemma encode_header_Inl: "encode_header B key plen seq = Inl e \<Longrightarrow> e = StructError"
  by (auto simp: encode_header_def hdr_pack_def pack_uint_def fmap_result_def bind_result_def
      split: sum.splits if_splits prod.splits)

lemma slot_matches_iff:
  "slot_matches B h key len \<longleftrightarrow>
     (\<exists>seq. decode_header h = Some (True, fst (key_hash128 B key), snd (key_hash128 B key), len, seq) \<and> even seq)"
  by (auto simp: slot_matches_def and_one_eq split: option.splits prod.splits)

lemma slot_present_iff: "slot_present B h key = Some n \<longleftrightarrow> slot_matches B h key n"
  by (auto simp: slot_matches_def slot_present_def split: option.splits prod.splits if_splits)

section \<open>Geometry lemmas\<close>

definition geom_ok :: "slot_geometry \<Rightarrow> bool" where
  "geom_ok g \<longleftrightarrow> g = SlotGeometry (max_payload g) (num_buckets g) (ways g) \<and> 0 < ways g \<and> 0 < num_buckets g"

lemma geom_strides:
  assumes "geom_ok g"
  shows "bucket_stride g = slot_stride g * ways g" and "64 + max_payload g \<le> slot_stride g"
    and "64 dvd slot_stride g"
proof -
  have s: "slot_stride g = align64 (64 + max_payload g)"
    using assms by (metis geom_ok_def SlotGeometry_def slot_geometry.select_convs(4) fold_size_simps(1))
  show "bucket_stride g = slot_stride g * ways g"
    using assms s by (metis geom_ok_def SlotGeometry_def slot_geometry.select_convs(5) fold_size_simps(1))
  show "64 + max_payload g \<le> slot_stride g" unfolding s align64_def by simp
  show "64 dvd slot_stride g" unfolding s align64_def by simp
qed

lemma slot_offset_linear: "geom_ok g \<Longrightarrow> slot_offset g b w = (b * ways g + w) * slot_stride g"
  by (simp add: slot_offset_def geom_strides algebra_simps)

lemma slot_index_inj:
  fixes w w' :: nat
  shows "w < n \<Longrightarrow> w' < n \<Longrightarrow> b * n + w = b' * n + w' \<Longrightarrow> b = b' \<and> w = w'"
  by (metis add.commute div_mult_self3 div_less mod_less mod_mult_self3 nat_neq_iff not_less0 add_0)

lemma slots_disjoint:
  assumes "geom_ok g" and "w < ways g" and "w' < ways g" and "(b, w) \<noteq> (b', w')"
  shows "disjoint_range (slot_offset g b w) (slot_stride g) (slot_offset g b' w') (slot_stride g)"
proof -
  let ?i = "b * ways g + w" and ?j = "b' * ways g + w'"
  have "?i \<noteq> ?j" using slot_index_inj assms(2-) by blast
  then consider "Suc ?i \<le> ?j" | "Suc ?j \<le> ?i" by linarith
  then have "Suc ?i * slot_stride g \<le> ?j * slot_stride g \<or> Suc ?j * slot_stride g \<le> ?i * slot_stride g"
    by (meson mult_le_mono1)
  then show ?thesis unfolding disjoint_range_def slot_offset_linear [OF assms(1)]
    by (metis add.commute mult_Suc)
qed

lemma slot_in_region:
  assumes "geom_ok g" and "b < num_buckets g" and "w < ways g"
  shows "slot_offset g b w + slot_stride g \<le> capacity g"
proof -
  have "Suc (b * ways g + w) \<le> Suc b * ways g" using assms(3) by simp
  also have "\<dots> \<le> num_buckets g * ways g" using assms(2) by (intro mult_le_mono1) simp
  finally have "Suc (b * ways g + w) * slot_stride g \<le> num_buckets g * ways g * slot_stride g"
    by (rule mult_le_mono1)
  then show ?thesis
    by (simp add: slot_offset_linear [OF assms(1)] capacity_def geom_strides [OF assms(1)] algebra_simps)
qed

lemma bucket_index_ok:
  "geom_ok g \<Longrightarrow> bucket_index B g key = Inr (bucket_hash B key mod num_buckets g)"
  by (simp add: bucket_index_def geom_ok_def)

section \<open>Scans of a bucket\<close>

abbreviation slot_addr :: "slot_region \<Rightarrow> nat \<Rightarrow> nat \<Rightarrow> nat" where
  "slot_addr rg b w \<equiv> sr_base rg + slot_offset (sr_geom rg) b w"

abbreviation slot_hdr :: "slot_region \<Rightarrow> mem \<Rightarrow> nat \<Rightarrow> nat \<Rightarrow> bytes" where
  "slot_hdr rg m b w \<equiv> string_at m (slot_addr rg b w) 64"

lemma read_loop_find:
  "read_loop B rg m key dst len b ws =
     (case find (\<lambda>w. slot_matches B (slot_hdr rg m b w) key len) ws of
        None \<Rightarrow> (m, False)
      | Some w \<Rightarrow> (memmove m dst (slot_addr rg b w + 64) len, True))"
  by (induction ws) (simp_all add: Let_def)

lemma exists_loop_find:
  "exists_loop B rg m key b ws = None \<longleftrightarrow> (\<forall>w \<in> set ws. slot_present B (slot_hdr rg m b w) key = None)"
  "exists_loop B rg m key b ws = Some n \<Longrightarrow> \<exists>w \<in> set ws. slot_matches B (slot_hdr rg m b w) key n"
  by (induction ws) (auto simp: Let_def slot_present_iff split: option.splits)

lemma slot_key_hash_iff:
  "slot_key_hash rg m b w = Some kh \<longleftrightarrow>
     (\<exists>plen seq. decode_header (slot_hdr rg m b w) = Some (True, fst kh, snd kh, plen, seq))"
  by (cases kh) (auto simp: slot_key_hash_def Let_def split: option.splits prod.splits bool.splits)

lemma slot_matches_key_hash:
  "slot_matches B (slot_hdr rg m b w) key len \<Longrightarrow> slot_key_hash rg m b w = Some (key_hash128 B key)"
  by (auto simp: slot_matches_iff slot_key_hash_iff)

text \<open>The way the local writer picks, as a specification.\<close>

fun oldest_of :: "(nat \<Rightarrow> nat) \<Rightarrow> nat list \<Rightarrow> nat \<Rightarrow> nat option \<Rightarrow> nat" where
  "oldest_of f [] ow os = ow"
| "oldest_of f (w # ws) ow os =
     (if os = None \<or> f w < the os then oldest_of f ws w (Some (f w)) else oldest_of f ws ow os)"

lemma pick_loop_spec:
  "pick_loop rg m b kh ws e ow os =
     (case find (\<lambda>w. slot_key_hash rg m b w = Some kh) ws of
        Some w \<Rightarrow> w
      | None \<Rightarrow> (case e of Some w \<Rightarrow> w
                 | None \<Rightarrow> (case find (\<lambda>w. slot_key_hash rg m b w = None) ws of
                              Some w \<Rightarrow> w
                            | None \<Rightarrow> oldest_of (local_seq rg b) ws ow os)))"
  by (induction ws arbitrary: e ow os) (auto simp: Let_def split: option.splits)

lemma oldest_of_min:
  "os = Some (f ow) \<Longrightarrow> oldest_of f ws ow os \<in> insert ow (set ws) \<and>
     (\<forall>w \<in> insert ow (set ws). f (oldest_of f ws ow os) \<le> f w)"
proof (induction ws arbitrary: ow os)
  case Nil
  then show ?case by simp
next
  case (Cons w ws)
  show ?case
  proof (cases "f w < f ow")
    case True
    then show ?thesis using Cons.IH [of "Some (f w)" w] Cons.prems by (auto dest: order_trans less_imp_le)
  next
    case False
    then show ?thesis using Cons.IH [of "Some (f ow)" ow] Cons.prems by (auto dest: order_trans)
  qed
qed

lemma find_SomeD: "find P xs = Some x \<Longrightarrow> x \<in> set xs \<and> P x"
  by (induction xs) (auto split: if_splits)

lemma find_upt_Some: "find P [0..<n] = Some w \<longleftrightarrow> w < n \<and> P w \<and> (\<forall>w'<w. \<not> P w')"
  by (auto simp: find_Some_iff)

text \<open>
  \<open>picked\<close> states the policy of \<open>pick_way\<close>: the first way that holds the key, else the first
  empty way when no way holds the key, else a way of smallest local \<open>seq\<close>.
\<close>

definition picked :: "slot_region \<Rightarrow> mem \<Rightarrow> nat \<Rightarrow> nat \<times> nat \<Rightarrow> nat \<Rightarrow> bool" where
  "picked rg m b kh w \<longleftrightarrow>
     w < ways (sr_geom rg) \<and>
     (if slot_key_hash rg m b w = Some kh then \<forall>w'<w. slot_key_hash rg m b w' \<noteq> Some kh
      else (\<forall>w'<ways (sr_geom rg). slot_key_hash rg m b w' \<noteq> Some kh) \<and>
        (if slot_key_hash rg m b w = None then \<forall>w'<w. slot_key_hash rg m b w' \<noteq> None
         else (\<forall>w'<ways (sr_geom rg). slot_key_hash rg m b w' \<noteq> None \<and>
                 local_seq rg b w \<le> local_seq rg b w')))"

lemma pick_loop_picked:
  assumes "0 < ways (sr_geom rg)"
  shows "picked rg m b kh (pick_loop rg m b kh [0..<ways (sr_geom rg)] None 0 None)"
proof (cases "find (\<lambda>w. slot_key_hash rg m b w = Some kh) [0..<ways (sr_geom rg)]")
  case (Some w)
  then have "pick_loop rg m b kh [0..<ways (sr_geom rg)] None 0 None = w" by (simp add: pick_loop_spec)
  with Some show ?thesis by (simp add: picked_def find_upt_Some)
next
  case none: None
  then have no: "\<forall>w<ways (sr_geom rg). slot_key_hash rg m b w \<noteq> Some kh" by (auto simp: find_None_iff)
  show ?thesis
  proof (cases "find (\<lambda>w. slot_key_hash rg m b w = None) [0..<ways (sr_geom rg)]")
    case (Some w)
    with none have "pick_loop rg m b kh [0..<ways (sr_geom rg)] None 0 None = w"
      by (simp add: pick_loop_spec)
    with Some no show ?thesis by (simp add: picked_def find_upt_Some)
  next
    case None
    let ?f = "local_seq rg b"
    let ?w = "oldest_of ?f [0..<ways (sr_geom rg)] 0 None"
    have upt: "[0..<ways (sr_geom rg)] = 0 # [1..<ways (sr_geom rg)]"
      using assms by (simp add: upt_conv_Cons)
    have "?w = oldest_of ?f [1..<ways (sr_geom rg)] 0 (Some (?f 0))" unfolding upt by simp
    with oldest_of_min [of "Some (?f 0)" ?f 0 "[1..<ways (sr_geom rg)]"]
    have "?w \<in> set [0..<ways (sr_geom rg)] \<and> (\<forall>w \<in> set [0..<ways (sr_geom rg)]. ?f ?w \<le> ?f w)"
      unfolding upt by simp
    moreover have "pick_loop rg m b kh [0..<ways (sr_geom rg)] None 0 None = ?w"
      using none None by (simp add: pick_loop_spec)
    ultimately show ?thesis
      using None no by (auto simp: picked_def find_None_iff)
  qed
qed

section \<open>Effect of a local write\<close>

lemma even_next_seq [simp]: "even (next_seq s)"
  unfolding next_seq_def and_one_eq by presburger

lemma next_seq_gt: "s < next_seq s"
  by (simp add: next_seq_def)

lemma write_bytes_outside: "x < a \<or> a + length bs \<le> x \<Longrightarrow> write_bytes m a bs x = m x"
  by (auto simp: write_bytes_def)

text \<open>What the three copies of a write leave in memory.\<close>

definition slot_written ::
  "mem \<Rightarrow> nat \<Rightarrow> bytes \<Rightarrow> bytes \<Rightarrow> mem" where
  "slot_written m a hdr data = write_bytes m a (hdr @ data)"

lemma slot_write_bytes:
  assumes "length h1 = 64" and "length h2 = 64" and "disjoint_range a 64 src len"
  shows "write_bytes (memmove (write_bytes m a h1) (a + 64) src len) a h2 =
    slot_written m a h2 (string_at m src len)"
proof
  fix x
  show "write_bytes (memmove (write_bytes m a h1) (a + 64) src len) a h2 x =
      slot_written m a h2 (string_at m src len) x"
    using assms
    by (auto simp: slot_written_def write_bytes_def memmove_def disjoint_range_def nth_append string_at_def)
qed

lemma encode_header_mono:
  assumes "encode_header B key len seq = Inr h" and "seq' \<le> seq"
  shows "\<exists>h'. encode_header B key len seq' = Inr h'"
proof -
  obtain hi lo where kh: "key_hash128 B key = (hi, lo)" by fastforce
  then show ?thesis using assms
    by (auto simp: encode_header_def fmap_result_eq_Inr hdr_pack_Inr)
qed

text \<open>Every branch of \<open>write_local\<close>.\<close>

lemma write_local_cases:
  assumes g: "geom_ok (sr_geom rg)" and b_def: "b = bucket_hash B key mod num_buckets (sr_geom rg)"
  obtains (too_big) "max_payload (sr_geom rg) < len" "write_local B rg m key src len = Inr (rg, m, None)"
  | (raises) "len \<le> max_payload (sr_geom rg)" "write_local B rg m key src len = Inl StructError"
  | (written) w h1 h where "len \<le> max_payload (sr_geom rg)"
      "picked rg m b (key_hash128 B key) w"
      "encode_header B key len (next_seq (local_seq rg b w) + 1) = Inr h1"
      "encode_header B key len (next_seq (local_seq rg b w)) = Inr h"
      "write_local B rg m key src len =
        Inr (rg\<lparr>sr_seq := AList.update (b, w) (next_seq (local_seq rg b w)) (sr_seq rg)\<rparr>,
             write_bytes (memmove (write_bytes m (slot_addr rg b w) h1) (slot_addr rg b w + 64) src len)
               (slot_addr rg b w) h,
             Some (slot_offset (sr_geom rg) b w))"
proof (cases "len \<le> max_payload (sr_geom rg)")
  case False
  then show ?thesis by (intro too_big) (simp_all add: write_local_def)
next
  case True
  let ?w = "pick_loop rg m b (key_hash128 B key) [0..<ways (sr_geom rg)] None 0 None"
  let ?s = "next_seq (local_seq rg b ?w)"
  have pick: "pick_way B rg m key = Inr (b, ?w)"
    by (simp add: pick_way_def bucket_index_ok [OF g] b_def)
  have or1: "?s OR 1 = ?s + 1" using or_one_eq [of ?s] by simp
  show ?thesis
  proof (cases "encode_header B key len (?s + 1)")
    case (Inl e)
    then show ?thesis using True encode_header_Inl [OF Inl] or1
      by (intro raises) (simp_all add: write_local_def pick mark_seq_def Let_def)
  next
    case (Inr h1)
    then obtain h where h: "encode_header B key len ?s = Inr h"
      using encode_header_mono [OF Inr, of ?s] by auto
    show ?thesis
      by (rule written [OF True _ Inr h])
        (use g True Inr h pick or1 in \<open>simp_all add: write_local_def mark_seq_def write_header_def
            Let_def add.assoc pick_loop_picked geom_ok_def\<close>)
  qed
qed

lemma write_local_total:
  assumes g: "geom_ok (sr_geom rg)" and len: "len \<le> max_payload (sr_geom rg)"
    and enc: "\<And>b w. \<exists>h. encode_header B key len (next_seq (local_seq rg b w) OR 1) = Inr h"
  shows "write_local B rg m key src len \<noteq> Inl e"
proof -
  let ?b = "bucket_hash B key mod num_buckets (sr_geom rg)"
  let ?w = "pick_loop rg m ?b (key_hash128 B key) [0..<ways (sr_geom rg)] None 0 None"
  let ?s = "next_seq (local_seq rg ?b ?w)"
  obtain h1 where h1: "encode_header B key len (?s OR 1) = Inr h1" using enc by blast
  moreover have "?s \<le> ?s OR 1" unfolding or_one_eq by simp
  ultimately obtain h where h: "encode_header B key len ?s = Inr h" using encode_header_mono by blast
  have pick: "pick_way B rg m key = Inr (?b, ?w)" by (simp add: pick_way_def bucket_index_ok [OF g])
  have "mark_seq B rg m (slot_offset (sr_geom rg) ?b ?w) (?s OR 1) key len =
      Inr (write_bytes m (slot_addr rg ?b ?w) h1)" unfolding mark_seq_def h1 by simp
  moreover have "write_header B rg m' (slot_offset (sr_geom rg) ?b ?w) key len ?s =
      Inr (write_bytes m' (slot_addr rg ?b ?w) h)" for m' unfolding write_header_def mark_seq_def h by simp
  ultimately show ?thesis using len unfolding write_local_def pick by (simp only: bind_result_simps Let_def prod.case) simp
qed

section \<open>Invariant of a region\<close>

text \<open>
  Every slot is empty or holds a stable page that fits, with the sequence number the owner
  remembers; and no two ways of a bucket hold the same key.
\<close>

definition slot_ok :: "slot_region \<Rightarrow> mem \<Rightarrow> nat \<Rightarrow> nat \<Rightarrow> bool" where
  "slot_ok rg m b w \<longleftrightarrow>
     (case decode_header (slot_hdr rg m b w) of
        Some (True, hi, lo, plen, seq) \<Rightarrow>
          even seq \<and> plen \<le> max_payload (sr_geom rg) \<and> seq = local_seq rg b w
      | _ \<Rightarrow> True)"

definition region_inv :: "slot_region \<Rightarrow> mem \<Rightarrow> bool" where
  "region_inv rg m \<longleftrightarrow>
     geom_ok (sr_geom rg) \<and>
     (\<forall>b<num_buckets (sr_geom rg). \<forall>w<ways (sr_geom rg). slot_ok rg m b w \<and>
        (\<forall>w'<ways (sr_geom rg). slot_key_hash rg m b w \<noteq> None \<longrightarrow>
           slot_key_hash rg m b w = slot_key_hash rg m b w' \<longrightarrow> w = w'))"

text \<open>A region of zeroes holds nothing.\<close>

definition zeroed :: "mem \<Rightarrow> nat \<Rightarrow> nat \<Rightarrow> bool" where
  "zeroed m a n \<longleftrightarrow> string_at m a n = replicate n 0"

lemma zeroed_slot:
  assumes "geom_ok g" and "zeroed m base (capacity g)" and "b < num_buckets g" and "w < ways g"
  shows "string_at m (base + slot_offset g b w) 64 = replicate 64 0"
proof -
  have "slot_offset g b w + 64 \<le> capacity g"
    using slot_in_region [OF assms(1,3,4)] geom_strides(2) [OF assms(1)] by linarith
  then have "string_at m (base + slot_offset g b w) 64 =
      take 64 (drop (slot_offset g b w) (string_at m base (capacity g)))"
    by (simp add: string_at_slice)
  with assms(2) \<open>slot_offset g b w + 64 \<le> capacity g\<close> show ?thesis by (simp add: zeroed_def)
qed

lemma from_le_zero [simp]: "from_le (replicate n 0) = 0"
  by (induction n) simp_all

lemma decode_zero: "decode_header (replicate 64 0) = Some (False, 0, 0, 0, 0)"
  by (simp add: decode_header_def hdr_unpack_def MAGIC_def Let_def)

lemma region_init_inv:
  assumes "geom_ok g" and "zeroed m base (capacity g)"
  shows "region_inv (SlotRegion base g) m"
  using assms zeroed_slot [OF assms]
  by (auto simp: region_inv_def SlotRegion_def slot_ok_def slot_key_hash_def decode_zero Let_def)

lemma slot_hdr_unchanged:
  assumes g: "geom_ok (sr_geom rg)" and ne: "(b', w') \<noteq> (b, w)"
    and w: "w < ways (sr_geom rg)" "w' < ways (sr_geom rg)" and len: "length bs \<le> slot_stride (sr_geom rg)"
    and n: "n \<le> slot_stride (sr_geom rg)"
  shows "string_at (write_bytes m (slot_addr rg b w) bs) (slot_addr rg b' w') n =
    string_at m (slot_addr rg b' w') n"
proof (rule string_at_write_disjoint)
  show "disjoint_range (slot_addr rg b w) (length bs) (slot_addr rg b' w') n"
    using slots_disjoint [OF g w(1) w(2), of b b'] ne len n by (auto simp: disjoint_range_def)
qed

text \<open>The memory outside the slot and the buffer it came from.\<close>

definition outside :: "slot_region \<Rightarrow> nat \<Rightarrow> nat \<Rightarrow> bool" where
  "outside rg a n \<longleftrightarrow> disjoint_range (sr_base rg) (capacity (sr_geom rg)) a n"

lemma outside_slot:
  assumes "geom_ok (sr_geom rg)" and "outside rg a n" and "b < num_buckets (sr_geom rg)" and "w < ways (sr_geom rg)"
    and "k \<le> slot_stride (sr_geom rg)"
  shows "disjoint_range (slot_addr rg b w) k a n"
  using slot_in_region [OF assms(1,3,4)] assms(2,5) by (auto simp: outside_def disjoint_range_def)

lemma write_local_effect:
  assumes inv: "region_inv rg m" and out: "outside rg src len"
    and wr: "write_local B rg m key src len = Inr (rg', m', Some off)"
  obtains b w h where "b = bucket_hash B key mod num_buckets (sr_geom rg)" and "b < num_buckets (sr_geom rg)"
    and "picked rg m b (key_hash128 B key) w" and "off = slot_offset (sr_geom rg) b w"
    and "encode_header B key len (next_seq (local_seq rg b w)) = Inr h"
    and "rg' = rg\<lparr>sr_seq := AList.update (b, w) (next_seq (local_seq rg b w)) (sr_seq rg)\<rparr>"
    and "m' = write_bytes m (slot_addr rg b w) (h @ string_at m src len)"
    and "len \<le> max_payload (sr_geom rg)"
proof -
  have g: "geom_ok (sr_geom rg)" using inv by (simp add: region_inv_def)
  let ?b = "bucket_hash B key mod num_buckets (sr_geom rg)"
  have b: "?b < num_buckets (sr_geom rg)" using g by (simp add: geom_ok_def)
  show thesis
  proof (rule write_local_cases [OF g refl, of len B m key src])
    fix w h1 h
    assume len: "len \<le> max_payload (sr_geom rg)" and pk: "picked rg m ?b (key_hash128 B key) w"
      and h1: "encode_header B key len (next_seq (local_seq rg ?b w) + 1) = Inr h1"
      and h: "encode_header B key len (next_seq (local_seq rg ?b w)) = Inr h"
      and eq: "write_local B rg m key src len =
        Inr (rg\<lparr>sr_seq := AList.update (?b, w) (next_seq (local_seq rg ?b w)) (sr_seq rg)\<rparr>,
             write_bytes (memmove (write_bytes m (slot_addr rg ?b w) h1) (slot_addr rg ?b w + 64) src len)
               (slot_addr rg ?b w) h,
             Some (slot_offset (sr_geom rg) ?b w))"
    have "64 \<le> slot_stride (sr_geom rg)" using geom_strides(2) [OF g] by linarith
    with pk have "disjoint_range (slot_addr rg ?b w) 64 src len"
      by (intro outside_slot [OF g out b]) (simp_all add: picked_def)
    note mem = slot_write_bytes [OF encode_header_Inr(1) [OF h1] encode_header_Inr(1) [OF h] this,
        of m, unfolded slot_written_def]
    note e = trans [OF eq [symmetric] wr, unfolded sum.inject prod.inject option.inject mem]
    show thesis
      by (rule that [OF refl b pk _ h _ _ len]) (use e in \<open>blast intro: sym\<close>)+
  qed (use wr in simp_all)
qed

lemma write_local_headers:
  assumes g: "geom_ok (sr_geom rg)" and w: "w < ways (sr_geom rg)" and w': "w' < ways (sr_geom rg)"
    and h: "encode_header B key len seq = Inr h" and len: "len \<le> max_payload (sr_geom rg)"
    and d: "length d = len"
    and m': "m' = write_bytes m (slot_addr rg b w) (h @ d)"
  shows "slot_hdr rg m' b' w' = (if (b', w') = (b, w) then h else slot_hdr rg m b' w')"
    and "n \<le> max_payload (sr_geom rg) \<Longrightarrow> (b', w') \<noteq> (b, w) \<Longrightarrow>
      string_at m' (slot_addr rg b' w' + 64) n = string_at m (slot_addr rg b' w' + 64) n"
    and "string_at m' (slot_addr rg b w + 64) len = d"
proof -
  have hl: "length h = 64" using encode_header_Inr(1) [OF h] .
  have st: "64 + max_payload (sr_geom rg) \<le> slot_stride (sr_geom rg)" by (rule geom_strides(2) [OF g])
  have fits: "length (h @ d) \<le> slot_stride (sr_geom rg)" using hl d len st by simp
  show "slot_hdr rg m' b' w' = (if (b', w') = (b, w) then h else slot_hdr rg m b' w')"
    using slot_hdr_unchanged [OF g _ w w' fits, of b' b 64 m] hl st
    by (auto simp: m' string_at_write_prefix)
  show "string_at m' (slot_addr rg b' w' + 64) n = string_at m (slot_addr rg b' w' + 64) n"
    if n: "n \<le> max_payload (sr_geom rg)" and ne: "(b', w') \<noteq> (b, w)"
  proof -
    have "string_at m' (slot_addr rg b' w') (64 + n) = string_at m (slot_addr rg b' w') (64 + n)"
      unfolding m' using n st by (intro slot_hdr_unchanged [OF g ne w w' fits]) simp
    then show ?thesis by (simp add: string_at_split)
  qed
  have "string_at m' (slot_addr rg b w) (64 + len) = h @ d"
    unfolding m' using hl d by (metis length_append string_at_write_same)
  then show "string_at m' (slot_addr rg b w + 64) len = d" using hl by (simp add: string_at_split)
qed

lemma slot_key_hash_region_cong:
  "sr_base rg' = sr_base rg \<Longrightarrow> sr_geom rg' = sr_geom rg \<Longrightarrow>
   slot_key_hash rg' m b w = slot_key_hash rg m b w"
  by (simp add: slot_key_hash_def)

lemma write_local_inv:
  assumes inv: "region_inv rg m" and out: "outside rg src len"
    and wr: "write_local B rg m key src len = Inr (rg', m', Some off)"
  shows "region_inv rg' m'"
proof -
  have g: "geom_ok (sr_geom rg)" using inv by (simp add: region_inv_def)
  obtain b w h where b: "b = bucket_hash B key mod num_buckets (sr_geom rg)"
    and pk: "picked rg m b (key_hash128 B key) w"
    and h: "encode_header B key len (next_seq (local_seq rg b w)) = Inr h"
    and rg': "rg' = rg\<lparr>sr_seq := AList.update (b, w) (next_seq (local_seq rg b w)) (sr_seq rg)\<rparr>"
    and m': "m' = write_bytes m (slot_addr rg b w) (h @ string_at m src len)"
    and len: "len \<le> max_payload (sr_geom rg)"
    using inv out wr by (rule write_local_effect)
  have w: "w < ways (sr_geom rg)" using pk by (simp add: picked_def)
  note hdr = write_local_headers(1) [OF g w _ h len length_string_at m']
  have kh: "slot_key_hash rg' m' b' w' =
      (if (b', w') = (b, w) then Some (key_hash128 B key) else slot_key_hash rg m b' w')"
    if "w' < ways (sr_geom rg)" for b' w'
    using hdr [OF that] encode_header_Inr(2) [OF h] by (simp add: slot_key_hash_def rg' Let_def)
  have "slot_ok rg' m' b' w'" if "b' < num_buckets (sr_geom rg)" "w' < ways (sr_geom rg)" for b' w'
  proof (cases "(b', w') = (b, w)")
    case True
    then show ?thesis using hdr [OF that(2)] encode_header_Inr(2) [OF h] len
      by (simp add: slot_ok_def rg' local_seq_def)
  next
    case False
    then have eqs: "slot_hdr rg' m' b' w' = slot_hdr rg m b' w'" "local_seq rg' b' w' = local_seq rg b' w'"
        "max_payload (sr_geom rg') = max_payload (sr_geom rg)"
      using hdr [OF that(2)] by (auto simp: rg' local_seq_def)
    have "slot_ok rg' m' b' w' = slot_ok rg m b' w'" unfolding slot_ok_def eqs by (rule refl)
    then show ?thesis using inv that by (simp add: region_inv_def)
  qed
  moreover have "w1 = w2" if "b' < num_buckets (sr_geom rg)" "w1 < ways (sr_geom rg)" "w2 < ways (sr_geom rg)"
      "slot_key_hash rg' m' b' w1 \<noteq> None" "slot_key_hash rg' m' b' w1 = slot_key_hash rg' m' b' w2" for b' w1 w2
  proof -
    have old: "slot_key_hash rg m b' w1 \<noteq> None \<Longrightarrow> slot_key_hash rg m b' w1 = slot_key_hash rg m b' w2 \<Longrightarrow> w1 = w2"
      using inv that(1-3) by (simp add: region_inv_def)
    have "w3 = w" if "w3 < ways (sr_geom rg)" "slot_key_hash rg m b w3 = Some (key_hash128 B key)"
        "b < num_buckets (sr_geom rg)" for w3
      using pk that inv w unfolding picked_def region_inv_def by (metis option.distinct(1))
    then show ?thesis using old that kh by (metis prod.inject)
  qed
  moreover have geq: "sr_geom rg' = sr_geom rg" by (simp add: rg')
  ultimately show ?thesis using g unfolding region_inv_def geq by blast
qed

text \<open>A lookup by key identity: the payload of the stable slot that carries the key.\<close>

definition slot_lookup :: "digest \<Rightarrow> slot_region \<Rightarrow> mem \<Rightarrow> string \<Rightarrow> bytes option" where
  "slot_lookup B rg m key =
     (let b = bucket_hash B key mod num_buckets (sr_geom rg) in
      case find (\<lambda>w. slot_present B (slot_hdr rg m b w) key \<noteq> None) [0..<ways (sr_geom rg)] of
        None \<Rightarrow> None
      | Some w \<Rightarrow> Some (string_at m (slot_addr rg b w + 64) (the (slot_present B (slot_hdr rg m b w) key))))"

lemma slot_lookup_Some:
  assumes inv: "region_inv rg m"
  shows "slot_lookup B rg m key = Some d \<longleftrightarrow>
    (\<exists>w<ways (sr_geom rg).
       slot_matches B (slot_hdr rg m (bucket_hash B key mod num_buckets (sr_geom rg)) w) key (length d) \<and>
       string_at m (slot_addr rg (bucket_hash B key mod num_buckets (sr_geom rg)) w + 64) (length d) = d)"
    (is "_ \<longleftrightarrow> ?rhs")
proof
  let ?b = "bucket_hash B key mod num_buckets (sr_geom rg)"
  assume "slot_lookup B rg m key = Some d"
  then obtain w where "find (\<lambda>w. slot_present B (slot_hdr rg m ?b w) key \<noteq> None) [0..<ways (sr_geom rg)] = Some w"
    and d: "d = string_at m (slot_addr rg ?b w + 64) (the (slot_present B (slot_hdr rg m ?b w) key))"
    by (auto simp: slot_lookup_def Let_def split: option.splits)
  then obtain n where "w < ways (sr_geom rg)" and n: "slot_present B (slot_hdr rg m ?b w) key = Some n"
    by (auto simp: find_upt_Some)
  moreover have "length d = n" "d = string_at m (slot_addr rg ?b w + 64) n" using d n by simp_all
  ultimately show ?rhs by (auto simp: slot_present_iff)
next
  let ?b = "bucket_hash B key mod num_buckets (sr_geom rg)"
  have b: "?b < num_buckets (sr_geom rg)" using inv by (simp add: region_inv_def geom_ok_def)
  assume ?rhs
  then obtain w where w: "w < ways (sr_geom rg)" and mt: "slot_matches B (slot_hdr rg m ?b w) key (length d)"
    and d: "string_at m (slot_addr rg ?b w + 64) (length d) = d" by blast
  have "slot_present B (slot_hdr rg m ?b w') key = None" if "w' < w" for w'
  proof (rule ccontr)
    assume "slot_present B (slot_hdr rg m ?b w') key \<noteq> None"
    then obtain n where "slot_matches B (slot_hdr rg m ?b w') key n" by (auto simp: slot_present_iff)
    then have "slot_key_hash rg m ?b w' = slot_key_hash rg m ?b w" "slot_key_hash rg m ?b w' \<noteq> None"
      using mt slot_matches_key_hash by (metis, metis option.distinct(1))
    with inv b w that show False unfolding region_inv_def by (metis less_trans less_irrefl)
  qed
  moreover have "slot_present B (slot_hdr rg m ?b w) key = Some (length d)" using mt by (simp add: slot_present_iff)
  ultimately have "find (\<lambda>w. slot_present B (slot_hdr rg m ?b w) key \<noteq> None) [0..<ways (sr_geom rg)] = Some w"
    using w by (simp add: find_upt_Some)
  then show "slot_lookup B rg m key = Some d"
    using d \<open>slot_present B (slot_hdr rg m ?b w) key = Some (length d)\<close> by (simp add: slot_lookup_def Let_def)
qed

lemma read_local_lookup:
  assumes inv: "region_inv rg m"
  shows "read_local B rg m key dst len =
    Inr (case slot_lookup B rg m key of
           Some d \<Rightarrow> if length d = len then (write_bytes m dst d, True) else (m, False)
         | None \<Rightarrow> (m, False))"
proof -
  let ?b = "bucket_hash B key mod num_buckets (sr_geom rg)"
  let ?P = "\<lambda>w. slot_matches B (slot_hdr rg m ?b w) key len"
  have g: "geom_ok (sr_geom rg)" using inv by (simp add: region_inv_def)
  have rd: "read_local B rg m key dst len =
      Inr (case find ?P [0..<ways (sr_geom rg)] of None \<Rightarrow> (m, False)
           | Some w \<Rightarrow> (memmove m dst (slot_addr rg ?b w + 64) len, True))"
    by (simp add: read_local_def bucket_index_ok [OF g] read_loop_find)
  show ?thesis
  proof (cases "find ?P [0..<ways (sr_geom rg)]")
    case None
    then have "\<not> ?P w" if "w < ways (sr_geom rg)" for w using that by (auto simp: find_None_iff)
    then have "length d \<noteq> len" if "slot_lookup B rg m key = Some d" for d
      using that slot_lookup_Some [OF inv] by auto
    then show ?thesis using rd None by (auto split: option.splits)
  next
    case (Some w)
    then have "w < ways (sr_geom rg)" "?P w" by (auto simp: find_upt_Some)
    then have "slot_lookup B rg m key = Some (string_at m (slot_addr rg ?b w + 64) len)"
      using slot_lookup_Some [OF inv, of B key "string_at m (slot_addr rg ?b w + 64) len"] by auto
    then show ?thesis using rd Some by (simp add: memmove_write_bytes)
  qed
qed

lemma exists_local_lookup:
  assumes inv: "region_inv rg m"
  shows "exists_local B rg m key = Inr (map_option length (slot_lookup B rg m key))"
proof -
  let ?b = "bucket_hash B key mod num_buckets (sr_geom rg)"
  have g: "geom_ok (sr_geom rg)" using inv by (simp add: region_inv_def)
  have ex: "exists_local B rg m key = Inr (exists_loop B rg m key ?b [0..<ways (sr_geom rg)])"
    by (simp add: exists_local_def bucket_index_ok [OF g])
  show ?thesis
  proof (cases "exists_loop B rg m key ?b [0..<ways (sr_geom rg)]")
    case None
    then have "slot_present B (slot_hdr rg m ?b w) key = None" if "w < ways (sr_geom rg)" for w
      using that by (simp add: exists_loop_find(1))
    then have "slot_lookup B rg m key = None"
      using slot_lookup_Some [OF inv] slot_present_iff by (metis not_None_eq)
    with ex None show ?thesis by simp
  next
    case (Some n)
    then obtain w where "w < ways (sr_geom rg)" "slot_matches B (slot_hdr rg m ?b w) key n"
      using exists_loop_find(2) [OF Some] by auto
    then have "slot_lookup B rg m key = Some (string_at m (slot_addr rg ?b w + 64) n)"
      using slot_lookup_Some [OF inv, of B key "string_at m (slot_addr rg ?b w + 64) n"] by auto
    with ex Some show ?thesis by simp
  qed
qed

text \<open>A lookup after a write: the written page under its identity, otherwise at most what was there.\<close>

lemma write_local_lookup:
  assumes inv: "region_inv rg m" and out: "outside rg src len"
    and wr: "write_local B rg m key src len = Inr (rg', m', Some off)"
  shows "slot_lookup B rg' m' key = Some (string_at m src len)"
    and "key_hash128 B k \<noteq> key_hash128 B key \<Longrightarrow> slot_lookup B rg' m' k = Some d \<Longrightarrow>
      slot_lookup B rg m k = Some d"
proof -
  have g: "geom_ok (sr_geom rg)" using inv by (simp add: region_inv_def)
  have inv': "region_inv rg' m'" using inv out wr by (rule write_local_inv)
  obtain b w h where b: "b = bucket_hash B key mod num_buckets (sr_geom rg)"
    and pk: "picked rg m b (key_hash128 B key) w"
    and h: "encode_header B key len (next_seq (local_seq rg b w)) = Inr h"
    and rg': "rg' = rg\<lparr>sr_seq := AList.update (b, w) (next_seq (local_seq rg b w)) (sr_seq rg)\<rparr>"
    and m': "m' = write_bytes m (slot_addr rg b w) (h @ string_at m src len)"
    and len: "len \<le> max_payload (sr_geom rg)"
    using inv out wr by (rule write_local_effect)
  have w: "w < ways (sr_geom rg)" using pk by (simp add: picked_def)
  note eff = write_local_headers [OF g w _ h len length_string_at m']
  have geq: "sr_geom rg' = sr_geom rg" "sr_base rg' = sr_base rg" by (simp_all add: rg')
  have "slot_matches B (slot_hdr rg m' b w) key len"
    using eff(1) [OF w] encode_header_Inr(2) [OF h] by (simp add: slot_matches_iff)
  then show "slot_lookup B rg' m' key = Some (string_at m src len)"
    unfolding slot_lookup_Some [OF inv'] geq using w b eff(3) [OF w] by auto
  show "slot_lookup B rg m k = Some d"
    if other: "key_hash128 B k \<noteq> key_hash128 B key" and lk: "slot_lookup B rg' m' k = Some d"
  proof -
    let ?bk = "bucket_hash B k mod num_buckets (sr_geom rg)"
    from lk [unfolded slot_lookup_Some [OF inv'] geq] obtain w' where w': "w' < ways (sr_geom rg)"
      and mt: "slot_matches B (slot_hdr rg m' ?bk w') k (length d)"
      and d: "string_at m' (slot_addr rg ?bk w' + 64) (length d) = d" by blast
    have ne: "(?bk, w') \<noteq> (b, w)"
      using mt other eff(1) [OF w'] encode_header_Inr(2) [OF h] by (auto simp: slot_matches_iff prod_eq_iff)
    have bk: "?bk < num_buckets (sr_geom rg)" using g by (simp add: geom_ok_def)
    have mt': "slot_matches B (slot_hdr rg m ?bk w') k (length d)"
      using mt unfolding eff(1) [OF w', of ?bk] if_not_P [OF ne] .
    moreover have "slot_ok rg m ?bk w'" using inv bk w' by (simp add: region_inv_def)
    ultimately have "length d \<le> max_payload (sr_geom rg)" by (auto simp: slot_ok_def slot_matches_iff)
    then have "string_at m (slot_addr rg ?bk w' + 64) (length d) = d" using d eff(2) [OF w' _ ne] by simp
    with mt' w' show ?thesis by (auto simp: slot_lookup_Some [OF inv])
  qed
qed

lemma region_init_lookup:
  assumes "geom_ok g" and "zeroed m base (capacity g)"
  shows "slot_lookup B (SlotRegion base g) m key = None"
proof (rule ccontr)
  let ?b = "bucket_hash B key mod num_buckets g"
  assume "slot_lookup B (SlotRegion base g) m key \<noteq> None"
  then obtain d where "slot_lookup B (SlotRegion base g) m key = Some d" by auto
  then obtain w where "w < ways g" "slot_matches B (string_at m (base + slot_offset g ?b w) 64) key (length d)"
    unfolding slot_lookup_Some [OF region_init_inv [OF assms]] by (auto simp: SlotRegion_def)
  moreover have "?b < num_buckets g" using assms(1) by (simp add: geom_ok_def)
  ultimately show False using zeroed_slot [OF assms] by (simp add: slot_matches_iff decode_zero)
qed

section \<open>A region as a cache\<close>

text \<open>
  One request of the owner: a key of \<open>K\<close> and a buffer outside the region. A write that raises
  leaves the region as it was.
\<close>

fun slot_put ::
  "digest \<Rightarrow> slot_region \<times> mem \<Rightarrow> string \<times> nat \<times> nat \<Rightarrow> slot_region \<times> mem" where
  "slot_put B (rg, m) (key, src, len) =
     (if outside rg src len then
        (case write_local B rg m key src len of Inr (rg', m', _) \<Rightarrow> (rg', m') | Inl _ \<Rightarrow> (rg, m))
      else (rg, m))"

fun slot_val :: "slot_region \<times> mem \<Rightarrow> string \<times> nat \<times> nat \<Rightarrow> bytes" where
  "slot_val (rg, m) (key, src, len) = string_at m src len"

text \<open>Lookups of the keys of \<open>K\<close>, on which the 128-bit hash is injective.\<close>

definition slot_view :: "digest \<Rightarrow> string set \<Rightarrow> slot_region \<times> mem \<Rightarrow> string \<Rightarrow> bytes option" where
  "slot_view B K s k = (if k \<in> K then slot_lookup B (fst s) (snd s) k else None)"

definition slot_put_in ::
  "digest \<Rightarrow> string set \<Rightarrow> slot_region \<times> mem \<Rightarrow> string \<times> nat \<times> nat \<Rightarrow> slot_region \<times> mem" where
  "slot_put_in B K s r = (if fst r \<in> K then slot_put B s r else s)"

definition slot_inv :: "digest \<Rightarrow> string set \<Rightarrow> slot_region \<times> mem \<Rightarrow> bool" where
  "slot_inv B K s \<longleftrightarrow> region_inv (fst s) (snd s) \<and> inj_on (key_hash128 B) K"

lemma write_local_no_slot:
  "geom_ok (sr_geom rg) \<Longrightarrow> write_local B rg m key src len = Inr (rg', m', None) \<Longrightarrow> rg' = rg \<and> m' = m"
  by (rule write_local_cases [of rg _ B key len m src]) auto

lemma slot_put_cases:
  assumes "region_inv rg m"
  obtains (same) "slot_put B (rg, m) (key, src, len) = (rg, m)"
  | (wrote) rg' m' off where "outside rg src len"
      "write_local B rg m key src len = Inr (rg', m', Some off)"
      "slot_put B (rg, m) (key, src, len) = (rg', m')"
proof -
  have g: "geom_ok (sr_geom rg)" using assms by (simp add: region_inv_def)
  show thesis
  proof (cases "write_local B rg m key src len")
    case (Inl e)
    then show thesis by (intro same) simp
  next
    case (Inr x)
    obtain rg' m' o1 where x: "x = (rg', m', o1)" by (cases x) auto
    show thesis
    proof (cases o1)
      case None
      then show thesis using write_local_no_slot [OF g] Inr x by (intro same) auto
    next
      case (Some off)
      then show thesis using Inr x same wrote by (cases "outside rg src len") auto
    qed
  qed
qed

interpretation slot_cache: cache_contract "slot_inv B K" "slot_view B K" "slot_put_in B K" fst slot_val
  for B K
proof
  fix s :: "slot_region \<times> mem" and r :: "string \<times> nat \<times> nat"
  obtain rg m where s: "s = (rg, m)" by fastforce
  obtain key src len where r: "r = (key, src, len)" by (cases r) auto
  assume inv: "slot_inv B K s"
  then have rinv: "region_inv rg m" and inj: "inj_on (key_hash128 B) K" by (simp_all add: slot_inv_def s)
  show "slot_inv B K (slot_put_in B K s r)"
    by (rule slot_put_cases [OF rinv, of B key src len])
      (use inv rinv write_local_inv in \<open>auto simp: slot_put_in_def slot_inv_def s r simp del: slot_put.simps\<close>)
  fix k v
  assume v: "slot_view B K (slot_put_in B K s r) k = Some v"
  show "slot_view B K s k = Some v \<or> k = fst r \<and> v = slot_val s r"
  proof (rule slot_put_cases [OF rinv, of B key src len])
    assume "slot_put B (rg, m) (key, src, len) = (rg, m)"
    then show ?thesis using v by (simp add: slot_put_in_def s r del: slot_put.simps split: if_splits)
  next
    fix rg' m' off
    assume out: "outside rg src len" and wr: "write_local B rg m key src len = Inr (rg', m', Some off)"
      and put: "slot_put B (rg, m) (key, src, len) = (rg', m')"
    note lk = write_local_lookup [OF rinv out wr]
    show ?thesis
    proof (cases "key \<in> K")
      case False
      then show ?thesis using v by (simp add: slot_put_in_def s r)
    next
      case True
      then have k: "k \<in> K" and v': "slot_lookup B rg' m' k = Some v"
        using v put by (simp_all add: slot_put_in_def slot_view_def s r del: slot_put.simps split: if_splits)
      show ?thesis
      proof (cases "k = key")
        case True
        then show ?thesis using v' lk(1) by (simp add: s r)
      next
        case False
        then have "key_hash128 B k \<noteq> key_hash128 B key" using inj k \<open>key \<in> K\<close> by (auto dest: inj_onD)
        then show ?thesis using lk(2) v' k by (simp add: slot_view_def s)
      qed
    qed
  qed
qed

lemma local_seq_put:
  assumes "region_inv rg m" and "\<forall>b w. local_seq rg b w \<le> 2 * n"
    and "slot_put B (rg, m) r = (rg', m')"
  shows "\<forall>b w. local_seq rg' b w \<le> 2 * Suc n"
proof -
  obtain key src len where r: "r = (key, src, len)" by (cases r) auto
  have next_le: "next_seq (local_seq rg b w) \<le> 2 * Suc n" for b w
    using assms(2) [rule_format, of b w] unfolding next_seq_def and_one_eq by auto
  have old: "local_seq rg b w \<le> 2 * Suc n" for b w using assms(2) [rule_format, of b w] by simp
  show ?thesis
  proof (rule slot_put_cases [OF assms(1), of B key src len])
    assume "slot_put B (rg, m) (key, src, len) = (rg, m)"
    then show ?thesis using assms(2,3) r by (auto simp del: slot_put.simps intro: le_SucI)
  next
    fix rg1 m1 off
    assume out: "outside rg src len" and wr: "write_local B rg m key src len = Inr (rg1, m1, Some off)"
      and put: "slot_put B (rg, m) (key, src, len) = (rg1, m1)"
    obtain b w where "rg1 = rg\<lparr>sr_seq := AList.update (b, w) (next_seq (local_seq rg b w)) (sr_seq rg)\<rparr>"
      using assms(1) out wr by (rule write_local_effect)
    then have "local_seq rg1 b' w' = (if (b', w') = (b, w) then next_seq (local_seq rg b w) else local_seq rg b' w')" for b' w'
      by (simp add: local_seq_def)
    moreover have "rg' = rg1" using assms(3) put r by (simp del: slot_put.simps)
    ultimately show ?thesis using next_le old by (metis (full_types))
  qed
qed

lemma slot_put_geom: "region_inv rg m \<Longrightarrow> slot_put B (rg, m) r = (rg', m') \<Longrightarrow>
   sr_geom rg' = sr_geom rg \<and> sr_base rg' = sr_base rg"
proof -
  assume inv: "region_inv rg m" and put: "slot_put B (rg, m) r = (rg', m')"
  obtain key src len where r: "r = (key, src, len)" by (cases r) auto
  show "sr_geom rg' = sr_geom rg \<and> sr_base rg' = sr_base rg"
    by (rule slot_put_cases [OF inv, of B key src len])
      (use put r in \<open>auto simp del: slot_put.simps elim!: write_local_effect [OF inv]\<close>)
qed

lemma slot_put_inv: "region_inv (fst s) (snd s) \<Longrightarrow> region_inv (fst (slot_put B s r)) (snd (slot_put B s r))"
  using slot_cache.inv_put [of B "{fst r}" s r] by (simp add: slot_inv_def slot_put_in_def)

lemma slot_run:
  assumes "region_inv rg m" and "\<forall>b w. local_seq rg b w \<le> 2 * n"
    and "foldl (slot_put B) (rg, m) rs = (rg', m')"
  shows "region_inv rg' m' \<and> (\<forall>b w. local_seq rg' b w \<le> 2 * (n + length rs)) \<and>
    sr_geom rg' = sr_geom rg \<and> sr_base rg' = sr_base rg"
  using assms
proof (induction rs arbitrary: rg m n)
  case Nil
  then show ?case by simp
next
  case (Cons r rs)
  obtain rg1 m1 where put: "slot_put B (rg, m) r = (rg1, m1)" by fastforce
  have "region_inv rg1 m1" using slot_put_inv [of "(rg, m)" B r] Cons.prems(1) put by simp
  moreover note local_seq_put [OF Cons.prems(1,2) put] slot_put_geom [OF Cons.prems(1) put]
  ultimately show ?case using Cons.IH [of rg1 m1 "Suc n"] Cons.prems(3) put by auto
qed

lemma local_seq_init [simp]: "local_seq (SlotRegion base g) b w = 0"
  by (simp add: local_seq_def SlotRegion_def)

section \<open>Properties\<close>

text \<open>
  C17. The slot header round-trips: a header that \<open>encode_header\<close> builds is 64 bytes, decodes
  to the identity, length and sequence number it was built from, and passes the reader's gate
  for a key exactly when it carries that key's 128-bit hash, the length the reader expects and
  an even sequence number. \<open>encode_header\<close> raises exactly when a field is out of range.
\<close>

theorem slot_header_gate:
  assumes "digest_sized B"
  shows "(case encode_header B key plen seq of
      Inl e \<Rightarrow> e = StructError \<and> (2 ^ 32 \<le> plen \<or> 2 ^ 64 \<le> seq)
    | Inr h \<Rightarrow> plen < 2 ^ 32 \<and> seq < 2 ^ 64 \<and> length h = HEADER_SIZE \<and>
        decode_header h = Some (True, fst (key_hash128 B key), snd (key_hash128 B key), plen, seq) \<and>
        (slot_matches B h k len \<longleftrightarrow> key_hash128 B k = key_hash128 B key \<and> len = plen \<and> even seq) \<and>
        slot_present B h k = (if key_hash128 B k = key_hash128 B key \<and> even seq then Some plen else None))"
proof (cases "encode_header B key plen seq")
  case (Inl e)
  then have "\<not> (plen < 256 ^ 4 \<and> seq < 256 ^ 8)" using encode_header_ok [OF assms, of key plen seq] by auto
  then show ?thesis using Inl encode_header_Inl [OF Inl] by auto
next
  case (Inr h)
  note dec = encode_header_Inr [OF Inr]
  have "plen < 256 ^ 4 \<and> seq < 256 ^ 8" using encode_header_ok [OF assms, of key plen seq] Inr by auto
  then have bounds: "plen < 2 ^ 32" "seq < 2 ^ 64" by simp_all
  have matches: "slot_matches B h k n \<longleftrightarrow> key_hash128 B k = key_hash128 B key \<and> n = plen \<and> even seq" for n
    using dec(2) by (auto simp: slot_matches_iff prod_eq_iff)
  have "slot_present B h k = (if key_hash128 B k = key_hash128 B key \<and> even seq then Some plen else None)"
    using matches slot_present_iff [of B h k] by (cases "slot_present B h k") auto
  then show ?thesis using Inr dec bounds matches by simp
qed

theorem slot_header_gate_witness:
  "\<exists>h. encode_header (\<lambda>n salt d. replicate n 7) ''k'' 5 2 = Inr h \<and>
     slot_matches (\<lambda>n salt d. replicate n 7) h ''k'' 5"
proof -
  have "digest_sized (\<lambda>n salt d. replicate n 7)" by (simp add: digest_sized_def)
  from slot_header_gate [OF this, where key = "''k''" and plen = 5 and seq = 2 and k = "''k''" and len = 5] show ?thesis
    by (auto split: sum.splits)
qed

text \<open>
  C18. The slots of a region do not overlap, lie inside its capacity, and each has room for the
  header and the largest payload; the bucket of every key is a bucket of the region.
\<close>

theorem slot_geometry_sound:
  assumes g: "g = SlotGeometry mp nb ws" and "b < nb" and "w < ws" and "b' < nb" and "w' < ws"
  shows "(slot_offset g b w = slot_offset g b' w' \<longleftrightarrow> (b, w) = (b', w')) \<and>
    ((b, w) \<noteq> (b', w') \<longrightarrow>
       disjoint_range (slot_offset g b w) (slot_stride g) (slot_offset g b' w') (slot_stride g)) \<and>
    slot_offset g b w + slot_stride g \<le> capacity g \<and> HEADER_SIZE + mp \<le> slot_stride g \<and>
    slot_offset g b w mod 64 = 0 \<and> (\<exists>i<nb. bucket_index B g key = Inr i)"
proof -
  have ok: "geom_ok g" and sel: "max_payload g = mp" "num_buckets g = nb" "ways g = ws"
    using assms by (auto simp: geom_ok_def SlotGeometry_def)
  have room: "HEADER_SIZE + mp \<le> slot_stride g" using geom_strides(2) [OF ok] sel by simp
  have disj: "(b, w) \<noteq> (b', w') \<Longrightarrow>
      disjoint_range (slot_offset g b w) (slot_stride g) (slot_offset g b' w') (slot_stride g)"
    using slots_disjoint [OF ok, of w w' b b'] assms sel by simp
  moreover have "slot_offset g b w mod 64 = 0"
    using geom_strides(3) [OF ok] by (simp add: slot_offset_linear [OF ok] mod_eq_0_iff_dvd)
  moreover have "bucket_hash B key mod nb < nb" using assms by simp
  then have "\<exists>i<nb. bucket_index B g key = Inr i" using bucket_index_ok [OF ok] sel by simp
  moreover have "slot_offset g b w = slot_offset g b' w' \<Longrightarrow> (b, w) = (b', w')"
    using disj room by (auto simp: disjoint_range_def)
  ultimately show ?thesis using slot_in_region [OF ok] room sel assms by auto
qed

theorem slot_geometry_sound_witness:
  "disjoint_range (slot_offset (SlotGeometry 100 4 2) 1 1) 192 (slot_offset (SlotGeometry 100 4 2) 2 0) 192"
  using slot_geometry_sound [of "SlotGeometry 100 4 2" 100 4 2 1 1 2 0]
  by (simp add: SlotGeometry_def align64_def)

text \<open>
  C10. Write then read: in a region that started zeroed and has seen any run of own-key writes,
  a page that fits is always stored (no exception, some slot), a read of its key then copies
  back exactly the written bytes, and the existence probe reports its length.
\<close>

theorem slot_write_then_read:
  assumes B: "digest_sized B" and g: "g = SlotGeometry mp nb ws" "0 < nb" "0 < ws" "mp < 2 ^ 32"
    and z: "zeroed m base (capacity g)"
    and run: "foldl (slot_put B) (SlotRegion base g, m) rs = (rg, m1)" "length rs < 2 ^ 60"
    and fits: "len \<le> mp" and out: "outside rg src len"
  shows "\<exists>rg' m' off. write_local B rg m1 key src len = Inr (rg', m', Some off) \<and>
    read_local B rg' m' key dst len = Inr (write_bytes m' dst (string_at m1 src len), True) \<and>
    exists_local B rg' m' key = Inr (Some len)"
proof -
  have ok: "geom_ok g" and mp: "max_payload g = mp" using g by (auto simp: geom_ok_def SlotGeometry_def)
  have gi: "sr_geom (SlotRegion base g) = g" by (simp add: SlotRegion_def)
  note st = slot_run [OF region_init_inv [OF ok z] _ run(1), of 0]
  have inv: "region_inv rg m1" and sq: "\<And>b w. local_seq rg b w \<le> 2 * length rs" and geq: "sr_geom rg = g"
    using st by (simp_all add: gi)
  have ok': "geom_ok (sr_geom rg)" using ok geq by simp
  obtain rg' m' off where wr: "write_local B rg m1 key src len = Inr (rg', m', Some off)"
  proof (rule write_local_cases [OF ok' refl, of len B m1 key src])
    assume "write_local B rg m1 key src len = Inl StructError"
    moreover have "\<exists>h. encode_header B key len (next_seq (local_seq rg b w) OR 1) = Inr h" for b w
      unfolding encode_header_ok [OF B] or_one_eq using sq [of b w] run(2) fits g(4)
      by (auto simp: next_seq_def)
    ultimately have False
      using write_local_total [OF ok', of len B key m1 src] fits mp geq by auto
    then show thesis ..
  qed (use fits mp geq that in simp_all)
  note lk = write_local_lookup(1) [OF inv out wr] and inv' = write_local_inv [OF inv out wr]
  show ?thesis using wr lk by (auto simp: read_local_lookup [OF inv'] exists_local_lookup [OF inv'])
qed

theorem slot_write_then_read_witness:
  "\<exists>rg' m' off.
     write_local (\<lambda>n salt d. replicate n 7) (SlotRegion 0 (SlotGeometry 10 2 2)) (\<lambda>_. 0) ''k'' 1000 3 =
       Inr (rg', m', Some off) \<and>
     exists_local (\<lambda>n salt d. replicate n 7) rg' m' ''k'' = Inr (Some 3)"
proof -
  have "zeroed (\<lambda>_. 0) 0 n" for n by (simp add: zeroed_def string_at_def map_replicate_const)
  moreover have "digest_sized (\<lambda>n salt d. replicate n 7)" by (simp add: digest_sized_def)
  moreover have "outside (SlotRegion 0 (SlotGeometry 10 2 2)) 1000 3"
    by (simp add: outside_def SlotRegion_def SlotGeometry_def capacity_def align64_def disjoint_range_def)
  ultimately show ?thesis
    using slot_write_then_read [where rs = "[]" and B = "\<lambda>n salt d. replicate n 7" and g = "SlotGeometry 10 2 2"
        and mp = 10 and nb = 2 and ws = 2 and m = "\<lambda>_. 0" and base = 0 and len = 3 and src = 1000
        and key = "''k''" and dst = 2000]
    by fastforce
qed

text \<open>
  C11. Never another key's page: after any run of own-key writes over a set of keys whose 128-bit
  hashes are distinct, a validated read of a key returns exactly the bytes that an earlier write
  of that same key, with that length, copied in.
\<close>

theorem slot_never_mixes_keys:
  assumes inj: "inj_on (key_hash128 B) K" and g: "g = SlotGeometry mp nb ws" "0 < nb" "0 < ws"
    and z: "zeroed m base (capacity g)"
    and run: "foldl (slot_put B) (SlotRegion base g, m) rs = (rg, m1)" and keys: "fst ` set rs \<subseteq> K"
    and key: "key \<in> K" and hit: "read_local B rg m1 key dst len = Inr (m2, True)"
  shows "\<exists>xs src ys. rs = xs @ (key, src, len) # ys \<and>
    string_at m2 dst len = string_at (snd (foldl (slot_put B) (SlotRegion base g, m) xs)) src len"
proof -
  let ?s = "(SlotRegion base g, m)"
  have ok: "geom_ok g" using g by (auto simp: geom_ok_def SlotGeometry_def)
  have put: "foldl (slot_put_in B K) s xs = foldl (slot_put B) s xs" if "fst ` set xs \<subseteq> K" for s xs
    using that by (induction xs arbitrary: s) (auto simp: slot_put_in_def)
  have inv0: "slot_inv B K ?s" using region_init_inv [OF ok z] inj by (simp add: slot_inv_def)
  then have "slot_inv B K (rg, m1)" using slot_cache.run_inv [OF inv0, of rs] put [OF keys] run by simp
  then have inv: "region_inv rg m1" by (simp add: slot_inv_def)
  obtain d where d: "slot_lookup B rg m1 key = Some d" "length d = len" "m2 = write_bytes m1 dst d"
    using hit by (auto simp: read_local_lookup [OF inv] split: option.splits if_splits)
  have init: "slot_view B K ?s key = None" using region_init_lookup [OF ok z] by (simp add: slot_view_def)
  have "slot_view B K (foldl (slot_put_in B K) ?s rs) key = Some d"
    using d key run put [OF keys] by (simp add: slot_view_def)
  with slot_cache.run_sound [OF inv0] init obtain xs r ys where
    rs: "rs = xs @ r # ys" "fst r = key" "d = slot_val (foldl (slot_put_in B K) ?s xs) r" by force
  obtain src n where r: "r = (key, src, n)" using rs(2) by (cases r) auto
  have xs: "foldl (slot_put_in B K) ?s xs = foldl (slot_put B) ?s xs" using keys rs(1) by (intro put) auto
  have dv: "d = string_at (snd (foldl (slot_put B) ?s xs)) src n"
    using rs(3) unfolding xs r by (cases "foldl (slot_put B) ?s xs") simp
  then have "n = len" using d(2) by simp
  with rs(1) r dv d(2,3) show ?thesis
    by (intro exI [of _ xs] exI [of _ src] exI [of _ ys]) (simp add: string_at_write_prefix)
qed

lemma toy_slot_region:
  "zeroed (\<lambda>_. 0) 0 n" "digest_sized (\<lambda>n salt d. replicate n 7)"
  "outside (SlotRegion 0 (SlotGeometry 10 2 2)) 1000 3"
  by (simp_all add: zeroed_def string_at_def map_replicate_const digest_sized_def outside_def
      SlotRegion_def SlotGeometry_def capacity_def align64_def disjoint_range_def)

lemma toy_slot_hit:
  "\<exists>rg m m2. foldl (slot_put (\<lambda>n salt d. replicate n 7)) (SlotRegion 0 (SlotGeometry 10 2 2), \<lambda>_. 0)
       [(''k'', 1000, 3)] = (rg, m) \<and>
     read_local (\<lambda>n salt d. replicate n 7) rg m ''k'' 2000 3 = Inr (m2, True)"
proof -
  let ?B = "\<lambda>n salt d. replicate n 7" and ?rg = "SlotRegion 0 (SlotGeometry 10 2 2)" and ?m = "\<lambda>_. 0 :: byte"
  have ok: "geom_ok (SlotGeometry 10 2 2)" by (simp add: geom_ok_def SlotGeometry_def)
  have geom: "sr_geom ?rg = SlotGeometry 10 2 2" by (simp add: SlotRegion_def)
  have mp: "max_payload (SlotGeometry 10 2 2) = 10" by (simp add: SlotGeometry_def)
  have ok': "geom_ok (sr_geom ?rg)" unfolding geom by (rule ok)
  have inv: "region_inv ?rg ?m" using region_init_inv [OF ok toy_slot_region(1)] .
  have total: "write_local ?B ?rg ?m ''k'' 1000 3 \<noteq> Inl e" for e
    by (rule write_local_total, unfold geom encode_header_ok [OF toy_slot_region(2)] or_one_eq)
      (simp_all add: ok mp next_seq_def)
  obtain rg m off where wr: "write_local ?B ?rg ?m ''k'' 1000 3 = Inr (rg, m, Some off)"
  proof (rule write_local_cases [OF ok' refl, of 3 ?B ?m "''k''" 1000])
    assume "max_payload (sr_geom ?rg) < 3"
    then show thesis unfolding geom mp by simp
  qed (blast intro: total [THEN notE] that)+
  note inv' = write_local_inv [OF inv toy_slot_region(3) wr]
  have "foldl (slot_put ?B) (?rg, ?m) [(''k'', 1000, 3)] = (rg, m)"
    using wr toy_slot_region(3) by (simp only: foldl.simps slot_put.simps if_True sum.case prod.case)
  moreover have "read_local ?B rg m ''k'' 2000 3 = Inr (write_bytes m 2000 (string_at ?m 1000 3), True)"
    unfolding read_local_lookup [OF inv'] write_local_lookup(1) [OF inv toy_slot_region(3) wr] by simp
  ultimately show ?thesis by blast
qed

theorem slot_never_mixes_keys_witness:
  "\<exists>rg m m2. read_local (\<lambda>n salt d. replicate n 7) rg m ''k'' 2000 3 = Inr (m2, True) \<and>
     (\<exists>xs src ys. [(''k'', 1000::nat, 3::nat)] = xs @ (''k'', src, 3) # ys \<and>
        string_at m2 2000 3 = string_at (snd (foldl (slot_put (\<lambda>n salt d. replicate n 7))
          (SlotRegion 0 (SlotGeometry 10 2 2), \<lambda>_. 0) xs)) src 3)"
proof -
  obtain rg m m2 where run: "foldl (slot_put (\<lambda>n salt d. replicate n 7))
      (SlotRegion 0 (SlotGeometry 10 2 2), \<lambda>_. 0) [(''k'', 1000, 3)] = (rg, m)"
    and hit: "read_local (\<lambda>n salt d. replicate n 7) rg m ''k'' 2000 3 = Inr (m2, True)"
    using toy_slot_hit by blast
  have "inj_on (key_hash128 (\<lambda>n salt d. replicate n 7)) {''k''}" by simp
  from slot_never_mixes_keys [OF this refl _ _ toy_slot_region(1) run _ _ hit] hit show ?thesis
    by (intro exI [of _ rg] exI [of _ m] exI [of _ m2] conjI) simp_all
qed

text \<open>
  The loop of \<open>pick_way_from_bucket\<close> after the ways below \<open>n\<close>, for a snapshot that reads as
  \<open>kf w\<close> (the identity in a valid way) and \<open>sf w\<close> (its sequence number, 0 in an invalid way).
\<close>

definition snap_key :: "bytes \<Rightarrow> slot_geometry \<Rightarrow> nat \<Rightarrow> (nat \<times> nat) option" where
  "snap_key bb g w =
     (case decode_header (take HEADER_SIZE (drop (w * slot_stride g) bb)) of
        Some (True, hi, lo, plen, seq) \<Rightarrow> Some (hi, lo) | _ \<Rightarrow> None)"

definition snap_seq :: "bytes \<Rightarrow> slot_geometry \<Rightarrow> nat \<Rightarrow> nat" where
  "snap_seq bb g w =
     (case decode_header (take HEADER_SIZE (drop (w * slot_stride g) bb)) of
        Some (True, hi, lo, plen, seq) \<Rightarrow> seq | _ \<Rightarrow> 0)"

lemma way_step_snap:
  "way_step bb g kh (e, ow, os, ch) w =
     (if snap_key bb g w = None \<and> e = None then Some w else e,
      if os = None \<or> snap_seq bb g w < the os then w else ow,
      if os = None \<or> snap_seq bb g w < the os then Some (snap_seq bb g w) else os,
      if snap_key bb g w = Some kh then Some w else ch)"
proof (cases "decode_header (take HEADER_SIZE (drop (w * slot_stride g) bb))")
  case None
  then show ?thesis by (simp add: way_step_def snap_key_def snap_seq_def Let_def)
next
  case (Some t)
  obtain ok hi lo plen seq where "t = (ok, hi, lo, plen, seq)" by (cases t) auto
  with Some show ?thesis by (cases ok) (simp_all add: way_step_def snap_key_def snap_seq_def Let_def)
qed

definition ways_scanned :: "bytes \<Rightarrow> slot_geometry \<Rightarrow> nat \<times> nat \<Rightarrow> nat \<Rightarrow> way_state \<Rightarrow> bool" where
  "ways_scanned bb g kh n st \<longleftrightarrow>
     (case st of (e, ow, os, ch) \<Rightarrow>
        e = find (\<lambda>w. snap_key bb g w = None) [0..<n] \<and>
        (case ch of None \<Rightarrow> \<forall>w<n. snap_key bb g w \<noteq> Some kh | Some w \<Rightarrow> w < n \<and> snap_key bb g w = Some kh) \<and>
        (if n = 0 then os = None
         else ow < n \<and> os = Some (snap_seq bb g ow) \<and> (\<forall>w<n. snap_seq bb g ow \<le> snap_seq bb g w)))"

lemma find_append: "find P (xs @ ys) = (case find P xs of None \<Rightarrow> find P ys | Some x \<Rightarrow> Some x)"
  by (induction xs) simp_all

lemma ways_scanned_fold:
  "ways_scanned bb g kh n (foldl (way_step bb g kh) (None, 0, None, None) [0..<n])"
proof (induction n)
  case 0
  then show ?case by (simp add: ways_scanned_def)
next
  case (Suc n)
  obtain e ow os ch where st: "foldl (way_step bb g kh) (None, 0, None, None) [0..<n] = (e, ow, os, ch)"
    by (metis prod_cases4)
  have IH: "ways_scanned bb g kh n (e, ow, os, ch)" using Suc.IH unfolding st .
  have step: "foldl (way_step bb g kh) (None, 0, None, None) [0..<Suc n] = way_step bb g kh (e, ow, os, ch) n"
    using st by simp
  let ?lt = "os = None \<or> snap_seq bb g n < the os"
  have "(if snap_key bb g n = None \<and> e = None then Some n else e) =
      find (\<lambda>w. snap_key bb g w = None) [0..<Suc n]"
    using IH by (simp add: ways_scanned_def find_append split: option.splits)
  moreover have "case if snap_key bb g n = Some kh then Some n else ch of
        None \<Rightarrow> \<forall>w<Suc n. snap_key bb g w \<noteq> Some kh
      | Some w \<Rightarrow> w < Suc n \<and> snap_key bb g w = Some kh"
    using IH by (simp add: ways_scanned_def less_Suc_eq split: option.splits)
  moreover have "(if ?lt then n else ow) < Suc n \<and>
      (if ?lt then Some (snap_seq bb g n) else os) = Some (snap_seq bb g (if ?lt then n else ow)) \<and>
      (\<forall>w<Suc n. snap_seq bb g (if ?lt then n else ow) \<le> snap_seq bb g w)"
  proof (cases "n = 0")
    case True
    then show ?thesis using IH by (simp add: ways_scanned_def)
  next
    case False
    then have "ow < n" "os = Some (snap_seq bb g ow)" "\<forall>w<n. snap_seq bb g ow \<le> snap_seq bb g w"
      using IH by (simp_all add: ways_scanned_def)
    then show ?thesis by (auto simp: less_Suc_eq dest: order.strict_implies_order order_trans)
  qed
  ultimately show ?case unfolding step way_step_snap ways_scanned_def by simp
qed

lemma and_not_one: "nat (int n AND NOT 1) = 2 * (n div 2)"
  by (subst and_rec) (simp add: nat_mult_distrib nat_div_distrib)

text \<open>
  The way a remote writer chooses from a bucket snapshot: a way that already holds the
  key if there is one, else the first invalid way, else a way of smallest sequence number. The
  stamped sequence number is even, and larger than that of the replaced page whenever the key
  was not in the bucket.
\<close>

theorem pick_way_policy:
  assumes "0 < ways g" and pick: "pick_way_from_bucket B bb g key = (w, s)"
  shows "w < ways g \<and> even s \<and> 2 \<le> s \<and>
    (if \<exists>v<ways g. snap_key bb g v = Some (key_hash128 B key)
     then snap_key bb g w = Some (key_hash128 B key)
     else snap_seq bb g w < s \<and>
       (if \<exists>v<ways g. snap_key bb g v = None
        then snap_key bb g w = None \<and> (\<forall>v<w. snap_key bb g v \<noteq> None)
        else \<forall>v<ways g. snap_seq bb g w \<le> snap_seq bb g v))"
proof -
  obtain e ow os ch where st:
    "foldl (way_step bb g (key_hash128 B key)) (None, 0, None, None) [0..<ways g] = (e, ow, os, ch)"
    by (metis prod_cases4)
  have sc: "ways_scanned bb g (key_hash128 B key) (ways g) (e, ow, os, ch)"
    using ways_scanned_fold [of bb g "key_hash128 B key" "ways g"] unfolding st .
  have old: "ow < ways g" "os = Some (snap_seq bb g ow)" "\<forall>v<ways g. snap_seq bb g ow \<le> snap_seq bb g v"
    using sc assms(1) by (simp_all add: ways_scanned_def)
  have w: "w = (case ch of Some w \<Rightarrow> w | None \<Rightarrow> (case e of Some w \<Rightarrow> w | None \<Rightarrow> ow))"
    and s: "s = 2 * ((snap_seq bb g ow + 2) div 2)"
    using pick unfolding pick_way_from_bucket_def and_not_one st Let_def prod.case old(2) by auto
  have gt: "snap_seq bb g ow < s" "even s" "2 \<le> s" unfolding s by (presburger, simp, simp)
  have e: "e = find (\<lambda>w. snap_key bb g w = None) [0..<ways g]" using sc by (simp add: ways_scanned_def)
  show ?thesis
  proof (cases ch)
    case (Some c)
    with sc w have "w < ways g" "snap_key bb g w = Some (key_hash128 B key)" by (simp_all add: ways_scanned_def)
    with gt show ?thesis by auto
  next
    case None
    then have no: "\<forall>v<ways g. snap_key bb g v \<noteq> Some (key_hash128 B key)" using sc by (simp add: ways_scanned_def)
    show ?thesis
    proof (cases e)
      case (Some c)
      have "w = c" using w None Some by simp
      moreover have "c < ways g" "snap_key bb g c = None" "\<forall>v<c. snap_key bb g v \<noteq> None"
        using Some [unfolded e find_upt_Some] by auto
      ultimately have c: "w = c" "c < ways g" "snap_key bb g c = None" "\<forall>v<c. snap_key bb g v \<noteq> None" .
      then have "snap_seq bb g c = 0"
        by (auto simp: snap_key_def snap_seq_def split: option.splits prod.splits bool.splits)
      with c no gt show ?thesis by auto
    next
      case e0: None
      then have "\<forall>v<ways g. snap_key bb g v \<noteq> None" using e by (auto simp: find_None_iff)
      with w None e0 no old gt show ?thesis by auto
    qed
  qed
qed

lemma toy_snapshot:
  assumes "encode_header B key 0 8 = Inr h"
  shows "snap_key (h @ replicate 64 0) (SlotGeometry 0 1 2) 0 = Some (key_hash128 B key)"
    and "snap_seq (h @ replicate 64 0) (SlotGeometry 0 1 2) 0 = 8"
    and "snap_key (h @ replicate 64 0) (SlotGeometry 0 1 2) 1 = None"
    and "snap_seq (h @ replicate 64 0) (SlotGeometry 0 1 2) 1 = 0"
  using encode_header_Inr [OF assms]
  by (simp_all add: snap_key_def snap_seq_def SlotGeometry_def align64_def decode_zero)

theorem pick_way_policy_witness:
  "\<exists>w s. pick_way_from_bucket (\<lambda>n salt d. replicate n 7) (replicate 128 0) (SlotGeometry 0 1 2) ''k'' = (w, s) \<and>
     w < 2 \<and> even s"
proof -
  obtain w s where
    "pick_way_from_bucket (\<lambda>n salt d. replicate n 7) (replicate 128 0) (SlotGeometry 0 1 2) ''k'' = (w, s)"
    by fastforce
  with pick_way_policy [OF _ this] show ?thesis by (simp add: SlotGeometry_def)
qed

text \<open>
  A refresh may stamp a smaller sequence number than the page it overwrites: \<open>new_seq\<close> is
  computed from the smallest sequence number of the bucket, not from that of the chosen way.
  Here the key sits in way 0 with sequence number 8 beside an empty way, and 2 is stamped.
\<close>

lemma refresh_seq_goes_back:
  assumes B: "digest_sized B"
  shows "\<exists>bb. snap_key bb (SlotGeometry 0 1 2) 0 = Some (key_hash128 B key) \<and>
    snap_seq bb (SlotGeometry 0 1 2) 0 = 8 \<and>
    pick_way_from_bucket B bb (SlotGeometry 0 1 2) key = (0, 2)"
proof -
  obtain h where h: "encode_header B key 0 8 = Inr h" using encode_header_ok [OF B, of key 0 8] by auto
  let ?bb = "h @ replicate 64 0" and ?g = "SlotGeometry 0 1 2"
  note snap = toy_snapshot [OF h]
  have "[0..<ways ?g] = [0, 1]" by (simp add: SlotGeometry_def upt_rec)
  then have "foldl (way_step ?bb ?g (key_hash128 B key)) (None, 0, None, None) [0..<ways ?g] =
      (Some 1, 1, Some 0, Some 0)"
    using snap by (simp add: way_step_snap)
  then have "pick_way_from_bucket B ?bb ?g key = (0, 2)"
    unfolding pick_way_from_bucket_def and_not_one by simp
  with snap show ?thesis by blast
qed

end
