(* ===== verification/Seqlock.thy ===== *)
theory Seqlock
  imports Slotmap
begin

unbundle bit_operations_syntax

text \<open>
  The owner's writer threads on one region, interleaved (\<open>SlotRegion.write_local\<close> and
  \<open>read_local\<close> of \<^verbatim>\<open>python/peercache/slotmap.py\<close>, lines 257--291).

  A thread picks a way under the lock, releases it, and takes it again for the write; the write
  marks the header odd, copies the payload byte by byte, and writes the even header. Headers are
  written in one step. Any thread may do anything to memory outside the region at any time. What
  a one-sided reader sees is a snapshot of memory between two steps.
\<close>

datatype writer =
    Idle
  | Picked string nat nat nat nat
    \<comment> \<open>key, source, length, bucket, way: after \<open>pick_way\<close>, the lock released\<close>
  | Copying string nat nat nat nat nat bytes
    \<comment> \<open>and the new sequence number and the bytes copied so far: the lock is held\<close>

record seq_state =
  sq_region :: slot_region
  sq_mem :: mem
  sq_threads :: "nat \<Rightarrow> writer"
  sq_log :: "(string \<times> bytes) list"
    \<comment> \<open>the completed writes, newest first (what the theorems speak about; no code reads it)\<close>

definition locked :: "seq_state \<Rightarrow> bool" where
  "locked s \<longleftrightarrow> (\<exists>t k src n b w q d. sq_threads s t = Copying k src n b w q d)"

definition in_region :: "slot_region \<Rightarrow> nat \<Rightarrow> bool" where
  "in_region rg x \<longleftrightarrow> sr_base rg \<le> x \<and> x < sr_base rg + capacity (sr_geom rg)"

inductive seq_step :: "digest \<Rightarrow> seq_state \<Rightarrow> seq_state \<Rightarrow> bool" for B where
  pick: "sq_threads s t = Idle \<Longrightarrow> \<not> locked s \<Longrightarrow> n \<le> max_payload (sr_geom (sq_region s)) \<Longrightarrow>
    pick_way B (sq_region s) (sq_mem s) key = Inr (b, w) \<Longrightarrow>
    seq_step B s (s\<lparr>sq_threads := (sq_threads s)(t := Picked key src n b w)\<rparr>)"
| mark: "sq_threads s t = Picked key src n b w \<Longrightarrow> \<not> locked s \<Longrightarrow>
    q = next_seq (local_seq (sq_region s) b w) \<Longrightarrow>
    mark_seq B (sq_region s) (sq_mem s) (slot_offset (sr_geom (sq_region s)) b w) (q OR 1) key n = Inr m' \<Longrightarrow>
    seq_step B s (s\<lparr>sq_mem := m', sq_threads := (sq_threads s)(t := Copying key src n b w q [])\<rparr>)"
| copy: "sq_threads s t = Copying key src n b w q d \<Longrightarrow> length d < n \<Longrightarrow>
    c = sq_mem s (src + length d) \<Longrightarrow>
    seq_step B s (s\<lparr>sq_mem := write_bytes (sq_mem s) (slot_addr (sq_region s) b w + 64 + length d) [c],
                    sq_threads := (sq_threads s)(t := Copying key src n b w q (d @ [c]))\<rparr>)"
| finish: "sq_threads s t = Copying key src n b w q d \<Longrightarrow> length d = n \<Longrightarrow>
    write_header B (sq_region s) (sq_mem s) (slot_offset (sr_geom (sq_region s)) b w) key n q = Inr m' \<Longrightarrow>
    seq_step B s (s\<lparr>sq_mem := m', sq_threads := (sq_threads s)(t := Idle),
                    sq_region := (sq_region s)\<lparr>sr_seq := AList.update (b, w) q (sr_seq (sq_region s))\<rparr>,
                    sq_log := (key, d) # sq_log s\<rparr>)"
| env: "(\<And>x. in_region (sq_region s) x \<Longrightarrow> m' x = sq_mem s x) \<Longrightarrow>
    seq_step B s (s\<lparr>sq_mem := m'\<rparr>)"

definition seq_init :: "nat \<Rightarrow> slot_geometry \<Rightarrow> mem \<Rightarrow> seq_state" where
  "seq_init base g m =
     \<lparr>sq_region = SlotRegion base g, sq_mem = m, sq_threads = (\<lambda>_. Idle), sq_log = []\<rparr>"

section \<open>Invariant\<close>

text \<open>
  A slot that no thread is writing is not stable or holds exactly a completed write; a slot that
  a thread is writing carries an odd header and the bytes copied so far.
\<close>

definition slot_completed :: "digest \<Rightarrow> seq_state \<Rightarrow> nat \<Rightarrow> nat \<Rightarrow> bool" where
  "slot_completed B s b w \<longleftrightarrow>
     (\<forall>hi lo plen seq.
        decode_header (slot_hdr (sq_region s) (sq_mem s) b w) = Some (True, hi, lo, plen, seq) \<and> even seq \<longrightarrow>
        plen \<le> max_payload (sr_geom (sq_region s)) \<and>
        (\<exists>k. (k, string_at (sq_mem s) (slot_addr (sq_region s) b w + 64) plen) \<in> set (sq_log s) \<and>
           key_hash128 B k = (hi, lo)))"

definition thread_ok :: "digest \<Rightarrow> seq_state \<Rightarrow> writer \<Rightarrow> bool" where
  "thread_ok B s p \<longleftrightarrow>
     (case p of
        Idle \<Rightarrow> True
      | Picked key src n b w \<Rightarrow>
          n \<le> max_payload (sr_geom (sq_region s)) \<and>
          b < num_buckets (sr_geom (sq_region s)) \<and> w < ways (sr_geom (sq_region s))
      | Copying key src n b w q d \<Rightarrow>
          n \<le> max_payload (sr_geom (sq_region s)) \<and>
          b < num_buckets (sr_geom (sq_region s)) \<and> w < ways (sr_geom (sq_region s)) \<and>
          length d \<le> n \<and> even q \<and>
          encode_header B key n (q OR 1) = Inr (slot_hdr (sq_region s) (sq_mem s) b w) \<and>
          string_at (sq_mem s) (slot_addr (sq_region s) b w + 64) (length d) = d)"

definition writing :: "seq_state \<Rightarrow> nat \<Rightarrow> nat \<Rightarrow> bool" where
  "writing s b w \<longleftrightarrow> (\<exists>t k src n q d. sq_threads s t = Copying k src n b w q d)"

definition seq_inv :: "digest \<Rightarrow> seq_state \<Rightarrow> bool" where
  "seq_inv B s \<longleftrightarrow>
     geom_ok (sr_geom (sq_region s)) \<and>
     (\<forall>t t' k src n b w q d k' src' n' b' w' q' d'.
        sq_threads s t = Copying k src n b w q d \<longrightarrow> sq_threads s t' = Copying k' src' n' b' w' q' d' \<longrightarrow> t = t') \<and>
     (\<forall>t. thread_ok B s (sq_threads s t)) \<and>
     (\<forall>b<num_buckets (sr_geom (sq_region s)). \<forall>w<ways (sr_geom (sq_region s)).
        writing s b w \<or> slot_completed B s b w)"

lemma seq_invI:
  assumes "geom_ok (sr_geom (sq_region s))"
    and "\<And>t' k src n b w q d. sq_threads s t' = Copying k src n b w q d \<Longrightarrow> t' = t"
    and "\<And>t'. thread_ok B s (sq_threads s t')"
    and "\<And>b w. b < num_buckets (sr_geom (sq_region s)) \<Longrightarrow> w < ways (sr_geom (sq_region s)) \<Longrightarrow>
      \<not> writing s b w \<Longrightarrow> slot_completed B s b w"
  shows "seq_inv B s"
proof -
  have "t1 = t2" if "sq_threads s t1 = Copying k src n b w q d" "sq_threads s t2 = Copying k' src' n' b' w' q' d'"
    for t1 t2 k src n b w q d k' src' n' b' w' q' d'
    using assms(2) [OF that(1)] assms(2) [OF that(2)] by simp
  with assms(1,3,4) show ?thesis unfolding seq_inv_def by blast
qed

section \<open>Framing\<close>

definition slot_bytes :: "slot_region \<Rightarrow> mem \<Rightarrow> nat \<Rightarrow> nat \<Rightarrow> bytes" where
  "slot_bytes rg m b w = string_at m (slot_addr rg b w) (64 + max_payload (sr_geom rg))"

lemma slot_bytes_hdr: "slot_hdr rg m b w = take 64 (slot_bytes rg m b w)"
  using string_at_slice [of 0 64 "64 + max_payload (sr_geom rg)" m "slot_addr rg b w"]
  by (simp add: slot_bytes_def)

lemma slot_bytes_payload:
  "n \<le> max_payload (sr_geom rg) \<Longrightarrow>
   string_at m (slot_addr rg b w + 64) n = take n (drop 64 (slot_bytes rg m b w))"
  by (simp add: slot_bytes_def string_at_slice)

lemma slot_completed_frame:
  assumes "slot_completed B s b w" and "slot_bytes (sq_region s') (sq_mem s') b w = slot_bytes (sq_region s) (sq_mem s) b w"
    and "sr_geom (sq_region s') = sr_geom (sq_region s)" and "set (sq_log s) \<subseteq> set (sq_log s')"
  shows "slot_completed B s' b w"
proof -
  have hdr: "slot_hdr (sq_region s') (sq_mem s') b w = slot_hdr (sq_region s) (sq_mem s) b w"
    using assms(2) by (simp only: slot_bytes_hdr)
  have pl: "string_at (sq_mem s') (slot_addr (sq_region s') b w + 64) n =
      string_at (sq_mem s) (slot_addr (sq_region s) b w + 64) n"
    if "n \<le> max_payload (sr_geom (sq_region s))" for n
    using slot_bytes_payload [of n "sq_region s'" "sq_mem s'" b w]
      slot_bytes_payload [of n "sq_region s" "sq_mem s" b w] that assms(2,3) by simp
  show ?thesis unfolding slot_completed_def
  proof (intro allI impI)
    fix hi lo plen seq
    assume "decode_header (slot_hdr (sq_region s') (sq_mem s') b w) = Some (True, hi, lo, plen, seq) \<and> even seq"
    with assms(1) hdr obtain k where "plen \<le> max_payload (sr_geom (sq_region s))"
      "(k, string_at (sq_mem s) (slot_addr (sq_region s) b w + 64) plen) \<in> set (sq_log s)" "key_hash128 B k = (hi, lo)"
      unfolding slot_completed_def by metis
    with pl assms(3,4) show "plen \<le> max_payload (sr_geom (sq_region s')) \<and>
        (\<exists>k. (k, string_at (sq_mem s') (slot_addr (sq_region s') b w + 64) plen) \<in> set (sq_log s') \<and>
           key_hash128 B k = (hi, lo))" by auto
  qed
qed

text \<open>A write inside one slot leaves the bytes of every other slot alone.\<close>

lemma slot_bytes_other:
  assumes g: "geom_ok (sr_geom rg)" and ne: "(b', w') \<noteq> (b, w)"
    and w: "w < ways (sr_geom rg)" "w' < ways (sr_geom rg)" and fits: "o1 + length bs \<le> 64 + max_payload (sr_geom rg)"
  shows "slot_bytes rg (write_bytes m (slot_addr rg b w + o1) bs) b' w' = slot_bytes rg m b' w'"
  unfolding slot_bytes_def
proof (rule string_at_write_disjoint)
  show "disjoint_range (slot_addr rg b w + o1) (length bs) (slot_addr rg b' w') (64 + max_payload (sr_geom rg))"
    using slots_disjoint [OF g w(1) w(2), of b b'] ne fits geom_strides(2) [OF g]
    by (auto simp: disjoint_range_def)
qed

lemma thread_ok_quiet:
  assumes "thread_ok B s p" and "sr_geom (sq_region s') = sr_geom (sq_region s)"
    and "\<And>k src n b w q d. p \<noteq> Copying k src n b w q d"
  shows "thread_ok B s' p"
proof (cases p)
  case (Copying k src n b w q d)
  with assms(3) show ?thesis by blast
qed (use assms in \<open>simp_all add: thread_ok_def\<close>)

lemma not_locked_not_copying: "\<not> locked s \<Longrightarrow> sq_threads s t \<noteq> Copying k src n b w q d"
  by (auto simp: locked_def)

lemma seq_inv_all_completed:
  "seq_inv B s \<Longrightarrow> \<not> locked s \<Longrightarrow> b < num_buckets (sr_geom (sq_region s)) \<Longrightarrow>
   w < ways (sr_geom (sq_region s)) \<Longrightarrow> slot_completed B s b w"
  by (auto simp: seq_inv_def writing_def locked_def)

text \<open>The one thread that holds the lock determines which slot is being written.\<close>

lemma seq_inv_holder:
  assumes inv: "seq_inv B s" and t: "sq_threads s t = Copying key src n b w q d"
  shows "writing s b' w' \<longleftrightarrow> (b', w') = (b, w)"
    and "t' \<noteq> t \<Longrightarrow> sq_threads s t' \<noteq> Copying k' src' n' b1 w1 q' d'"
proof -
  have one: "t' = t" if "sq_threads s t' = Copying k' src' n' b1 w1 q' d'" for t' k' src' n' b1 w1 q' d'
    using inv t that unfolding seq_inv_def by metis
  then show "t' \<noteq> t \<Longrightarrow> sq_threads s t' \<noteq> Copying k' src' n' b1 w1 q' d'" by blast
  show "writing s b' w' \<longleftrightarrow> (b', w') = (b, w)"
  proof
    assume "writing s b' w'"
    then obtain t' k' src' n' q' d' where "sq_threads s t' = Copying k' src' n' b' w' q' d'"
      by (auto simp: writing_def)
    with one t show "(b', w') = (b, w)" by (metis writer.inject(2))
  qed (use t in \<open>unfold writing_def prod.inject, blast\<close>)
qed

section \<open>Preservation\<close>

lemma inv_pick:
  assumes inv: "seq_inv B s" and "sq_threads s t = Idle" and lk: "\<not> locked s"
    and n: "n \<le> max_payload (sr_geom (sq_region s))"
    and pk: "pick_way B (sq_region s) (sq_mem s) key = Inr (b, w)"
  shows "seq_inv B (s\<lparr>sq_threads := (sq_threads s)(t := Picked key src n b w)\<rparr>)" (is "seq_inv B ?s")
proof -
  let ?g = "sr_geom (sq_region s)"
  have g: "geom_ok ?g" using inv by (simp add: seq_inv_def)
  have b: "b < num_buckets ?g" and w: "w < ways ?g"
    using pk g pick_loop_picked [of "sq_region s" "sq_mem s" b "key_hash128 B key"]
    by (auto simp: pick_way_def bucket_index_ok geom_ok_def picked_def)
  have "thread_ok B ?s (sq_threads ?s t')" for t'
    using inv n b w by (cases "t' = t") (auto simp: seq_inv_def thread_ok_def split: writer.splits)
  moreover have "slot_completed B ?s b' w'" if "b' < num_buckets ?g" "w' < ways ?g" for b' w'
    by (rule slot_completed_frame [OF seq_inv_all_completed [OF inv lk that]]) simp_all
  moreover have "sq_threads ?s t' \<noteq> Copying k' src' n' b' w' q' d'" for t' k' src' n' b' w' q' d'
    using not_locked_not_copying [OF lk] by simp
  ultimately show ?thesis using g by (simp add: seq_inv_def)
qed

lemma inv_mark:
  assumes inv: "seq_inv B s" and t: "sq_threads s t = Picked key src n b w" and lk: "\<not> locked s"
    and q: "q = next_seq (local_seq (sq_region s) b w)"
    and mk: "mark_seq B (sq_region s) (sq_mem s) (slot_offset (sr_geom (sq_region s)) b w) (q OR 1) key n = Inr m'"
  shows "seq_inv B (s\<lparr>sq_mem := m', sq_threads := (sq_threads s)(t := Copying key src n b w q [])\<rparr>)"
    (is "seq_inv B ?s")
proof -
  let ?rg = "sq_region s" let ?g = "sr_geom ?rg"
  have g: "geom_ok ?g" using inv by (simp add: seq_inv_def)
  have "thread_ok B s (sq_threads s t)" using inv by (simp add: seq_inv_def)
  then have ok: "n \<le> max_payload ?g" "b < num_buckets ?g" "w < ways ?g" using t by (simp_all add: thread_ok_def)
  obtain h where h: "encode_header B key n (q OR 1) = Inr h" and m': "m' = write_bytes (sq_mem s) (slot_addr ?rg b w) h"
    using mk by (auto simp: mark_seq_def fmap_result_eq_Inr)
  have hl: "length h = 64" using encode_header_Inr(1) [OF h] .
  have hdr: "slot_hdr ?rg m' b w = h" using hl by (simp add: m' string_at_write_prefix)
  have quiet: "t' \<noteq> t \<Longrightarrow> thread_ok B ?s (sq_threads s t')" for t'
    by (rule thread_ok_quiet [of B s]) (use inv not_locked_not_copying [OF lk] in \<open>auto simp: seq_inv_def\<close>)
  have "thread_ok B ?s (Copying key src n b w q [])"
    using ok q h hdr by (simp add: thread_ok_def string_at_def)
  with quiet have ths: "thread_ok B ?s (sq_threads ?s t')" for t' by simp
  have "slot_completed B ?s b' w'"
    if "b' < num_buckets ?g" "w' < ways ?g" "(b', w') \<noteq> (b, w)" for b' w'
    using slot_bytes_other [OF g that(3) ok(3) that(2), of 0 h "sq_mem s"] hl
    by (intro slot_completed_frame [OF seq_inv_all_completed [OF inv lk that(1,2)]]) (simp_all add: m')
  moreover have "writing ?s b w" unfolding writing_def by (rule exI [of _ t]) simp
  ultimately have slots: "slot_completed B ?s b' w'" if "b' < num_buckets ?g" "w' < ways ?g" "\<not> writing ?s b' w'" for b' w'
    using that by (cases "(b', w') = (b, w)") simp_all
  have one: "sq_threads ?s t' = Copying k' src' n' b' w' q' d' \<Longrightarrow> t' = t" for t' k' src' n' b' w' q' d'
    using not_locked_not_copying [OF lk, of t' k' src' n' b' w' q' d'] by (cases "t' = t") simp_all
  show ?thesis by (rule seq_invI [OF _ one ths slots]) (simp_all add: g)
qed

lemma holder_ok:
  assumes "seq_inv B s" and "sq_threads s t = Copying key src n b w q d"
  shows "n \<le> max_payload (sr_geom (sq_region s))" and "b < num_buckets (sr_geom (sq_region s))"
    and "w < ways (sr_geom (sq_region s))" and "length d \<le> n" and "even q"
    and "encode_header B key n (q OR 1) = Inr (slot_hdr (sq_region s) (sq_mem s) b w)"
    and "string_at (sq_mem s) (slot_addr (sq_region s) b w + 64) (length d) = d"
proof -
  have "thread_ok B s (Copying key src n b w q d)" using assms unfolding seq_inv_def by metis
  then show "n \<le> max_payload (sr_geom (sq_region s))" "b < num_buckets (sr_geom (sq_region s))"
    "w < ways (sr_geom (sq_region s))" "length d \<le> n" "even q"
    "encode_header B key n (q OR 1) = Inr (slot_hdr (sq_region s) (sq_mem s) b w)"
    "string_at (sq_mem s) (slot_addr (sq_region s) b w + 64) (length d) = d"
    by (simp_all add: thread_ok_def)
qed

text \<open>Slots other than the one being written are completed, and stay so under a write to it.\<close>

lemma others_completed:
  assumes inv: "seq_inv B s" and t: "sq_threads s t = Copying key src n b w q d"
    and m': "sq_mem s' = write_bytes (sq_mem s) (slot_addr (sq_region s) b w + o1) bs"
    and fits: "o1 + length bs \<le> 64 + max_payload (sr_geom (sq_region s))"
    and rg: "sr_geom (sq_region s') = sr_geom (sq_region s)" "sr_base (sq_region s') = sr_base (sq_region s)"
    and log: "set (sq_log s) \<subseteq> set (sq_log s')"
    and b': "b' < num_buckets (sr_geom (sq_region s))" "w' < ways (sr_geom (sq_region s))" "(b', w') \<noteq> (b, w)"
  shows "slot_completed B s' b' w'"
proof (rule slot_completed_frame [OF _ _ rg(1) log])
  have g: "geom_ok (sr_geom (sq_region s))" using inv by (simp add: seq_inv_def)
  show "slot_completed B s b' w'"
    using inv b' seq_inv_holder(1) [OF inv t, of b' w'] unfolding seq_inv_def by blast
  have "slot_bytes (sq_region s') (sq_mem s') b' w' = slot_bytes (sq_region s) (sq_mem s') b' w'"
    by (simp add: slot_bytes_def rg)
  also have "\<dots> = slot_bytes (sq_region s) (sq_mem s) b' w'"
    unfolding m' by (rule slot_bytes_other [OF g b'(3) holder_ok(3) [OF inv t] b'(2) fits])
  finally show "slot_bytes (sq_region s') (sq_mem s') b' w' = slot_bytes (sq_region s) (sq_mem s) b' w'" .
qed

lemma others_quiet:
  assumes inv: "seq_inv B s" and t: "sq_threads s t = Copying key src n b w q d" and "t' \<noteq> t"
    and "sr_geom (sq_region s') = sr_geom (sq_region s)"
  shows "thread_ok B s' (sq_threads s t')"
proof (rule thread_ok_quiet [OF _ assms(4)])
  show "thread_ok B s (sq_threads s t')" using inv by (simp add: seq_inv_def)
  show "\<And>k src n b w q d. sq_threads s t' \<noteq> Copying k src n b w q d" by (rule seq_inv_holder(2) [OF inv t assms(3)])
qed

lemma inv_copy:
  assumes inv: "seq_inv B s" and t: "sq_threads s t = Copying key src n b w q d" and lt: "length d < n"
  shows "seq_inv B (s\<lparr>sq_mem := write_bytes (sq_mem s) (slot_addr (sq_region s) b w + 64 + length d) [c],
    sq_threads := (sq_threads s)(t := Copying key src n b w q (d @ [c]))\<rparr>)" (is "seq_inv B ?s")
proof -
  let ?rg = "sq_region s" let ?g = "sr_geom ?rg"
  let ?m = "write_bytes (sq_mem s) (slot_addr ?rg b w + 64 + length d) [c]"
  have g: "geom_ok ?g" using inv by (simp add: seq_inv_def)
  note ok = holder_ok [OF inv t]
  have hdr: "slot_hdr ?rg ?m b w = slot_hdr ?rg (sq_mem s) b w"
    by (rule string_at_write_disjoint) (simp add: disjoint_range_def)
  have "string_at ?m (slot_addr ?rg b w + 64) (length d) = d"
    using ok(7) by (subst string_at_write_disjoint) (simp_all add: disjoint_range_def)
  then have "string_at ?m (slot_addr ?rg b w + 64) (length d + 1) = d @ [c]"
    unfolding string_at_split
    using string_at_write_same [of "sq_mem s" "slot_addr ?rg b w + 64 + length d" "[c]"] by simp
  then have "thread_ok B ?s (Copying key src n b w q (d @ [c]))"
    using ok lt hdr by (simp add: thread_ok_def)
  then have ths: "thread_ok B ?s (sq_threads ?s t')" for t'
    using others_quiet [OF inv t, of t' ?s] by (cases "t' = t") simp_all
  have wr: "writing ?s b w" unfolding writing_def by (rule exI [of _ t]) simp
  have slots: "slot_completed B ?s b' w'" if "b' < num_buckets ?g" "w' < ways ?g" "\<not> writing ?s b' w'" for b' w'
    by (rule others_completed [OF inv t, of ?s "64 + length d" "[c]"])
      (use that wr lt ok(1) in \<open>auto simp: add.assoc\<close>)
  have one: "t' = t" if "sq_threads ?s t' = Copying k' src' n' b' w' q' d'" for t' k' src' n' b' w' q' d'
    using that seq_inv_holder(2) [OF inv t, of t' k' src' n' b' w' q' d'] by (cases "t' = t") simp_all
  show ?thesis by (rule seq_invI [OF _ one ths slots]) (simp_all add: g)
qed

lemma inv_finish:
  assumes inv: "seq_inv B s" and t: "sq_threads s t = Copying key src n b w q d" and n: "length d = n"
    and wh: "write_header B (sq_region s) (sq_mem s) (slot_offset (sr_geom (sq_region s)) b w) key n q = Inr m'"
  shows "seq_inv B (s\<lparr>sq_mem := m', sq_threads := (sq_threads s)(t := Idle),
    sq_region := (sq_region s)\<lparr>sr_seq := AList.update (b, w) q (sr_seq (sq_region s))\<rparr>,
    sq_log := (key, d) # sq_log s\<rparr>)" (is "seq_inv B ?s")
proof -
  let ?rg = "sq_region s" let ?g = "sr_geom ?rg"
  have g: "geom_ok ?g" using inv by (simp add: seq_inv_def)
  note ok = holder_ok [OF inv t]
  obtain h where h: "encode_header B key n q = Inr h" and m': "m' = write_bytes (sq_mem s) (slot_addr ?rg b w) h"
    using wh by (auto simp: write_header_def mark_seq_def fmap_result_eq_Inr)
  have hl: "length h = 64" using encode_header_Inr(1) [OF h] .
  have hdr: "slot_hdr ?rg m' b w = h" using hl by (simp add: m' string_at_write_prefix)
  have pay: "string_at m' (slot_addr ?rg b w + 64) n = d"
    using ok(7) n hl by (simp add: m' string_at_write_disjoint disjoint_range_def)
  have "key_hash128 B key = (hi, lo)" if "fst (key_hash128 B key) = hi" "snd (key_hash128 B key) = lo" for hi lo
    using that by (simp add: prod_eq_iff)
  then have done1: "slot_completed B ?s b w"
    using hdr pay encode_header_Inr(2) [OF h] ok(1) by (auto simp: slot_completed_def)
  have ths: "thread_ok B ?s (sq_threads ?s t')" for t'
    using others_quiet [OF inv t, of t' ?s] by (cases "t' = t") (simp_all add: thread_ok_def)
  have "slot_completed B ?s b' w'" if "b' < num_buckets ?g" "w' < ways ?g" "(b', w') \<noteq> (b, w)" for b' w'
    by (rule others_completed [OF inv t, of ?s 0 h]) (use that hl in \<open>auto simp: m'\<close>)
  with done1 have slots: "slot_completed B ?s b' w'" if "b' < num_buckets ?g" "w' < ways ?g" for b' w'
    using that by (cases "(b', w') = (b, w)") simp_all
  have one: "t' = t" if "sq_threads ?s t' = Copying k' src' n' b' w' q' d'" for t' k' src' n' b' w' q' d'
    using that seq_inv_holder(2) [OF inv t, of t' k' src' n' b' w' q' d'] by (cases "t' = t") simp_all
  show ?thesis by (rule seq_invI [OF _ one ths]) (simp_all add: g slots)
qed

lemma seq_inv_unique:
  assumes inv: "seq_inv B s"
  shows "\<exists>t. \<forall>t' k src n b w q d. sq_threads s t' = Copying k src n b w q d \<longrightarrow> t' = t"
proof (cases "locked s")
  case True
  then obtain t key src n b w q d where "sq_threads s t = Copying key src n b w q d" by (auto simp: locked_def)
  with seq_inv_holder(2) [OF inv this] show ?thesis by blast
qed (auto simp: locked_def)

lemma inv_env:
  assumes inv: "seq_inv B s" and m': "\<And>x. in_region (sq_region s) x \<Longrightarrow> m' x = sq_mem s x"
  shows "seq_inv B (s\<lparr>sq_mem := m'\<rparr>)" (is "seq_inv B ?s")
proof -
  let ?rg = "sq_region s" let ?g = "sr_geom ?rg"
  have g: "geom_ok ?g" using inv by (simp add: seq_inv_def)
  have bytes: "slot_bytes ?rg m' b w = slot_bytes ?rg (sq_mem s) b w" if "b < num_buckets ?g" "w < ways ?g" for b w
    unfolding slot_bytes_def
    using slot_in_region [OF g that] geom_strides(2) [OF g]
    by (intro string_at_cong m') (auto simp: in_region_def)
  have ths: "thread_ok B ?s (sq_threads ?s t)" for t
  proof (cases "sq_threads s t")
    case (Copying key src n b w q d)
    note ok = holder_ok [OF inv Copying]
    have "slot_hdr ?rg m' b w = slot_hdr ?rg (sq_mem s) b w" using bytes [OF ok(2,3)] by (simp only: slot_bytes_hdr)
    moreover have "string_at m' (slot_addr ?rg b w + 64) (length d) = d"
      using ok(7) bytes [OF ok(2,3)] ok(1,4) slot_bytes_payload [of "length d" ?rg _ b w] by simp
    ultimately show ?thesis using ok Copying by (simp add: thread_ok_def)
  next
    case (Picked key src n b w)
    then show ?thesis using inv unfolding seq_inv_def by (metis (no_types, lifting) thread_ok_quiet writer.distinct(5) seq_state.select_convs(1,3) seq_state.surjective seq_state.update_convs(2))
  qed (simp add: thread_ok_def)
  have slots: "slot_completed B ?s b w" if "b < num_buckets ?g" "w < ways ?g" "\<not> writing ?s b w" for b w
  proof (rule slot_completed_frame [of B s])
    have "\<not> writing s b w" using that(3) by (simp add: writing_def)
    with inv that(1,2) show "slot_completed B s b w" unfolding seq_inv_def by blast
  qed (use bytes [OF that(1,2)] in simp_all)
  obtain t where "\<forall>t' k src n b w q d. sq_threads s t' = Copying k src n b w q d \<longrightarrow> t' = t"
    using seq_inv_unique [OF inv] by blast
  then have one: "sq_threads ?s t' = Copying k src n b w q d \<Longrightarrow> t' = t" for t' k src n b w q d by simp
  show ?thesis by (rule seq_invI [OF _ one ths slots]) (simp_all add: g)
qed

lemma seq_step_inv: "seq_step B s s' \<Longrightarrow> seq_inv B s \<Longrightarrow> seq_inv B s'"
proof (induction rule: seq_step.induct)
  case (pick s t n key b w src)
  then show ?case by (intro inv_pick)
next
  case (mark s t key src n b w q m')
  then show ?case by (intro inv_mark)
next
  case (copy s t key src n b w q d c)
  then show ?case by (intro inv_copy)
next
  case (finish s t key src n b w q d m')
  then show ?case by (intro inv_finish)
next
  case (env s m')
  then show ?case by (intro inv_env)
qed

lemma seq_init_inv:
  assumes "geom_ok g" and "zeroed m base (capacity g)"
  shows "seq_inv B (seq_init base g m)"
  using assms zeroed_slot [OF assms]
  by (auto simp: seq_inv_def seq_init_def SlotRegion_def thread_ok_def slot_completed_def decode_zero)

lemma seq_reach_inv: "(seq_step B)\<^sup>*\<^sup>* s s' \<Longrightarrow> seq_inv B s \<Longrightarrow> seq_inv B s'"
  by (induction rule: rtranclp_induct) (auto intro: seq_step_inv)

lemma seq_reach_region:
  "(seq_step B)\<^sup>*\<^sup>* s s' \<Longrightarrow>
   sr_geom (sq_region s') = sr_geom (sq_region s) \<and> sr_base (sq_region s') = sr_base (sq_region s)"
  by (induction rule: rtranclp_induct) (auto elim!: seq_step.cases)

lemma odd_header_closed:
  "encode_header B k n (q OR 1) = Inr h \<Longrightarrow> even q \<Longrightarrow> \<not> slot_matches B h key len"
proof -
  assume h: "encode_header B k n (q OR 1) = Inr h" and q: "even q"
  have "odd (q OR 1)" using q unfolding or_one_eq by simp
  then show ?thesis using encode_header_Inr(2) [OF h] by (auto simp: slot_matches_iff)
qed

section \<open>The interleaving model refines the sequential one\<close>

lemma chain_steps: "R a b \<Longrightarrow> R b c \<Longrightarrow> R\<^sup>*\<^sup>* c d \<Longrightarrow> R d e \<Longrightarrow> R\<^sup>*\<^sup>* a e"
  by (meson converse_rtranclp_into_rtranclp rtranclp.rtrancl_into_rtrancl)

lemma write_bytes_snoc:
  "write_bytes (write_bytes m a bs) (a + length bs) [c] = write_bytes m a (bs @ [c])"
  by (rule ext) (auto simp: write_bytes_def nth_append)

lemma write_bytes_Nil [simp]: "write_bytes m a [] = m"
  by (rule ext) (auto simp: write_bytes_def)

lemma copy_run:
  assumes t: "sq_threads s t = Copying key src n b w q []" and i: "i \<le> n"
    and out: "disjoint_range (slot_addr (sq_region s) b w + 64) n src n"
  shows "(seq_step B)\<^sup>*\<^sup>* s
    (s\<lparr>sq_mem := write_bytes (sq_mem s) (slot_addr (sq_region s) b w + 64) (string_at (sq_mem s) src i),
       sq_threads := (sq_threads s)(t := Copying key src n b w q (string_at (sq_mem s) src i))\<rparr>)"
  using i
proof (induction i)
  case 0
  have "s\<lparr>sq_mem := sq_mem s, sq_threads := (sq_threads s)(t := Copying key src n b w q [])\<rparr> = s"
    using t fun_upd_triv [of "sq_threads s" t] by simp
  moreover have "string_at (sq_mem s) src 0 = []" by (simp add: string_at_def)
  ultimately show ?case unfolding write_bytes_Nil by (metis rtranclp.rtrancl_refl write_bytes_Nil)
next
  case (Suc i)
  let ?a = "slot_addr (sq_region s) b w + 64" and ?d = "string_at (sq_mem s) src i"
  let ?s = "s\<lparr>sq_mem := write_bytes (sq_mem s) ?a ?d, sq_threads := (sq_threads s)(t := Copying key src n b w q ?d)\<rparr>"
  have c: "sq_mem s (src + i) = sq_mem ?s (src + length ?d)"
    using out Suc.prems by (auto simp: write_bytes_def disjoint_range_def)
  have "seq_step B ?s (?s\<lparr>sq_mem := write_bytes (sq_mem ?s) (slot_addr (sq_region ?s) b w + 64 + length ?d) [sq_mem s (src + i)],
      sq_threads := (sq_threads ?s)(t := Copying key src n b w q (?d @ [sq_mem s (src + i)]))\<rparr>)"
    by (rule seq_step.copy [OF _ _ c]) (use Suc.prems in simp_all)
  moreover have "?d @ [sq_mem s (src + i)] = string_at (sq_mem s) src (Suc i)" by (simp add: string_at_def)
  moreover have "write_bytes (sq_mem ?s) (slot_addr (sq_region ?s) b w + 64 + length ?d) [sq_mem s (src + i)] =
      write_bytes (sq_mem s) ?a (?d @ [sq_mem s (src + i)])"
    using write_bytes_snoc [of "sq_mem s" ?a ?d] by simp
  ultimately have "seq_step B ?s
      (s\<lparr>sq_mem := write_bytes (sq_mem s) ?a (string_at (sq_mem s) src (Suc i)),
         sq_threads := (sq_threads s)(t := Copying key src n b w q (string_at (sq_mem s) src (Suc i)))\<rparr>)"
    by simp
  with Suc show ?case by (meson Suc_leD rtranclp.rtrancl_into_rtrancl)
qed

lemma write_local_run:
  assumes inv: "region_inv (sq_region s) (sq_mem s)" and out: "outside (sq_region s) src n"
    and idle: "sq_threads s t = Idle" and lk: "\<not> locked s"
    and wr: "write_local B (sq_region s) (sq_mem s) key src n = Inr (rg', m', Some off)"
  shows "(seq_step B)\<^sup>*\<^sup>* s
    (s\<lparr>sq_region := rg', sq_mem := m', sq_log := (key, string_at (sq_mem s) src n) # sq_log s\<rparr>)"
proof -
  let ?rg = "sq_region s" and ?m = "sq_mem s" let ?g = "sr_geom ?rg"
  have g: "geom_ok ?g" using inv by (simp add: region_inv_def)
  let ?b = "bucket_hash B key mod num_buckets ?g"
  let ?w = "pick_loop ?rg ?m ?b (key_hash128 B key) [0..<ways ?g] None 0 None"
  let ?q = "next_seq (local_seq ?rg ?b ?w)" and ?off = "slot_offset ?g ?b ?w"
  have pick: "pick_way B ?rg ?m key = Inr (?b, ?w)" by (simp add: pick_way_def bucket_index_ok [OF g])
  have n: "n \<le> max_payload ?g" using wr by (auto simp: write_local_def split: if_splits)
  obtain m1 m3 where mk: "mark_seq B ?rg ?m ?off (?q OR 1) key n = Inr m1"
    and wh: "write_header B ?rg (memmove m1 (sr_base ?rg + ?off + 64) src n) ?off key n ?q = Inr m3"
    and res: "rg' = ?rg\<lparr>sr_seq := AList.update (?b, ?w) ?q (sr_seq ?rg)\<rparr>" "m' = m3"
    using wr n unfolding write_local_def pick by (auto simp: Let_def bind_result_eq_Inr)
  have w: "?w < ways ?g" and b: "?b < num_buckets ?g"
    using pick_loop_picked [of ?rg ?m ?b] g by (simp_all add: geom_ok_def picked_def)
  have stride: "64 + n \<le> slot_stride ?g" using geom_strides(2) [OF g] n by linarith
  have slot_src: "disjoint_range (slot_addr ?rg ?b ?w) (64 + n) src n" by (rule outside_slot [OF g out b w stride])
  obtain h where h: "encode_header B key n (?q OR 1) = Inr h" and m1: "m1 = write_bytes ?m (slot_addr ?rg ?b ?w) h"
    using mk by (auto simp: mark_seq_def fmap_result_eq_Inr)
  have src: "string_at m1 src n = string_at ?m src n"
    unfolding m1 by (rule string_at_write_disjoint)
      (use slot_src encode_header_Inr(1) [OF h] in \<open>auto simp: disjoint_range_def\<close>)
  let ?s1 = "s\<lparr>sq_threads := (sq_threads s)(t := Picked key src n ?b ?w)\<rparr>"
  let ?s2 = "?s1\<lparr>sq_mem := m1, sq_threads := (sq_threads ?s1)(t := Copying key src n ?b ?w ?q [])\<rparr>"
  let ?d = "string_at (sq_mem ?s2) src n"
  let ?s3 = "?s2\<lparr>sq_mem := write_bytes (sq_mem ?s2) (slot_addr (sq_region ?s2) ?b ?w + 64) ?d,
      sq_threads := (sq_threads ?s2)(t := Copying key src n ?b ?w ?q ?d)\<rparr>"
  let ?s4 = "?s3\<lparr>sq_mem := m3, sq_threads := (sq_threads ?s3)(t := Idle),
      sq_region := (sq_region ?s3)\<lparr>sr_seq := AList.update (?b, ?w) ?q (sr_seq (sq_region ?s3))\<rparr>,
      sq_log := (key, ?d) # sq_log ?s3\<rparr>"
  have s1: "seq_step B s ?s1" by (rule seq_step.pick [OF idle lk n pick])
  have lk1: "\<not> locked ?s1" using lk by (auto simp: locked_def)
  have s2: "seq_step B ?s1 ?s2" by (rule seq_step.mark [OF _ lk1]) (use mk in simp_all)
  have s3: "(seq_step B)\<^sup>*\<^sup>* ?s2 ?s3"
    by (rule copy_run) (use slot_src in \<open>auto simp: disjoint_range_def\<close>)
  have s4: "seq_step B ?s3 ?s4"
    by (rule seq_step.finish [where d = ?d]) (use wh in \<open>simp_all add: memmove_write_bytes\<close>)
  have e: "?s4 = s\<lparr>sq_region := rg', sq_mem := m', sq_log := (key, string_at ?m src n) # sq_log s\<rparr>"
    using idle src by (simp add: res fun_upd_idem)
  show ?thesis
    by (rule chain_steps [where R = "seq_step B", OF s1 s2 s3 s4, unfolded e])
qed

lemma first_write:
  assumes B: "digest_sized B" and ok: "geom_ok g" and n: "n \<le> max_payload g" "max_payload g < 2 ^ 32"
    and z: "zeroed m base (capacity g)" and out: "outside (SlotRegion base g) src n"
  shows "\<exists>s w. (seq_step B)\<^sup>*\<^sup>* (seq_init base g m) s \<and> sq_log s = [(key, string_at m src n)] \<and>
    sq_threads s = (\<lambda>_. Idle) \<and> region_inv (sq_region s) (sq_mem s) \<and>
    (\<forall>b w. local_seq (sq_region s) b w \<le> 2) \<and> w < ways g \<and>
    slot_matches B (slot_hdr (sq_region s) (sq_mem s) (bucket_hash B key mod num_buckets g) w) key n"
proof -
  let ?rg = "SlotRegion base g" and ?s = "seq_init base g m"
  have rg: "sr_geom ?rg = g" by (simp add: SlotRegion_def)
  have inv: "region_inv ?rg m" by (rule region_init_inv [OF ok z])
  have "\<exists>h. encode_header B key n (next_seq (local_seq ?rg b w) OR 1) = Inr h" for b w
    unfolding encode_header_ok [OF B] or_one_eq using n by (simp add: next_seq_def)
  then have total: "write_local B ?rg m key src n \<noteq> Inl e" for e using n ok rg by (intro write_local_total) simp_all
  have okr: "geom_ok (sr_geom ?rg)" and nr: "\<not> max_payload (sr_geom ?rg) < n" using ok n rg by simp_all
  obtain rg' m' off where wr: "write_local B ?rg m key src n = Inr (rg', m', Some off)"
    by (rule write_local_cases [OF okr refl, of n B m key src]) (use nr total in \<open>blast intro: that\<close>)+
  obtain b w h where b: "b = bucket_hash B key mod num_buckets (sr_geom ?rg)"
    and pk: "picked ?rg m b (key_hash128 B key) w"
    and h: "encode_header B key n (next_seq (local_seq ?rg b w)) = Inr h"
    and rg': "rg' = ?rg\<lparr>sr_seq := AList.update (b, w) (next_seq (local_seq ?rg b w)) (sr_seq ?rg)\<rparr>"
    and m': "m' = write_bytes m (slot_addr ?rg b w) (h @ string_at m src n)"
    and nn: "n \<le> max_payload (sr_geom ?rg)"
    using inv out wr by (rule write_local_effect)
  have w: "w < ways (sr_geom ?rg)" using pk by (simp add: picked_def)
  have geq: "sr_geom rg' = g" "sr_base rg' = base" by (simp_all add: rg' SlotRegion_def)
  have "slot_hdr ?rg m' b w = h" using write_local_headers(1) [OF okr w w h nn length_string_at m', of b] by simp
  then have hdr: "slot_hdr rg' m' b w = h" by (simp add: geq SlotRegion_def)
  let ?s' = "?s\<lparr>sq_region := rg', sq_mem := m', sq_log := (key, string_at (sq_mem ?s) src n) # sq_log ?s\<rparr>"
  have "(seq_step B)\<^sup>*\<^sup>* ?s ?s'"
    by (rule write_local_run [where t = 0]) (use inv out wr in \<open>simp_all add: seq_init_def locked_def\<close>)
  moreover have "local_seq rg' b' w' \<le> 2" for b' w'
    by (simp add: rg' local_seq_def SlotRegion_def next_seq_def)
  moreover have "slot_matches B h key n" using encode_header_Inr(2) [OF h] by (simp add: slot_matches_iff)
  ultimately show ?thesis using write_local_inv [OF inv out wr] w hdr b rg
    by (intro exI [of _ ?s'] exI [of _ w]) (simp add: seq_init_def)
qed

section \<open>Properties\<close>



text \<open>
  Every sequential run of the owner is one of the interleavings: after any run of own-key
  writes from a zeroed region, the region and memory they leave are those of a reachable,
  unlocked state of the interleaving model, whose log holds at most one write per request and
  only writes of requested keys.
\<close>

theorem sequential_run_is_interleaving:
  assumes g: "g = SlotGeometry mp nb ws" "0 < nb" "0 < ws" and z: "zeroed m base (capacity g)"
    and run: "foldl (slot_put B) (SlotRegion base g, m) rs = (rg, m1)"
  shows "\<exists>log. (seq_step B)\<^sup>*\<^sup>* (seq_init base g m)
      \<lparr>sq_region = rg, sq_mem = m1, sq_threads = (\<lambda>_. Idle), sq_log = log\<rparr> \<and>
    length log \<le> length rs \<and> set (map fst log) \<subseteq> fst ` set rs"
  using run
proof (induction rs arbitrary: rg m1 rule: rev_induct)
  case Nil
  then show ?case by (auto simp: seq_init_def)
next
  case (snoc r rs)
  have ok: "geom_ok g" using g by (auto simp: geom_ok_def SlotGeometry_def)
  obtain rg0 m0 where pre: "foldl (slot_put B) (SlotRegion base g, m) rs = (rg0, m0)" by fastforce
  then obtain log where IH: "(seq_step B)\<^sup>*\<^sup>* (seq_init base g m)
      \<lparr>sq_region = rg0, sq_mem = m0, sq_threads = (\<lambda>_. Idle), sq_log = log\<rparr>" (is "(seq_step B)\<^sup>*\<^sup>* _ ?s")
    and log: "length log \<le> length rs" "set (map fst log) \<subseteq> fst ` set rs" using snoc.IH by blast
  have inv: "region_inv rg0 m0" using slot_run [OF region_init_inv [OF ok z] _ pre, of 0] by simp
  obtain key src len where r: "r = (key, src, len)" by (cases r) auto
  have put: "slot_put B (rg0, m0) (key, src, len) = (rg, m1)" using snoc.prems pre r by simp
  show ?case
  proof (rule slot_put_cases [OF inv, of B key src len])
    assume "slot_put B (rg0, m0) (key, src, len) = (rg0, m0)"
    with put IH log show ?thesis by (auto simp del: slot_put.simps intro!: exI [of _ log])
  next
    fix rg' m' off
    assume "outside rg0 src len" and wr: "write_local B rg0 m0 key src len = Inr (rg', m', Some off)"
      and "slot_put B (rg0, m0) (key, src, len) = (rg', m')"
    with put have eqs: "rg' = rg" "m' = m1" and "outside rg0 src len" by (simp_all del: slot_put.simps)
    then have "(seq_step B)\<^sup>*\<^sup>* ?s (?s\<lparr>sq_region := rg, sq_mem := m1,
        sq_log := (key, string_at (sq_mem ?s) src len) # sq_log ?s\<rparr>)"
      by (intro write_local_run [where t = 0 and off = off]) (use inv wr eqs in \<open>simp_all add: locked_def\<close>)
    with IH have "(seq_step B)\<^sup>*\<^sup>* (seq_init base g m) \<lparr>sq_region = rg, sq_mem = m1,
        sq_threads = (\<lambda>_. Idle), sq_log = (key, string_at m0 src len) # log\<rparr>" by simp
    with log r show ?thesis by (intro exI [of _ "(key, string_at m0 src len) # log"]) auto
  qed
qed

theorem sequential_run_is_interleaving_witness:
  "\<exists>log rg m1. (seq_step (\<lambda>n salt d. replicate n 7))\<^sup>*\<^sup>* (seq_init 0 (SlotGeometry 10 2 2) (\<lambda>_. 0))
      \<lparr>sq_region = rg, sq_mem = m1, sq_threads = (\<lambda>_. Idle), sq_log = log\<rparr> \<and> length log \<le> 1"
proof -
  obtain rg m1 where "foldl (slot_put (\<lambda>n salt d. replicate n 7)) (SlotRegion 0 (SlotGeometry 10 2 2), \<lambda>_. 0)
      [(''k'', 1000, 3)] = (rg, m1)" by fastforce
  from sequential_run_is_interleaving [OF refl _ _ toy_slot_region(1) this] show ?thesis by auto
qed

section \<open>The two-step local read\<close>

lemma picked_holds:
  "picked rg m b kh w \<Longrightarrow> w' < ways (sr_geom rg) \<Longrightarrow> slot_key_hash rg m b w' = Some kh \<Longrightarrow>
   slot_key_hash rg m b w = Some kh"
proof (rule ccontr)
  assume pk: "picked rg m b kh w" and w': "w' < ways (sr_geom rg)" and h: "slot_key_hash rg m b w' = Some kh"
    and ne: "slot_key_hash rg m b w \<noteq> Some kh"
  from pk have "\<forall>w'<ways (sr_geom rg). slot_key_hash rg m b w' \<noteq> Some kh"
    unfolding picked_def if_not_P [OF ne] by blast
  with w' h show False by blast
qed

lemma region_inv_unique:
  "region_inv rg m \<Longrightarrow> b < num_buckets (sr_geom rg) \<Longrightarrow> w < ways (sr_geom rg) \<Longrightarrow> w' < ways (sr_geom rg) \<Longrightarrow>
   slot_key_hash rg m b w = Some h \<Longrightarrow> slot_key_hash rg m b w' = Some h \<Longrightarrow> w = w'"
proof -
  assume inv: "region_inv rg m" and lt: "b < num_buckets (sr_geom rg)" "w < ways (sr_geom rg)" "w' < ways (sr_geom rg)"
    and h: "slot_key_hash rg m b w = Some h" "slot_key_hash rg m b w' = Some h"
  have "slot_key_hash rg m b w \<noteq> None \<longrightarrow> slot_key_hash rg m b w = slot_key_hash rg m b w' \<longrightarrow> w = w'"
    using inv lt unfolding region_inv_def by blast
  with h show "w = w'" by simp
qed



end
