(* ===== verification/Disk.thy ===== *)
theory Disk
  imports Wire "HOL-Library.List_Lexorder" "HOL-Library.Char_ord"
begin

text \<open>
  The disk tier (\<^verbatim>\<open>python/peercache/diskstore.py\<close>).

  A directory is the list of its page files and its sidecar \<^verbatim>\<open>index.json\<close>, kept as the value
  \<open>json.load\<close> reads back from it. The digest \<open>sha1\<close> is a parameter. A file operation may fail for
  reasons outside the program (a full disk): the operations that write take a flag saying
  whether it succeeds. Temporary files are not kept: nothing ever reads one, and
  \<open>_rebuild_from_scan\<close> skips them by their suffix.

  The writer thread is a queue of pages and the body of its loop. \<open>put\<close> only enqueues, so that the
  runs below are arbitrary interleavings of callers and the writer.
\<close>

section \<open>Names\<close>

definition hex_digit :: "nat \<Rightarrow> char" where
  "hex_digit n = char_of (if n < 10 then 48 + n else 87 + n)"

definition hexdigest :: "bytes \<Rightarrow> string" where
  "hexdigest bs = concat (map (\<lambda>b. [hex_digit (unat b div 16), hex_digit (unat b mod 16)]) bs)"

definition safe_name :: "(bytes \<Rightarrow> bytes) \<Rightarrow> string \<Rightarrow> string" where
  "safe_name sha1 key = hexdigest (sha1 (encode key)) @ ''.bin''"

definition ends_with :: "string \<Rightarrow> string \<Rightarrow> bool" where
  "ends_with s suf \<longleftrightarrow> length suf \<le> length s \<and> drop (length s - length suf) s = suf"

section \<open>State\<close>

text \<open>A sidecar that \<open>json.load\<close> rejects, or the value it holds.\<close>

datatype json_file = NotJson | Json pyval

record disk_dir =
  dd_files :: "(string, bytes) dict"
  dd_index :: "json_file option"

text \<open>The queue holds pages, and \<open>None\<close> for the stop marker.\<close>

record disk_store =
  ds_dir :: disk_dir
  ds_max_bytes :: nat
  ds_index :: "(string, string \<times> int) dict"
  ds_used :: int
  ds_inflight :: "string set"
  ds_writes_since_flush :: nat
  ds_queue :: "(string \<times> bytes) option list"
  ds_running :: bool

section \<open>Index persistence\<close>

text \<open>\<open>for key, (name, length) in data.items()\<close>: unpacking any iterable of two items.\<close>

fun unpack2 :: "pyval \<Rightarrow> (pyval \<times> pyval) result" where
  "unpack2 (VList [a, b]) = Inr (a, b)"
| "unpack2 (VList _) = Inl ValueError"
| "unpack2 (VStr [a, b]) =
     (if of_char a < (128 :: nat) \<and> of_char b < (128 :: nat) then Inr (VStr [a], VStr [b]) else Inl ValueError)"
| "unpack2 (VStr _) = Inl ValueError"
| "unpack2 (VDict [(a, _), (b, _)]) = Inr (VStr a, VStr b)"
| "unpack2 (VDict _) = Inl ValueError"
| "unpack2 _ = Inl TypeError"

fun load_entries ::
  "(string, bytes) dict \<Rightarrow> (string \<times> pyval) list \<Rightarrow> (string, string \<times> int) dict \<Rightarrow> int \<Rightarrow>
   ((string, string \<times> int) dict \<times> int) result" where
  "load_entries files [] idx used = Inr (idx, used)"
| "load_entries files ((key, v) # es) idx used =
     bind_result (unpack2 v) (\<lambda>(n, l).
     bind_result (as_str n) (\<lambda>name.
     if has_key files name
     then bind_result (as_int l) (\<lambda>len. load_entries files es (AList.update key (name, len) idx) (used + len))
     else load_entries files es idx used))"

definition scan_file ::
  "string \<Rightarrow> bytes \<Rightarrow> (string, string \<times> int) dict \<times> int \<Rightarrow> (string, string \<times> int) dict \<times> int" where
  "scan_file name content st =
     (let (idx, used) = st; hdr = take 4 content in
      if length hdr < 4 then (idx, used)
      else let klen = from_be hdr in
        case decode_strict (take klen (drop 4 content)) of
          Inl _ \<Rightarrow> (idx, used)
        | Inr key \<Rightarrow>
            let len = int (length content) - 4 - int klen in
            if len \<ge> 0 then (AList.update key (name, len) idx, used + len) else (idx, used))"

definition rebuild_from_scan :: "disk_store \<Rightarrow> disk_store" where
  "rebuild_from_scan s =
     (let files = dd_files (ds_dir s);
          (idx, used) =
            fold (\<lambda>name st. if ends_with name ''.bin''
                           then (case map_of files name of None \<Rightarrow> st | Some c \<Rightarrow> scan_file name c st)
                           else st)
              (sort (map fst files)) (ds_index s, ds_used s)
      in s\<lparr>ds_index := idx, ds_used := used\<rparr>)"

definition load_index :: "disk_store \<Rightarrow> disk_store" where
  "load_index s =
     (case dd_index (ds_dir s) of
        None \<Rightarrow> rebuild_from_scan s
      | Some (Json (VDict es)) \<Rightarrow>
          (case load_entries (dd_files (ds_dir s)) es (ds_index s) (ds_used s) of
             Inr (idx, used) \<Rightarrow> s\<lparr>ds_index := idx, ds_used := used\<rparr>
           | Inl _ \<Rightarrow> rebuild_from_scan (s\<lparr>ds_index := [], ds_used := 0\<rparr>))
      | Some _ \<Rightarrow> rebuild_from_scan (s\<lparr>ds_index := [], ds_used := 0\<rparr>))"

definition index_json :: "(string, string \<times> int) dict \<Rightarrow> pyval" where
  "index_json idx = VDict (map (\<lambda>(k, n, l). (k, VList [VStr n, VInt l])) idx)"

definition flush_index :: "bool \<Rightarrow> disk_store \<Rightarrow> disk_store" where
  "flush_index io s =
     (if io then s\<lparr>ds_dir := (ds_dir s)\<lparr>dd_index := Some (Json (index_json (ds_index s)))\<rparr>\<rparr> else s)"

definition DiskStore :: "disk_dir \<Rightarrow> nat \<Rightarrow> disk_store" where
  "DiskStore dir max_bytes =
     load_index
       \<lparr>ds_dir = dir, ds_max_bytes = max_bytes, ds_index = [], ds_used = 0, ds_inflight = {},
        ds_writes_since_flush = 0, ds_queue = [], ds_running = True\<rparr>"

section \<open>The writer\<close>

definition disk_put :: "disk_store \<Rightarrow> string \<Rightarrow> bytes \<Rightarrow> disk_store" where
  "disk_put s key data =
     (if \<not> ds_running s \<or> length data > ds_max_bytes s then s
      else if has_key (ds_index s) key \<or> key \<in> ds_inflight s then s
      else s\<lparr>ds_inflight := insert key (ds_inflight s), ds_queue := ds_queue s @ [Some (key, data)]\<rparr>)"

text \<open>The eviction loop of \<open>_write\<close>: index, used bytes, files, evicted keys.\<close>

fun disk_evict ::
  "nat \<Rightarrow> (string, string \<times> int) dict \<Rightarrow> int \<Rightarrow> (string, bytes) dict \<Rightarrow> string list \<Rightarrow>
   (string, string \<times> int) dict \<times> int \<times> (string, bytes) dict \<times> string list" where
  "disk_evict maxb [] used files evicted = ([], used, files, evicted)"
| "disk_evict maxb ((old_key, old_name, old_len) # rest) used files evicted =
     (if used > int maxb \<and> rest \<noteq> []
      then disk_evict maxb rest (used - old_len) (AList.delete old_name files) (evicted @ [old_key])
      else ((old_key, old_name, old_len) # rest, used, files, evicted))"

definition disk_write ::
  "(bytes \<Rightarrow> bytes) \<Rightarrow> bool \<Rightarrow> bool \<Rightarrow> disk_store \<Rightarrow> string \<Rightarrow> bytes \<Rightarrow> (disk_store \<times> string list) result" where
  "disk_write sha1 io io_flush s key data =
     (let name = safe_name sha1 key; kb = encode key in
      bind_result (pack_be32 (length kb)) (\<lambda>hdr.
      if \<not> io then Inl OSError
      else
        let files = AList.update name (hdr @ kb @ data) (dd_files (ds_dir s));
            used = (if has_key (ds_index s) key then ds_used s else ds_used s + int (length data));
            idx = move_to_end key (AList.update key (name, int (length data)) (ds_index s));
            (idx, used, files, evicted) = disk_evict (ds_max_bytes s) idx used files [];
            n = ds_writes_since_flush s + 1;
            s = s\<lparr>ds_dir := (ds_dir s)\<lparr>dd_files := files\<rparr>, ds_index := idx, ds_used := used,
                  ds_writes_since_flush := (if n \<ge> 256 then 0 else n)\<rparr>
        in Inr (if n \<ge> 256 then flush_index io_flush s else s, evicted)))"

text \<open>
  One turn of \<open>_run\<close>: take an item, stop on the marker, otherwise write the page, swallow any
  exception and forget the key. \<open>None\<close>: the thread waits or has ended.
\<close>

definition disk_run_one ::
  "(bytes \<Rightarrow> bytes) \<Rightarrow> bool \<Rightarrow> bool \<Rightarrow> disk_store \<Rightarrow> (disk_store \<times> string list) option" where
  "disk_run_one sha1 io io_flush s =
     (case ds_queue s of
        [] \<Rightarrow> None
      | None # rest \<Rightarrow> None
      | Some (key, data) # rest \<Rightarrow>
          let s = s\<lparr>ds_queue := rest\<rparr>;
              (s, evicted) = (case disk_write sha1 io io_flush s key data of
                                Inl _ \<Rightarrow> (s, []) | Inr r \<Rightarrow> r)
          in Some (s\<lparr>ds_inflight := ds_inflight s - {key}\<rparr>, evicted))"

section \<open>Reads\<close>

definition disk_read :: "bytes \<Rightarrow> int \<Rightarrow> bytes option" where
  "disk_read content len =
     (let hdr = take 4 content in
      if length hdr < 4 then None
      else let body = drop (4 + from_be hdr) content
           in Some (if len < 0 then body else take (nat len) body))"

definition disk_get :: "disk_store \<Rightarrow> string \<Rightarrow> disk_store \<times> bytes option" where
  "disk_get s key =
     (case map_of (ds_index s) key of
        None \<Rightarrow> (s, None)
      | Some (name, len) \<Rightarrow>
          let s = s\<lparr>ds_index := move_to_end key (ds_index s)\<rparr>
          in (s, case map_of (dd_files (ds_dir s)) name of None \<Rightarrow> None | Some c \<Rightarrow> disk_read c len))"

definition disk_exists :: "disk_store \<Rightarrow> string \<Rightarrow> bool" where
  "disk_exists s key \<longleftrightarrow> has_key (ds_index s) key"

definition disk_remove :: "disk_store \<Rightarrow> string \<Rightarrow> disk_store" where
  "disk_remove s key =
     (case map_of (ds_index s) key of
        None \<Rightarrow> s
      | Some (name, len) \<Rightarrow>
          s\<lparr>ds_index := AList.delete key (ds_index s), ds_used := ds_used s - len,
            ds_dir := (ds_dir s)\<lparr>dd_files := AList.delete name (dd_files (ds_dir s))\<rparr>\<rparr>)"

definition disk_stats :: "disk_store \<Rightarrow> int \<times> nat" where
  "disk_stats s = (ds_used s, length (ds_index s))"

text \<open>
  \<open>close\<close>: the writer gets the stop marker and \<open>n\<close> turns before the join gives up, then the index
  is flushed.
\<close>

primrec disk_drain :: "(bytes \<Rightarrow> bytes) \<Rightarrow> bool \<Rightarrow> nat \<Rightarrow> disk_store \<Rightarrow> disk_store" where
  "disk_drain sha1 io 0 s = s"
| "disk_drain sha1 io (Suc n) s =
     (case disk_run_one sha1 io io s of None \<Rightarrow> s | Some (s', _) \<Rightarrow> disk_drain sha1 io n s')"

definition disk_close :: "(bytes \<Rightarrow> bytes) \<Rightarrow> bool \<Rightarrow> nat \<Rightarrow> disk_store \<Rightarrow> disk_store" where
  "disk_close sha1 io n s =
     (let s = s\<lparr>ds_running := False, ds_queue := ds_queue s @ [None]\<rparr>
      in flush_index io (disk_drain sha1 io n s))"

section \<open>Eviction\<close>

lemma map_of_key: "map_of d k = Some v \<Longrightarrow> k \<in> fst ` set d"
  by (metis map_of_None_fst option.distinct(1))

definition idx_bytes :: "(string, string \<times> int) dict \<Rightarrow> int" where
  "idx_bytes idx = (\<Sum>(k, n, l)\<leftarrow>idx. l)"

lemma idx_bytes_simps [simp]:
  "idx_bytes [] = 0" "idx_bytes ((k, n, l) # idx) = l + idx_bytes idx"
  "idx_bytes (xs @ ys) = idx_bytes xs + idx_bytes ys"
  by (simp_all add: idx_bytes_def)

lemma idx_bytes_mset: "mset xs = mset ys \<Longrightarrow> idx_bytes xs = idx_bytes ys"
  unfolding idx_bytes_def by (metis mset_map sum_mset_sum_list)

lemma idx_bytes_delete:
  "dict_ok idx \<Longrightarrow> map_of idx k = Some (n, l) \<Longrightarrow> idx_bytes (AList.delete k idx) = idx_bytes idx - l"
  using idx_bytes_mset [of idx "(k, n, l) # AList.delete k idx"] mset_delete_present [of idx k "(n, l)"] by simp

text \<open>
  The loop takes entries from the front, the least recently used first, and stops as soon as the
  rest fits or a single entry is left.
\<close>

lemma disk_evict_spec:
  "disk_evict maxb idx used files ev = (idx', used', files', ev') \<Longrightarrow>
   \<exists>pre. idx = pre @ idx' \<and> ev' = ev @ map fst pre \<and> used' = used - idx_bytes pre \<and>
     files' = fold AList.delete (map (\<lambda>e. fst (snd e)) pre) files \<and> (idx \<noteq> [] \<longrightarrow> idx' \<noteq> []) \<and>
     (used' \<le> int maxb \<or> length idx' \<le> 1) \<and>
     (\<forall>j<length pre. int maxb < used - idx_bytes (take j pre))"
proof (induction maxb idx used files ev rule: disk_evict.induct)
  case (1 maxb used files ev)
  then show ?case by auto
next
  case (2 maxb k n l rest used files ev)
  show ?case
  proof (cases "used > int maxb \<and> rest \<noteq> []")
    case False
    with "2.prems" show ?thesis by (intro exI [of _ "[]"]) (auto simp: not_less Suc_le_eq)
  next
    case True
    with "2.prems" have "disk_evict maxb rest (used - l) (AList.delete n files) (ev @ [k]) = (idx', used', files', ev')"
      by simp
    from "2.IH" [OF True this] obtain pre where pre: "rest = pre @ idx'" "ev' = (ev @ [k]) @ map fst pre"
      "used' = used - l - idx_bytes pre" "files' = fold AList.delete (map (\<lambda>e. fst (snd e)) pre) (AList.delete n files)"
      "rest \<noteq> [] \<longrightarrow> idx' \<noteq> []" "used' \<le> int maxb \<or> length idx' \<le> 1"
      "\<forall>j<length pre. int maxb < used - l - idx_bytes (take j pre)" by blast
    have "int maxb < used - idx_bytes (take j ((k, n, l) # pre))" if "j < Suc (length pre)" for j
      using that pre(7) True by (cases j) (auto simp: algebra_simps)
    with pre True show ?thesis by (intro exI [of _ "(k, n, l) # pre"]) auto
  qed
qed

section \<open>Invariant\<close>

text \<open>
  The indexed pages are on disk, with their keys and in the length the index says; the byte count
  is exact and within the bound; and what is queued is not indexed yet. \<open>P\<close> collects the pages that
  were ever put, \<open>K\<close> their keys.
\<close>

definition queued :: "disk_store \<Rightarrow> (string \<times> bytes) list" where
  "queued s = List.map_filter id (ds_queue s)"

definition page_file :: "string \<Rightarrow> bytes \<Rightarrow> bytes" where
  "page_file key data = to_be 4 (length key) @ encode key @ data"

definition entry_ok ::
  "(bytes \<Rightarrow> bytes) \<Rightarrow> (string \<times> bytes) set \<Rightarrow> (string, bytes) dict \<Rightarrow> string \<Rightarrow> string \<times> int \<Rightarrow> bool" where
  "entry_ok sha1 P files k e \<longleftrightarrow>
     fst e = safe_name sha1 k \<and> length k < 256 ^ 4 \<and>
     (\<exists>d. (k, d) \<in> P \<and> snd e = int (length d) \<and> map_of files (fst e) = Some (page_file k d))"

definition disk_inv :: "(bytes \<Rightarrow> bytes) \<Rightarrow> string set \<Rightarrow> (string \<times> bytes) set \<Rightarrow> disk_store \<Rightarrow> bool" where
  "disk_inv sha1 K P s \<longleftrightarrow>
     dict_ok (ds_index s) \<and> fst ` set (ds_index s) \<subseteq> K \<and>
     ds_used s = idx_bytes (ds_index s) \<and> ds_used s \<le> int (ds_max_bytes s) \<and>
     (\<forall>k e. map_of (ds_index s) k = Some e \<longrightarrow> entry_ok sha1 P (dd_files (ds_dir s)) k e) \<and>
     (\<forall>(k, d) \<in> set (queued s). k \<in> K \<and> (k, d) \<in> P \<and> length d \<le> ds_max_bytes s \<and>
        k \<in> ds_inflight s \<and> \<not> has_key (ds_index s) k) \<and>
     distinct (map fst (queued s))"

lemma disk_read_page: "length k < 256 ^ 4 \<Longrightarrow> disk_read (page_file k d) (int (length d)) = Some d"
  by (simp add: disk_read_def page_file_def from_be_to_be Let_def)

lemma entry_ok_mono: "entry_ok sha1 P files k e \<Longrightarrow> P \<subseteq> P' \<Longrightarrow> entry_ok sha1 P' files k e"
  by (auto simp: entry_ok_def)

lemma disk_inv_mono: "disk_inv sha1 K P s \<Longrightarrow> P \<subseteq> P' \<Longrightarrow> disk_inv sha1 K P' s"
  by (fastforce simp: disk_inv_def intro: entry_ok_mono)

lemma disk_invI:
  assumes "dict_ok (ds_index s)" and "fst ` set (ds_index s) \<subseteq> K" and "ds_used s = idx_bytes (ds_index s)"
    and "ds_used s \<le> int (ds_max_bytes s)"
    and "\<And>k e. map_of (ds_index s) k = Some e \<Longrightarrow> entry_ok sha1 P (dd_files (ds_dir s)) k e"
    and "\<And>k d. (k, d) \<in> set (queued s) \<Longrightarrow> k \<in> K \<and> (k, d) \<in> P \<and> length d \<le> ds_max_bytes s \<and> k \<in> ds_inflight s"
    and "\<And>k d. (k, d) \<in> set (queued s) \<Longrightarrow> \<not> has_key (ds_index s) k"
    and "distinct (map fst (queued s))"
  shows "disk_inv sha1 K P s"
  using assms unfolding disk_inv_def by blast

lemma disk_inv_queue:
  "disk_inv sha1 K P s \<Longrightarrow> (k, d) \<in> set (queued s) \<Longrightarrow>
   k \<in> K \<and> (k, d) \<in> P \<and> length d \<le> ds_max_bytes s \<and> k \<in> ds_inflight s \<and> \<not> has_key (ds_index s) k"
  unfolding disk_inv_def by blast

lemma disk_inv_entry:
  "disk_inv sha1 K P s \<Longrightarrow> map_of (ds_index s) k = Some e \<Longrightarrow> entry_ok sha1 P (dd_files (ds_dir s)) k e"
  unfolding disk_inv_def by blast

lemma disk_put_inv:
  assumes "disk_inv sha1 K P s" and "k \<in> K"
  shows "disk_inv sha1 K (insert (k, d) P) (disk_put s k d)"
proof (cases "\<not> ds_running s \<or> length d > ds_max_bytes s \<or> has_key (ds_index s) k \<or> k \<in> ds_inflight s")
  case True
  then have "disk_put s k d = s" by (auto simp: disk_put_def)
  then show ?thesis using disk_inv_mono [OF assms(1), of "insert (k, d) P"] by auto
next
  case False
  then have put: "disk_put s k d = s\<lparr>ds_inflight := insert k (ds_inflight s), ds_queue := ds_queue s @ [Some (k, d)]\<rparr>"
    by (auto simp: disk_put_def)
  have q: "queued (disk_put s k d) = queued s @ [(k, d)]" by (simp add: put queued_def map_filter_def)
  have "disk_inv sha1 K (insert (k, d) P) s" using disk_inv_mono [OF assms(1)] by blast
  then show ?thesis using assms(2) False unfolding disk_inv_def q by (auto simp: put)
qed

lemma disk_remove_inv:
  assumes inj: "inj_on (safe_name sha1) K" and inv: "disk_inv sha1 K P s"
  shows "disk_inv sha1 K P (disk_remove s k)"
proof (cases "map_of (ds_index s) k")
  case None
  then show ?thesis using inv by (simp add: disk_remove_def)
next
  case (Some e)
  obtain n l where e: "e = (n, l)" by fastforce
  have ok: "entry_ok sha1 P (dd_files (ds_dir s)) k (n, l)" using disk_inv_entry [OF inv Some] e by simp
  then have n: "n = safe_name sha1 k" and l: "0 \<le> l" by (auto simp: entry_ok_def)
  have kK: "k \<in> K" using inv map_of_key [OF Some] by (auto simp: disk_inv_def)
  have other: "entry_ok sha1 P (AList.delete n (dd_files (ds_dir s))) k' e'"
    if "map_of (ds_index s) k' = Some e'" "k' \<noteq> k" for k' e'
  proof -
    have "k' \<in> K" using inv map_of_key [OF that(1)] by (auto simp: disk_inv_def)
    then have "safe_name sha1 k' \<noteq> n" using inj kK that(2) n by (auto dest: inj_onD)
    moreover have "entry_ok sha1 P (dd_files (ds_dir s)) k' e'" using inv that(1) by (rule disk_inv_entry)
    ultimately show ?thesis by (auto simp: entry_ok_def)
  qed
  have "dict_ok (ds_index s)" using inv by (simp add: disk_inv_def)
  note bytes = idx_bytes_delete [OF this Some [unfolded e]]
  have "\<not> has_key (AList.delete k (ds_index s)) k'" if "\<not> has_key (ds_index s) k'" for k'
    using that by (simp add: has_key_def)
  with inv Some e l other bytes show ?thesis
    by (auto simp: disk_inv_def disk_remove_def queued_def fst_set_delete split: if_splits)
qed

lemma fold_delete_other: "k \<notin> set ks \<Longrightarrow> map_of (fold AList.delete ks d) k = map_of d k"
  by (simp add: map_of_fold_delete)

lemma dict_suffix:
  "dict_ok (pre @ idx) \<Longrightarrow> map_of idx k = Some e \<Longrightarrow> map_of (pre @ idx) k = Some e \<and> k \<notin> fst ` set pre"
proof -
  assume ok: "dict_ok (pre @ idx)" and k: "map_of idx k = Some e"
  then have no: "k \<notin> fst ` set pre" using map_of_key [OF k] by (auto simp: dict_ok_append)
  then have "map_of pre k = None" by (simp add: map_of_None_fst)
  with k no show ?thesis by (simp add: map_add_def)
qed

lemma move_to_end_new:
  assumes "k \<notin> fst ` set d"
  shows "move_to_end k (AList.update k v d) = d @ [(k, v)]"
proof -
  have "move_to_end k (AList.update k v d) = AList.delete k (AList.update k v d) @ [(k, v)]"
    by (simp add: move_to_end_def)
  also have "AList.delete k (AList.update k v d) = d"
    using assms by (simp add: update_new delete_append delete_absent)
  finally show ?thesis .
qed

lemma disk_write_inv:
  assumes inj: "inj_on (safe_name sha1) K" and inv: "disk_inv sha1 K P s"
    and k: "k \<in> K" "(k, d) \<in> P" "length d \<le> ds_max_bytes s" "\<not> has_key (ds_index s) k" "k \<notin> fst ` set (queued s)"
    and wr: "disk_write sha1 io iof s k d = Inr (s', ev)"
  shows "disk_inv sha1 K P s'"
    and "\<exists>pre. ds_index s @ [(k, safe_name sha1 k, int (length d))] = pre @ ds_index s' \<and> ev = map fst pre \<and>
      dd_files (ds_dir s') = fold AList.delete (map (\<lambda>e. fst (snd e)) pre)
        (AList.update (safe_name sha1 k) (page_file k d) (dd_files (ds_dir s))) \<and>
      (\<forall>j<length pre. int (ds_max_bytes s) < ds_used s + int (length d) - idx_bytes (take j pre))"
    and "k \<in> fst ` set (ds_index s')" and "queued s' = queued s" and "ds_inflight s' = ds_inflight s"
proof -
  let ?n = "safe_name sha1 k" and ?l = "int (length d)" and ?files = "dd_files (ds_dir s)"
  have klen: "length k < 256 ^ 4" using wr by (auto simp: disk_write_def pack_be32_def Let_def split: if_splits)
  let ?files1 = "AList.update ?n (page_file k d) ?files" and ?idx1 = "ds_index s @ [(k, ?n, ?l)]"
  obtain idx' used' files' ev' where evt:
    "disk_evict (ds_max_bytes s) ?idx1 (ds_used s + ?l) ?files1 [] = (idx', used', files', ev')"
    by (metis prod_cases4)
  have knew: "k \<notin> fst ` set (ds_index s)" using k(4) by (simp add: has_key_iff)
  have "move_to_end k (AList.update k (?n, ?l) (ds_index s)) = ?idx1"
    using knew by (rule move_to_end_new)
  then have s': "ds_index s' = idx'" "ds_used s' = used'" "dd_files (ds_dir s') = files'" "ev = ev'"
      "ds_max_bytes s' = ds_max_bytes s" "ds_queue s' = ds_queue s" "ds_inflight s' = ds_inflight s"
    using wr k(4) evt klen
    by (auto simp: disk_write_def pack_be32_def Let_def page_file_def flush_index_def split: if_splits)
  show q: "queued s' = queued s" and "ds_inflight s' = ds_inflight s" using s' by (simp_all add: queued_def)
  obtain pre where pre: "?idx1 = pre @ idx'" "ev' = map fst pre" "used' = ds_used s + ?l - idx_bytes pre"
    "files' = fold AList.delete (map (\<lambda>e. fst (snd e)) pre) ?files1" "idx' \<noteq> []"
    "used' \<le> int (ds_max_bytes s) \<or> length idx' \<le> 1"
    "\<forall>j<length pre. int (ds_max_bytes s) < ds_used s + ?l - idx_bytes (take j pre)"
    using disk_evict_spec [OF evt] by auto
  show "\<exists>pre. ?idx1 = pre @ ds_index s' \<and> ev = map fst pre \<and>
      dd_files (ds_dir s') = fold AList.delete (map (\<lambda>e. fst (snd e)) pre) ?files1 \<and>
      (\<forall>j<length pre. int (ds_max_bytes s) < ds_used s + ?l - idx_bytes (take j pre))"
    using pre s' by auto
  have last: "last idx' = (k, ?n, ?l)" using pre(1,5) by (metis last_appendR last_snoc)
  then show "k \<in> fst ` set (ds_index s')" using pre(5) s'(1) by (metis fst_conv imageI last_in_set)
  have ok1: "dict_ok ?idx1" using inv knew by (auto simp: disk_inv_def dict_ok_append)
  then have okp: "dict_ok (pre @ idx')" unfolding pre(1) .
  have keys: "fst ` set ?idx1 \<subseteq> K" using inv k(1) by (auto simp: disk_inv_def)
  have ent1: "entry_ok sha1 P ?files1 k' e" if "map_of ?idx1 k' = Some e" for k' e
  proof (cases "k' = k")
    case True
    moreover have "map_of (ds_index s) k = None" using knew by (simp add: map_of_None_fst)
    ultimately have "e = (?n, ?l)" using that by (simp add: map_add_def)
    with True k(2) klen show ?thesis by (auto simp: entry_ok_def)
  next
    case False
    then have old: "map_of (ds_index s) k' = Some e" using that by (auto simp: map_add_def split: if_splits option.splits)
    have "k' \<in> K" using inv map_of_key [OF old] by (auto simp: disk_inv_def)
    then have "safe_name sha1 k' \<noteq> ?n" using inj k(1) False by (auto dest: inj_onD)
    then show ?thesis using disk_inv_entry [OF inv old] by (auto simp: entry_ok_def)
  qed
  have ent: "entry_ok sha1 P files' k' e" if "map_of idx' k' = Some e" for k' e
  proof -
    have ks: "map_of ?idx1 k' = Some e" "k' \<notin> fst ` set pre" using dict_suffix [OF okp that] unfolding pre(1) by auto
    have k'K: "k' \<in> K" using keys map_of_key [OF ks(1)] by (rule subsetD)
    have "fst (snd x) \<noteq> safe_name sha1 k'" if x: "x \<in> set pre" for x
    proof -
      have "(fst x, snd x) \<in> set ?idx1" using x unfolding pre(1) by simp
      then have mx: "map_of ?idx1 (fst x) = Some (snd x)" using dict_ok_map_of [OF ok1] by metis
      then have "fst (snd x) = safe_name sha1 (fst x)" using ent1 [OF mx] by (simp add: entry_ok_def)
      moreover have "fst x \<in> K" using keys map_of_key [OF mx] by (rule subsetD)
      moreover have "fst x \<noteq> k'" using x ks(2) by blast
      ultimately show ?thesis using inj_onD [OF inj _ _ k'K, of "fst x"] by auto
    qed
    then have "\<forall>x \<in> set pre. fst (snd x) \<noteq> safe_name sha1 k'" by (rule ballI)
    then have "safe_name sha1 k' \<notin> set (map (\<lambda>e. fst (snd e)) pre)" by auto
    then have "map_of files' (safe_name sha1 k') = map_of ?files1 (safe_name sha1 k')"
      unfolding pre(4) by (rule fold_delete_other)
    with ent1 [OF ks(1)] show ?thesis by (auto simp: entry_ok_def)
  qed
  have "idx_bytes ?idx1 = idx_bytes pre + idx_bytes idx'" unfolding pre(1) by simp
  moreover have "idx_bytes ?idx1 = ds_used s + ?l" using inv by (simp add: disk_inv_def)
  ultimately have used: "used' = idx_bytes idx'" using pre(3) by simp
  have bound: "used' \<le> int (ds_max_bytes s)"
  proof (cases "length idx' \<le> 1")
    case True
    then have "idx' = [(k, ?n, ?l)]" using pre(5) last by (cases idx') auto
    then show ?thesis using used k(3) by simp
  qed (use pre(6) in simp)
  have sub: "fst ` set idx' \<subseteq> fst ` set ?idx1" unfolding pre(1) by auto
  have queue: "\<not> has_key idx' k'" if "(k', d') \<in> set (queued s)" for k' d'
  proof -
    have "k' \<noteq> k" using that k(5) by force
    moreover have "k' \<notin> fst ` set (ds_index s)" using that inv by (auto simp: disk_inv_def has_key_iff)
    ultimately show ?thesis using sub by (auto simp: has_key_iff)
  qed
  have "dict_ok idx'" using okp by (simp add: dict_ok_append)
  moreover have "fst ` set idx' \<subseteq> K" using sub keys by (rule order_trans)
  moreover have "k' \<in> K \<and> (k', d') \<in> P \<and> length d' \<le> ds_max_bytes s \<and> k' \<in> ds_inflight s" "distinct (map fst (queued s))"
    if "(k', d') \<in> set (queued s)" for k' d'
    using disk_inv_queue [OF inv that] inv by (simp_all add: disk_inv_def)
  ultimately show "disk_inv sha1 K P s'"
    using used bound ent queue inv by (intro disk_invI) (simp_all add: q s' disk_inv_def)
qed

lemma has_key_move_to_end [simp]: "has_key (move_to_end k d) k' = has_key d k'"
  by (simp add: has_key_def)

lemma disk_get_inv:
  assumes inv: "disk_inv sha1 K P s"
  shows "disk_inv sha1 K P (fst (disk_get s k))"
proof (cases "map_of (ds_index s) k")
  case None
  then show ?thesis using inv by (simp add: disk_get_def)
next
  case (Some e)
  then have eq: "fst (disk_get s k) = s\<lparr>ds_index := move_to_end k (ds_index s)\<rparr>"
    by (cases e) (simp add: disk_get_def Let_def)
  have "idx_bytes (move_to_end k (ds_index s)) = idx_bytes (ds_index s)"
    using inv by (intro idx_bytes_mset) (simp add: disk_inv_def mset_move_to_end)
  with inv show ?thesis unfolding eq disk_inv_def by (simp add: queued_def)
qed

lemma disk_run_one_Some: "disk_run_one sha1 io iof s = Some r \<Longrightarrow> \<exists>k d rest. ds_queue s = Some (k, d) # rest"
proof -
  assume run: "disk_run_one sha1 io iof s = Some r"
  then obtain x rest where q: "ds_queue s = x # rest" by (cases "ds_queue s") (simp_all add: disk_run_one_def)
  with run obtain kd where "x = Some kd" by (cases x) (simp_all add: disk_run_one_def)
  with q show ?thesis by (cases kd) simp
qed

lemma disk_run_one_eq:
  "ds_queue s = Some (k, d) # rest \<Longrightarrow>
   disk_run_one sha1 io iof s =
     (case disk_write sha1 io iof (s\<lparr>ds_queue := rest\<rparr>) k d of
        Inl _ \<Rightarrow> Some (s\<lparr>ds_queue := rest, ds_inflight := ds_inflight s - {k}\<rparr>, [])
      | Inr (t, ev) \<Rightarrow> Some (t\<lparr>ds_inflight := ds_inflight t - {k}\<rparr>, ev))"
  by (simp add: disk_run_one_def Let_def split: sum.split prod.split)

lemma disk_queue_head:
  assumes inv: "disk_inv sha1 K P s" and q: "ds_queue s = Some (k, d) # rest"
  shows "disk_inv sha1 K P (s\<lparr>ds_queue := rest\<rparr>)" (is "disk_inv _ _ _ ?s")
    and "k \<in> K" and "(k, d) \<in> P" and "length d \<le> ds_max_bytes (s\<lparr>ds_queue := rest\<rparr>)"
    and "\<not> has_key (ds_index (s\<lparr>ds_queue := rest\<rparr>)) k" and "k \<notin> fst ` set (queued (s\<lparr>ds_queue := rest\<rparr>))"
proof -
  have qs: "queued s = (k, d) # queued ?s" by (simp add: queued_def q map_filter_simps)
  show "disk_inv sha1 K P ?s" using inv unfolding disk_inv_def qs by simp
  have "(k, d) \<in> set (queued s)" by (simp add: qs)
  from disk_inv_queue [OF inv this]
  show "k \<in> K" "(k, d) \<in> P" "length d \<le> ds_max_bytes ?s" "\<not> has_key (ds_index ?s) k" by simp_all
  have "distinct (map fst (queued s))" using inv by (simp add: disk_inv_def)
  then show "k \<notin> fst ` set (queued ?s)" by (simp add: qs)
qed

lemma disk_run_one_inv:
  assumes inj: "inj_on (safe_name sha1) K" and inv: "disk_inv sha1 K P s"
    and run: "disk_run_one sha1 io iof s = Some (s', ev)"
  shows "disk_inv sha1 K P s'"
proof -
  obtain k d rest where q: "ds_queue s = Some (k, d) # rest" using disk_run_one_Some [OF run] by blast
  let ?s = "s\<lparr>ds_queue := rest\<rparr>"
  note inv0 = disk_queue_head(1) [OF inv q] and kd = disk_queue_head(2-6) [OF inv q]
  have drop: "disk_inv sha1 K P (t\<lparr>ds_inflight := ds_inflight t - {k}\<rparr>)"
    if "disk_inv sha1 K P t" "k \<notin> fst ` set (queued t)" for t
  proof -
    let ?t = "t\<lparr>ds_inflight := ds_inflight t - {k}\<rparr>"
    have q: "queued ?t = queued t" by (simp add: queued_def)
    have "k' \<noteq> k" if "(k', d') \<in> set (queued t)" for k' d' using that \<open>k \<notin> fst ` set (queued t)\<close> by force
    then show ?thesis
      using disk_inv_queue [OF \<open>disk_inv sha1 K P t\<close>] disk_inv_entry [OF \<open>disk_inv sha1 K P t\<close>] \<open>disk_inv sha1 K P t\<close>
      by (intro disk_invI) (simp_all add: q, simp_all add: disk_inv_def)
  qed
  show ?thesis
  proof (cases "disk_write sha1 io iof ?s k d")
    case (Inl e)
    then have "s' = ?s\<lparr>ds_inflight := ds_inflight ?s - {k}\<rparr>" using run q by (simp add: disk_run_one_eq)
    then show ?thesis using drop [OF inv0 kd(5)] by simp
  next
    case (Inr r)
    obtain t ev' where r: "r = (t, ev')" by fastforce
    then have "s' = t\<lparr>ds_inflight := ds_inflight t - {k}\<rparr>" using run q Inr by (simp add: disk_run_one_eq)
    then show ?thesis
      using drop disk_write_inv(1,4) [OF inj inv0 kd Inr [unfolded r]] kd(5) by simp
  qed
qed

section \<open>Runs\<close>

datatype disk_op = DPut string bytes | DWork bool bool | DGet string | DRemove string

fun disk_step :: "(bytes \<Rightarrow> bytes) \<Rightarrow> disk_store \<Rightarrow> disk_op \<Rightarrow> disk_store" where
  "disk_step sha1 s (DPut k d) = disk_put s k d"
| "disk_step sha1 s (DWork io iof) = (case disk_run_one sha1 io iof s of None \<Rightarrow> s | Some (s', _) \<Rightarrow> s')"
| "disk_step sha1 s (DGet k) = fst (disk_get s k)"
| "disk_step sha1 s (DRemove k) = disk_remove s k"

fun op_pages :: "disk_op \<Rightarrow> (string \<times> bytes) set" where
  "op_pages (DPut k d) = {(k, d)}"
| "op_pages _ = {}"

definition put_pages :: "disk_op list \<Rightarrow> (string \<times> bytes) set" where
  "put_pages ops = (\<Union>op1 \<in> set ops. op_pages op1)"

abbreviation empty_disk :: "nat \<Rightarrow> disk_store" where
  "empty_disk maxb \<equiv> DiskStore \<lparr>dd_files = [], dd_index = None\<rparr> maxb"

lemma disk_step_inv:
  assumes "inj_on (safe_name sha1) K" and "disk_inv sha1 K P s" and "fst ` op_pages op1 \<subseteq> K"
  shows "disk_inv sha1 K (P \<union> op_pages op1) (disk_step sha1 s op1)"
proof (cases op1)
  case (DWork io iof)
  then show ?thesis using assms disk_run_one_inv [OF assms(1,2), of io iof]
    by (cases "disk_run_one sha1 io iof s") auto
qed (use assms in \<open>simp_all add: disk_get_inv disk_remove_inv disk_put_inv\<close>)

lemma disk_run_inv:
  assumes "inj_on (safe_name sha1) K" and "disk_inv sha1 K P s" and "fst ` put_pages ops \<subseteq> K"
  shows "disk_inv sha1 K (P \<union> put_pages ops) (foldl (disk_step sha1) s ops)"
  using assms(2,3)
proof (induction ops arbitrary: s P)
  case Nil
  then show ?case by (simp add: put_pages_def)
next
  case (Cons op1 ops)
  have "disk_inv sha1 K (P \<union> op_pages op1) (disk_step sha1 s op1)"
    using Cons.prems by (intro disk_step_inv [OF assms(1)]) (auto simp: put_pages_def)
  from Cons.IH [OF this] Cons.prems show ?case by (simp add: put_pages_def Un_assoc image_Un)
qed

lemma disk_max_bytes [simp]:
  "ds_max_bytes (flush_index io s) = ds_max_bytes s"
  "ds_max_bytes (disk_put s k d) = ds_max_bytes s"
  "ds_max_bytes (fst (disk_get s k)) = ds_max_bytes s"
  "ds_max_bytes (disk_remove s k) = ds_max_bytes s"
  by (simp_all add: flush_index_def disk_put_def disk_get_def disk_remove_def Let_def split: option.splits prod.splits)

lemma disk_write_max_bytes: "disk_write sha1 io iof s k d = Inr (s', ev) \<Longrightarrow> ds_max_bytes s' = ds_max_bytes s"
  by (auto simp: disk_write_def Let_def bind_result_eq_Inr split: if_splits prod.splits)

lemma disk_step_max_bytes [simp]: "ds_max_bytes (disk_step sha1 s op1) = ds_max_bytes s"
proof (cases op1)
  case (DWork io iof)
  show ?thesis
  proof (cases "disk_run_one sha1 io iof s")
    case (Some r)
    then obtain k d rest where "ds_queue s = Some (k, d) # rest" using disk_run_one_Some by blast
    then show ?thesis using DWork Some disk_write_max_bytes [of sha1 io iof "s\<lparr>ds_queue := rest\<rparr>" k d]
      by (auto simp: disk_run_one_eq split: sum.splits prod.splits)
  qed (use DWork in simp)
qed simp_all

lemma disk_run_max_bytes [simp]: "ds_max_bytes (foldl (disk_step sha1) s ops) = ds_max_bytes s"
  by (induction ops arbitrary: s) simp_all

lemma empty_disk_max_bytes [simp]: "ds_max_bytes (empty_disk maxb) = maxb"
  by (simp add: DiskStore_def load_index_def rebuild_from_scan_def)

lemma empty_disk_inv: "disk_inv sha1 K P (empty_disk maxb)"
  by (simp add: disk_inv_def DiskStore_def load_index_def rebuild_from_scan_def queued_def map_filter_def)

lemma disk_get_entry:
  assumes "disk_inv sha1 K P s" and "map_of (ds_index s) k = Some (n, l)"
  shows "\<exists>d. snd (disk_get s k) = Some d \<and> (k, d) \<in> P \<and> l = int (length d)"
  using disk_inv_entry [OF assms] assms(2) by (auto simp: disk_get_def entry_ok_def disk_read_page Let_def)

section \<open>Restart\<close>

text \<open>The directory holds the files of the indexed pages and no other.\<close>

definition dir_exact :: "disk_store \<Rightarrow> bool" where
  "dir_exact s \<longleftrightarrow>
     dict_ok (dd_files (ds_dir s)) \<and>
     fst ` set (dd_files (ds_dir s)) = (\<lambda>e. fst (snd e)) ` set (ds_index s)"

lemma index_names:
  assumes "disk_inv sha1 K P s"
  shows "(\<lambda>e. fst (snd e)) ` set (ds_index s) = safe_name sha1 ` fst ` set (ds_index s)"
proof -
  have "fst (snd e) = safe_name sha1 (fst e)" if "e \<in> set (ds_index s)" for e
  proof -
    have "dict_ok (ds_index s)" using assms by (simp add: disk_inv_def)
    then have "map_of (ds_index s) (fst e) = Some (snd e)"
      using that dict_ok_map_of [of "ds_index s" "fst e" "snd e"] by simp
    from disk_inv_entry [OF assms this] show ?thesis by (simp add: entry_ok_def)
  qed
  then show ?thesis by (simp add: image_image)
qed

lemma fst_fold_delete: "fst ` set (fold AList.delete ks d) = fst ` set d - set ks"
  by (induction ks arbitrary: d) (auto simp: fst_set_delete)

lemma disk_remove_exact:
  assumes inj: "inj_on (safe_name sha1) K" and inv: "disk_inv sha1 K P s" and ex: "dir_exact s"
  shows "dir_exact (disk_remove s k)"
proof (cases "map_of (ds_index s) k")
  case None
  then show ?thesis using ex by (simp add: disk_remove_def)
next
  case (Some e)
  obtain n l where e: "e = (n, l)" by fastforce
  have inv': "disk_inv sha1 K P (disk_remove s k)" using inj inv by (rule disk_remove_inv)
  have n: "n = safe_name sha1 k" using disk_inv_entry [OF inv Some] e by (simp add: entry_ok_def)
  have K: "fst ` set (ds_index s) \<subseteq> K" using inv by (simp add: disk_inv_def)
  have idx: "fst ` set (ds_index (disk_remove s k)) = fst ` set (ds_index s) - {k}"
    using Some e by (simp add: disk_remove_def fst_set_delete)
  have "safe_name sha1 ` (fst ` set (ds_index s) - {k}) = safe_name sha1 ` fst ` set (ds_index s) - {n}"
    using inj_on_image_set_diff [OF inj, of "fst ` set (ds_index s)" "{k}"] K map_of_key [OF Some] n by auto
  then show ?thesis
    using ex Some e unfolding dir_exact_def index_names [OF inv'] index_names [OF inv] idx
    by (simp add: disk_remove_def fst_set_delete)
qed

lemma disk_write_exact:
  assumes inj: "inj_on (safe_name sha1) K" and inv: "disk_inv sha1 K P s" and ex: "dir_exact s"
    and k: "k \<in> K" "(k, d) \<in> P" "length d \<le> ds_max_bytes s" "\<not> has_key (ds_index s) k" "k \<notin> fst ` set (queued s)"
    and wr: "disk_write sha1 io iof s k d = Inr (s', ev)"
  shows "dir_exact s'"
proof -
  let ?n = "safe_name sha1 k"
  let ?idx1 = "ds_index s @ [(k, ?n, int (length d))]"
  obtain pre where pre: "?idx1 = pre @ ds_index s'"
    and files: "dd_files (ds_dir s') = fold AList.delete (map (\<lambda>e. fst (snd e)) pre)
      (AList.update ?n (page_file k d) (dd_files (ds_dir s)))"
    using disk_write_inv(2) [OF inj inv k wr] by blast
  have inv': "disk_inv sha1 K P s'" by (rule disk_write_inv(1) [OF inj inv k wr])
  have keys: "insert k (fst ` set (ds_index s)) = fst ` set pre \<union> fst ` set (ds_index s')"
    using arg_cong [OF pre, of "\<lambda>x. fst ` set x"] by auto
  have "dict_ok ?idx1" using inv k(4) by (auto simp: disk_inv_def dict_ok_append has_key_iff)
  then have disj: "fst ` set pre \<inter> fst ` set (ds_index s') = {}" unfolding pre by (simp add: dict_ok_append)
  have "(\<lambda>e. fst (snd e)) ` set ?idx1 = safe_name sha1 ` fst ` set ?idx1"
    using index_names [OF inv] by simp
  have nm: "fst (snd x) = safe_name sha1 (fst x)" if "x \<in> set ?idx1" for x
  proof (cases "x \<in> set (ds_index s)")
    case True
    have "dict_ok (ds_index s)" using inv by (simp add: disk_inv_def)
    then have "map_of (ds_index s) (fst x) = Some (snd x)"
      using True dict_ok_map_of [of "ds_index s" "fst x" "snd x"] by simp
    from disk_inv_entry [OF inv this] show ?thesis by (simp add: entry_ok_def)
  qed (use that in simp)
  have names: "(\<lambda>e. fst (snd e)) ` set pre = safe_name sha1 ` fst ` set pre"
    using nm unfolding pre by (simp add: image_image)
  have "insert k (fst ` set (ds_index s)) \<subseteq> K" using inv k(1) by (simp add: disk_inv_def)
  then have K: "fst ` set pre \<union> fst ` set (ds_index s') \<subseteq> K" unfolding keys .
  have "insert ?n (safe_name sha1 ` fst ` set (ds_index s)) - safe_name sha1 ` fst ` set pre =
      safe_name sha1 ` (insert k (fst ` set (ds_index s)) - fst ` set pre)"
    unfolding image_insert [symmetric] keys
    by (rule inj_on_image_set_diff [OF inj, symmetric]) (use K in blast)+
  also have "insert k (fst ` set (ds_index s)) - fst ` set pre = fst ` set (ds_index s')"
    unfolding keys using disj by blast
  finally show ?thesis
    using ex names unfolding dir_exact_def index_names [OF inv'] index_names [OF inv] files fst_fold_delete fst_set_update
    by (simp add: fst_set_update)
qed

lemma disk_step_exact:
  assumes inj: "inj_on (safe_name sha1) K" and inv: "disk_inv sha1 K P s" and ex: "dir_exact s"
  shows "dir_exact (disk_step sha1 s op1)"
proof (cases op1)
  case (DPut k d)
  then show ?thesis using ex by (simp add: dir_exact_def disk_put_def)
next
  case (DWork io iof)
  show ?thesis
  proof (cases "disk_run_one sha1 io iof s")
    case (Some r)
    obtain k d rest where q: "ds_queue s = Some (k, d) # rest" using disk_run_one_Some [OF Some] by blast
    let ?s = "s\<lparr>ds_queue := rest\<rparr>"
    note ready = disk_queue_head [OF inv q]
    have ex0: "dir_exact ?s" using ex by (simp add: dir_exact_def)
    show ?thesis
    proof (cases "disk_write sha1 io iof ?s k d")
      case (Inl e)
      then show ?thesis using ex q DWork by (simp add: dir_exact_def disk_run_one_eq)
    next
      case (Inr x)
      obtain t ev where x: "x = (t, ev)" by fastforce
      have "dir_exact t" by (rule disk_write_exact [OF inj ready(1) ex0 ready(2-6) Inr [unfolded x]])
      then show ?thesis using Inr x q DWork by (simp add: dir_exact_def disk_run_one_eq)
    qed
  qed (use DWork ex in simp)
next
  case (DGet k)
  have "set (move_to_end k (ds_index s)) = set (ds_index s)"
    using inv mset_move_to_end [of "ds_index s" k] by (metis disk_inv_def mset_eq_setD)
  then show ?thesis using DGet ex
    by (cases "map_of (ds_index s) k") (simp_all add: dir_exact_def disk_get_def Let_def split: prod.split)
next
  case (DRemove k)
  then show ?thesis using disk_remove_exact [OF inj inv ex] by simp
qed

lemma disk_run_exact:
  assumes inj: "inj_on (safe_name sha1) K" and "disk_inv sha1 K P s" and "fst ` put_pages ops \<subseteq> K" and "dir_exact s"
  shows "dir_exact (foldl (disk_step sha1) s ops)"
  using assms(2-)
proof (induction ops arbitrary: s P)
  case Nil
  then show ?case by simp
next
  case (Cons op1 ops)
  have "disk_inv sha1 K (P \<union> op_pages op1) (disk_step sha1 s op1)"
    using Cons.prems by (intro disk_step_inv [OF inj]) (auto simp: put_pages_def)
  from Cons.IH [OF this] Cons.prems disk_step_exact [OF inj Cons.prems(1,3)] show ?case
    by (simp add: put_pages_def image_Un)
qed

lemma empty_disk_exact: "dir_exact (empty_disk maxb)"
  by (simp add: dir_exact_def DiskStore_def load_index_def rebuild_from_scan_def)

text \<open>Reading the sidecar back.\<close>

lemma load_entries_json:
  "dict_ok (acc @ idx) \<Longrightarrow> \<forall>(k, n, l) \<in> set idx. has_key files n \<Longrightarrow>
   load_entries files (map (\<lambda>(k, n, l). (k, VList [VStr n, VInt l])) idx) acc used =
     Inr (acc @ idx, used + idx_bytes idx)"
proof (induction idx arbitrary: acc used)
  case Nil
  then show ?case by simp
next
  case (Cons x idx)
  obtain k n l where x: "x = (k, n, l)" by (cases x) auto
  have "AList.update k (n, l) acc = acc @ [(k, n, l)]"
    using Cons.prems(1) x by (intro update_new) (auto simp: dict_ok_append)
  moreover have "dict_ok ((acc @ [(k, n, l)]) @ idx)" using Cons.prems(1) x by simp
  ultimately show ?case using Cons.IH [of "acc @ [(k, n, l)]" "used + l"] Cons.prems(2) x by simp
qed

text \<open>Scanning the page files.\<close>

lemma scan_page_file:
  assumes "length k < 256 ^ 4" and "py_str k"
  shows "scan_file n (page_file k d) (idx, used) = (AList.update k (n, int (length d)) idx, used + int (length d))"
  using assms by (simp add: scan_file_def page_file_def from_be_to_be Let_def)

lemma ends_with_safe_name [simp]: "ends_with (safe_name sha1 k) ''.bin''"
  by (simp add: ends_with_def safe_name_def)

lemma scan_fold:
  assumes "inj_on (safe_name sha1) (set ks)" and "distinct ks"
    and "\<And>k. k \<in> set ks \<Longrightarrow> length k < 256 ^ 4 \<and> py_str k \<and> map_of files (safe_name sha1 k) = Some (page_file k (D k))"
    and "fst ` set idx \<inter> set ks = {}"
  shows "fold (\<lambda>name st. if ends_with name ''.bin''
                then (case map_of files name of None \<Rightarrow> st | Some c \<Rightarrow> scan_file name c st) else st)
      (map (safe_name sha1) ks) (idx, used) =
    (idx @ map (\<lambda>k. (k, safe_name sha1 k, int (length (D k)))) ks, used + (\<Sum>k\<leftarrow>ks. int (length (D k))))"
  using assms
proof (induction ks arbitrary: idx used)
  case Nil
  then show ?case by simp
next
  case (Cons k ks)
  have "AList.update k (safe_name sha1 k, int (length (D k))) idx = idx @ [(k, safe_name sha1 k, int (length (D k)))]"
    using Cons.prems(4) by (intro update_new) auto
  moreover have "fst ` set (idx @ [(k, safe_name sha1 k, int (length (D k)))]) \<inter> set ks = {}"
    using Cons.prems(2,4) by auto
  ultimately show ?case
    using Cons.prems Cons.IH [of "idx @ [(k, safe_name sha1 k, int (length (D k)))]" "used + int (length (D k))"]
    by (simp add: scan_page_file)
qed

lemma list_in_image:
  assumes "set xs \<subseteq> f ` A"
  obtains ys where "xs = map f ys" and "set ys \<subseteq> A"
proof -
  have "\<exists>ys. xs = map f ys \<and> set ys \<subseteq> A" using assms
  proof (induction xs)
    case (Cons x xs)
    then obtain ys y where "xs = map f ys" "set ys \<subseteq> A" "x = f y" "y \<in> A" by auto
    then show ?case by (intro exI [of _ "y # ys"]) simp
  qed simp
  then show thesis using that by blast
qed

lemma distinct_mapI: "distinct (map f xs) \<Longrightarrow> distinct xs"
  by (simp add: distinct_map)

lemma dict_mset_eq: "dict_ok x \<Longrightarrow> dict_ok y \<Longrightarrow> set x = set y \<Longrightarrow> mset x = mset y"
  using set_eq_iff_mset_eq_distinct [OF distinct_mapI [of fst] distinct_mapI [of fst], of x y]
  by (simp add: dict_ok_def)

lemma rescan_recovers:
  assumes inj: "inj_on (safe_name sha1) K" and inv: "disk_inv sha1 K P s" and ex: "dir_exact s"
    and str: "\<And>k. k \<in> K \<Longrightarrow> py_str k"
    and r: "r = DiskStore \<lparr>dd_files = dd_files (ds_dir s), dd_index = None\<rparr> maxb"
  shows "mset (ds_index r) = mset (ds_index s) \<and> ds_used r = ds_used s \<and> dict_ok (ds_index r)"
proof -
  let ?files = "dd_files (ds_dir s)" and ?keys = "fst ` set (ds_index s)"
  have ok: "dict_ok (ds_index s)" and K: "?keys \<subseteq> K" using inv by (simp_all add: disk_inv_def)
  have "\<forall>k \<in> ?keys. \<exists>d. length k < 256 ^ 4 \<and> map_of (ds_index s) k = Some (safe_name sha1 k, int (length d)) \<and>
      map_of ?files (safe_name sha1 k) = Some (page_file k d)"
  proof
    fix k assume "k \<in> ?keys"
    then obtain e where e: "map_of (ds_index s) k = Some e" by (metis map_of_None_fst not_None_eq)
    from disk_inv_entry [OF inv e] e show "\<exists>d. length k < 256 ^ 4 \<and>
        map_of (ds_index s) k = Some (safe_name sha1 k, int (length d)) \<and> map_of ?files (safe_name sha1 k) = Some (page_file k d)"
      by (cases e) (auto simp: entry_ok_def)
  qed
  then obtain D where D: "\<And>k. k \<in> ?keys \<Longrightarrow> length k < 256 ^ 4 \<and>
      map_of (ds_index s) k = Some (safe_name sha1 k, int (length (D k))) \<and>
      map_of ?files (safe_name sha1 k) = Some (page_file k (D k))" by metis
  have names: "fst ` set ?files = safe_name sha1 ` ?keys" using ex index_names [OF inv] by (simp add: dir_exact_def)
  obtain ks where ks: "sort (map fst ?files) = map (safe_name sha1) ks" "set ks \<subseteq> ?keys"
    by (rule list_in_image [of "sort (map fst ?files)" "safe_name sha1" ?keys]) (simp_all add: names)
  have inj': "inj_on (safe_name sha1) ?keys" using inj K by (rule inj_on_subset)
  have "distinct (sort (map fst ?files))" using ex by (simp add: dir_exact_def dict_ok_def)
  then have dist: "distinct ks" unfolding ks(1) by (rule distinct_mapI)
  have "safe_name sha1 ` set ks = safe_name sha1 ` ?keys" using arg_cong [OF ks(1), of set] names by simp
  then have sks: "set ks = ?keys" using inj' ks(2) by (metis inj_on_image_eq_iff order_refl)
  let ?idx = "map (\<lambda>k. (k, safe_name sha1 k, int (length (D k)))) ks"
  let ?scan = "\<lambda>name st. if ends_with name ''.bin''
      then (case map_of ?files name of None \<Rightarrow> st | Some c \<Rightarrow> scan_file name c st) else st"
  have "fold ?scan (map (safe_name sha1) ks) ([], 0) = ([] @ ?idx, 0 + (\<Sum>k\<leftarrow>ks. int (length (D k))))"
  proof (rule scan_fold [OF _ dist])
    show "inj_on (safe_name sha1) (set ks)" unfolding sks by (rule inj')
    show "length k < 256 ^ 4 \<and> py_str k \<and> map_of ?files (safe_name sha1 k) = Some (page_file k (D k))"
      if "k \<in> set ks" for k
      using D [of k] str [of k] K that unfolding sks by blast
  qed simp
  then have scan: "ds_index r = ?idx" "ds_used r = (\<Sum>k\<leftarrow>ks. int (length (D k)))"
    unfolding r DiskStore_def load_index_def rebuild_from_scan_def by (simp_all add: ks(1))
  have dok: "dict_ok ?idx" using dist by (simp add: dict_ok_def comp_def)
  moreover have "set ?idx = set (ds_index s)"
  proof -
    have "(k, e) \<in> set ?idx \<longleftrightarrow> (k, e) \<in> set (ds_index s)" for k e
    proof (cases "k \<in> ?keys")
      case True
      then have "(k, e) \<in> set ?idx \<longleftrightarrow> e = (safe_name sha1 k, int (length (D k)))" using sks by auto
      then show ?thesis using D [OF True] dict_ok_map_of [OF ok, of k e] by auto
    next
      case False
      then have "(k, e) \<notin> set ?idx" unfolding sks [symmetric] by auto
      moreover have "(k, e) \<notin> set (ds_index s)" using False by (metis fst_conv imageI)
      ultimately show ?thesis by blast
    qed
    then show ?thesis by (intro equalityI subrelI) blast+
  qed
  ultimately have ms: "mset ?idx = mset (ds_index s)" by (rule dict_mset_eq [OF _ ok])
  have "ds_used r = idx_bytes ?idx" unfolding scan(2) by (simp add: idx_bytes_def comp_def)
  then show ?thesis
    using ms inv idx_bytes_mset [OF ms] dok scan(1) by (simp add: disk_inv_def)
qed

lemma reload_recovers:
  assumes inv: "disk_inv sha1 K P s" and r: "r = DiskStore (ds_dir (flush_index True s)) maxb"
  shows "ds_index r = ds_index s \<and> ds_used r = ds_used s"
proof -
  have ok: "dict_ok ([] @ ds_index s)" using inv by (simp add: disk_inv_def)
  have "has_key (dd_files (ds_dir s)) n" if "(k, n, l) \<in> set (ds_index s)" for k n l
  proof -
    have "map_of (ds_index s) k = Some (n, l)" using ok that dict_ok_map_of [of "ds_index s" k "(n, l)"] by simp
    from disk_inv_entry [OF inv this] show ?thesis by (auto simp: entry_ok_def has_key_def)
  qed
  then have "\<forall>(k, n, l) \<in> set (ds_index s). has_key (dd_files (ds_dir s)) n" by blast
  note load_entries_json [OF ok this, of 0]
  then show ?thesis
    using inv by (simp add: r DiskStore_def load_index_def flush_index_def index_json_def disk_inv_def)
qed

section \<open>Properties\<close>


definition toy_ops :: "disk_op list" where
  "toy_ops = [DPut ''a'' [1, 2], DPut ''b'' [3], DWork True True, DGet ''a'', DWork True True]"

lemma toy_pages: "put_pages toy_ops = {(''a'', [1, 2]), (''b'', [3])}"
  by (auto simp: put_pages_def toy_ops_def)

lemma toy_names: "inj_on (safe_name id) (fst ` put_pages toy_ops)"
  by (simp add: toy_pages safe_name_def hexdigest_def encode_def hex_digit_def)


text \<open>
  C35. A restart loses nothing: reopening a directory whose index was flushed gives back the same
  index, in the same eviction order, and byte count; reopening it with the sidecar missing rebuilds
  from the page files the same entries and byte count.
\<close>

theorem disk_restart_recovers:
  assumes inj: "inj_on (safe_name sha1) (fst ` put_pages ops)" and str: "\<forall>k \<in> fst ` put_pages ops. py_str k"
    and s: "s = foldl (disk_step sha1) (empty_disk maxb) ops"
    and flushed: "r = DiskStore (ds_dir (flush_index True s)) maxb"
    and lost: "r' = DiskStore \<lparr>dd_files = dd_files (ds_dir s), dd_index = None\<rparr> maxb"
  shows "ds_index r = ds_index s \<and> ds_used r = ds_used s \<and>
    mset (ds_index r') = mset (ds_index s) \<and> ds_used r' = ds_used s \<and>
    (\<forall>k. snd (disk_get r k) = snd (disk_get s k) \<and> snd (disk_get r' k) = snd (disk_get s k))"
proof -
  let ?K = "fst ` put_pages ops"
  have inv: "disk_inv sha1 ?K (put_pages ops) s"
    using disk_run_inv [OF inj empty_disk_inv [where P = "{}"] order_refl, of maxb] s by simp
  have ex: "dir_exact s"
    unfolding s by (rule disk_run_exact [OF inj empty_disk_inv [where P = "{}"] order_refl empty_disk_exact])
  note a = reload_recovers [OF inv flushed]
  have b: "mset (ds_index r') = mset (ds_index s) \<and> ds_used r' = ds_used s \<and> dict_ok (ds_index r')"
    using str by (intro rescan_recovers [OF inj inv ex _ lost]) blast
  have "dict_ok (ds_index s)" using inv by (simp add: disk_inv_def)
  then have maps: "map_of (ds_index r') = map_of (ds_index s)"
    using b by (metis dict_ok_def map_of_inject_set mset_eq_setD)
  have "dd_files (ds_dir r) = dd_files (ds_dir s)" "dd_files (ds_dir r') = dd_files (ds_dir s)"
    by (simp_all add: flushed lost DiskStore_def load_index_def rebuild_from_scan_def flush_index_def index_json_def
        Let_def split: sum.split prod.split)
  then have "snd (disk_get r k) = snd (disk_get s k)" "snd (disk_get r' k) = snd (disk_get s k)" for k
    using a maps by (simp_all add: disk_get_def Let_def split: option.split)
  with a b show ?thesis by simp
qed

theorem disk_restart_recovers_witness:
  "ds_used (DiskStore \<lparr>dd_files = dd_files (ds_dir (foldl (disk_step id) (empty_disk 2) toy_ops)), dd_index = None\<rparr> 2) =
   ds_used (foldl (disk_step id) (empty_disk 2) toy_ops)"
proof -
  have "\<forall>k \<in> fst ` put_pages toy_ops. py_str k" by (simp add: toy_pages py_str_def)
  from disk_restart_recovers [OF toy_names this refl refl refl, of 2] show ?thesis by simp
qed

end
