(* ===== verification/Rpc.thy ===== *)
theory Rpc
  imports Wire
begin

text \<open>
  The control-plane RPC (\<^verbatim>\<open>python/peercache/rpc.py\<close>).

  A socket is what is still to come from the peer: a list of chunks as TCP delivers them, a fault
  (timeout, reset) where one strikes, and the end of the list for an orderly close. The codec
  (msgpack, with a JSON fallback) is a parameter, with the one law that what it encodes it decodes;
  so are the two renderings of values as text that go into error messages. A handler is a state
  transformer that may raise.

  \<open>rpc_call\<close> is the contract the other components rely on: run the handler, or fail. The lemmas
  show the byte-level client and server implement it, however TCP cuts the stream.
\<close>

section \<open>Sockets and frames\<close>

datatype chunk = Chunk bytes | Fault

fun sock_recv :: "chunk list \<Rightarrow> nat \<Rightarrow> chunk list \<times> bytes result" where
  "sock_recv [] n = ([], Inr [])"
| "sock_recv (Fault # cs) n = (cs, Inl OSError)"
| "sock_recv (Chunk b # cs) n =
     (if length b \<le> n then (cs, Inr b) else (Chunk (drop n b) # cs, Inr (take n b)))"

function recv_loop :: "chunk list \<Rightarrow> nat \<Rightarrow> bytes \<Rightarrow> chunk list \<times> bytes option result" where
  "recv_loop cs n got =
     (if length got < n
      then case sock_recv cs (n - length got) of
             (cs, Inl e) \<Rightarrow> (cs, Inl e)
           | (cs, Inr b) \<Rightarrow> if b = [] then (cs, Inr None) else recv_loop cs n (got @ b)
      else (cs, Inr (Some got)))"
  by auto
termination by (relation "measure (\<lambda>(cs, n, got). n - length got)") (auto intro!: diff_less_mono2)

declare recv_loop.simps [simp del]

definition recv_exact :: "chunk list \<Rightarrow> nat \<Rightarrow> chunk list \<times> bytes option result" where
  "recv_exact cs n = recv_loop cs n []"

text \<open>The bytes \<open>_send_frame\<close> hands to \<open>sendall\<close>.\<close>

definition send_frame :: "bytes \<Rightarrow> bytes result" where
  "send_frame payload = fmap_result (\<lambda>hdr. hdr @ payload) (pack_be32 (length payload))"

definition recv_frame :: "chunk list \<Rightarrow> chunk list \<times> bytes option result" where
  "recv_frame cs =
     (case recv_exact cs 4 of
        (cs, Inl e) \<Rightarrow> (cs, Inl e)
      | (cs, Inr None) \<Rightarrow> (cs, Inr None)
      | (cs, Inr (Some header)) \<Rightarrow> recv_exact cs (from_be header))"

text \<open>The length of what is to come; it bounds the number of frames still to be served.\<close>

fun chunk_size :: "chunk \<Rightarrow> nat" where
  "chunk_size (Chunk b) = length b"
| "chunk_size Fault = 0"

definition stream_size :: "chunk list \<Rightarrow> nat" where
  "stream_size cs = sum_list (map chunk_size cs)"

lemma stream_size_simps [simp]:
  "stream_size [] = 0" "stream_size (c # cs) = chunk_size c + stream_size cs"
  by (simp_all add: stream_size_def)

lemma sock_recv_size:
  "sock_recv cs n = (cs', Inr b) \<Longrightarrow> stream_size cs = length b + stream_size cs' \<and> length b \<le> n"
  by (cases "(cs, n)" rule: sock_recv.cases) (auto split: if_splits)

lemma recv_loop_size:
  "recv_loop cs n got = (cs', Inr (Some b)) \<Longrightarrow> length got \<le> n \<Longrightarrow>
   length b = n \<and> stream_size cs + length got = n + stream_size cs'"
proof (induction cs n got rule: recv_loop.induct)
  case (1 cs n got)
  show ?case
  proof (cases "length got < n")
    case False
    with 1(2,3) show ?thesis by (subst (asm) recv_loop.simps) simp
  next
    case True
    obtain cs1 r where r: "sock_recv cs (n - length got) = (cs1, r)" by fastforce
    with 1(2) True obtain x where x: "r = Inr x" "x \<noteq> []" "recv_loop cs1 n (got @ x) = (cs', Inr (Some b))"
      by (subst (asm) recv_loop.simps) (auto split: sum.splits if_splits)
    from sock_recv_size [of cs] r x(1) have sz: "stream_size cs = length x + stream_size cs1" "length x \<le> n - length got"
      by auto
    from 1(1) [OF True r [symmetric] x(1,2,3)] sz(2) True
    have "length b = n \<and> stream_size cs1 + length (got @ x) = n + stream_size cs'" by simp
    with sz(1) show ?thesis by simp
  qed
qed

lemma recv_frame_size:
  assumes "recv_frame cs = (cs', Inr (Some b))"
  shows "stream_size cs = 4 + length b + stream_size cs'"
proof -
  obtain cs1 r where r: "recv_exact cs 4 = (cs1, r)" by fastforce
  with assms obtain h where h: "r = Inr (Some h)" "recv_exact cs1 (from_be h) = (cs', Inr (Some b))"
    by (auto simp: recv_frame_def split: sum.splits option.splits)
  from r h(1) have "stream_size cs = 4 + stream_size cs1"
    using recv_loop_size [of cs 4 "[]" cs1 h] by (simp add: recv_exact_def)
  moreover from h(2) have "stream_size cs1 = length b + stream_size cs'"
    using recv_loop_size [of cs1 "from_be h" "[]" cs' b] by (simp add: recv_exact_def)
  ultimately show ?thesis by simp
qed

section \<open>The server\<close>

record codec =
  dumps :: "pyval \<Rightarrow> bytes result"
  loads :: "bytes \<Rightarrow> pyval result"

definition codec_ok :: "codec \<Rightarrow> bool" where
  "codec_ok C \<longleftrightarrow> (\<forall>v b. dumps C v = Inr b \<longrightarrow> loads C b = Inr v)"

text \<open>\<open>str(v)\<close> of a method that is not a string, and \<open>repr(e)\<close>.\<close>

record texts =
  str_of :: "pyval \<Rightarrow> string"
  repr_of :: "exn \<Rightarrow> string"

type_synonym 's handler = "'s \<Rightarrow> pyval \<Rightarrow> 's \<times> pyval result"
type_synonym 's handlers = "(string, 's handler) dict"

definition rpc_register :: "'s handlers \<Rightarrow> string \<Rightarrow> 's handler \<Rightarrow> 's handlers" where
  "rpc_register hs name fn = AList.update name fn hs"

text \<open>\<open>a, b = v\<close> for a decoded request or response.\<close>

fun unpack_pair :: "pyval \<Rightarrow> (pyval \<times> pyval) result" where
  "unpack_pair (VList [a, b]) = Inr (a, b)"
| "unpack_pair (VList _) = Inl ValueError"
| "unpack_pair (VDict [(a, _), (b, _)]) = Inr (VStr a, VStr b)"
| "unpack_pair (VDict _) = Inl ValueError"
| "unpack_pair (VBytes [a, b]) = Inr (VInt (uint a), VInt (uint b))"
| "unpack_pair (VBytes _) = Inl ValueError"
| "unpack_pair (VStr [a, b]) =
     (if of_char a < (128 :: nat) \<and> of_char b < (128 :: nat) then Inr (VStr [a], VStr [b]) else Inl ValueError)"
| "unpack_pair (VStr _) = Inl ValueError"
| "unpack_pair _ = Inl TypeError"

text \<open>\<open>args or {}\<close>.\<close>

definition or_empty :: "pyval \<Rightarrow> pyval" where
  "or_empty args = (if truthy args then args else VDict [])"

text \<open>
  The response to one request; a method that cannot be a dictionary key ends the connection with a
  \<open>TypeError\<close>.
\<close>

definition dispatch :: "texts \<Rightarrow> 's handlers \<Rightarrow> 's \<Rightarrow> pyval \<Rightarrow> pyval \<Rightarrow> ('s \<times> pyval) result" where
  "dispatch T hs st meth args =
     (case meth of
        VList _ \<Rightarrow> Inl TypeError
      | VDict _ \<Rightarrow> Inl TypeError
      | VStr name \<Rightarrow>
          Inr (case map_of hs name of
                 None \<Rightarrow> (st, VList [VBool False, VStr (''unknown method: '' @ name)])
               | Some h \<Rightarrow>
                   (case h st (or_empty args) of
                      (st, Inr v) \<Rightarrow> (st, VList [VBool True, v])
                    | (st, Inl e) \<Rightarrow> (st, VList [VBool False, VStr (repr_of T e)])))
      | v \<Rightarrow> Inr (st, VList [VBool False, VStr (''unknown method: '' @ str_of T v)]))"

text \<open>
  One turn of \<open>_serve_conn\<close>'s loop on a received frame: the new state and the bytes written back.
\<close>

definition serve_frame :: "codec \<Rightarrow> texts \<Rightarrow> 's handlers \<Rightarrow> 's \<Rightarrow> bytes \<Rightarrow> 's \<times> bytes result" where
  "serve_frame C T hs st frame =
     (case bind_result (loads C frame) unpack_pair of
        Inl e \<Rightarrow> (st, Inl e)
      | Inr (meth, args) \<Rightarrow>
          (case dispatch T hs st meth args of
             Inl e \<Rightarrow> (st, Inl e)
           | Inr (st, resp) \<Rightarrow> (st, bind_result (dumps C resp) send_frame)))"

text \<open>
  \<open>_serve_conn\<close> until the peer closes or an exception ends its thread: final state, all the bytes
  written, and the exception.
\<close>

function serve_conn ::
  "codec \<Rightarrow> texts \<Rightarrow> 's handlers \<Rightarrow> 's \<Rightarrow> chunk list \<Rightarrow> 's \<times> bytes \<times> exn option" where
  "serve_conn C T hs st cs =
     (case recv_frame cs of
        (cs, Inl e) \<Rightarrow> (st, [], Some e)
      | (cs, Inr None) \<Rightarrow> (st, [], None)
      | (cs, Inr (Some frame)) \<Rightarrow>
          (case serve_frame C T hs st frame of
             (st, Inl e) \<Rightarrow> (st, [], Some e)
           | (st, Inr reply) \<Rightarrow>
               (let (st, out, e) = serve_conn C T hs st cs in (st, reply @ out, e))))"
  by auto
termination
  by (relation "measure (\<lambda>(C, T, hs, st, cs). stream_size cs)", simp)
    (drule sym, drule sym, simp add: recv_frame_size)

declare serve_conn.simps [simp del]

text \<open>What a call of a method gives its caller, and does to the server.\<close>

definition rpc_call :: "'s handlers \<Rightarrow> 's \<Rightarrow> string \<Rightarrow> pyval \<Rightarrow> 's \<times> pyval result" where
  "rpc_call hs st name args =
     (case map_of hs name of
        None \<Rightarrow> (st, Inl RuntimeError)
      | Some h \<Rightarrow>
          (case h st (or_empty args) of
             (st, Inr v) \<Rightarrow> (st, Inr v)
           | (st, Inl e) \<Rightarrow> (st, Inl RuntimeError)))"

section \<open>The client\<close>

text \<open>
  A connection: what the peer will send on it, what was written to it, whether writes to it fail.
\<close>

record conn =
  cn_in :: "chunk list"
  cn_out :: bytes
  cn_broken :: bool

record rpc_client =
  rc_host :: string
  rc_port :: nat
  rc_sock :: "conn option"

definition RpcClient :: "string \<Rightarrow> rpc_client result" where
  "RpcClient ep =
     (case rsplit_colon ep of
        None \<Rightarrow> Inl ValueError
      | Some (host, port) \<Rightarrow> fmap_result (\<lambda>p. \<lparr>rc_host = host, rc_port = p, rc_sock = None\<rparr>) (parse_nat port))"

text \<open>The body of the \<open>try\<close> once a socket is there: send, receive, decode, check the flag.\<close>

definition rpc_exchange :: "codec \<Rightarrow> conn \<Rightarrow> bytes \<Rightarrow> conn \<times> pyval result" where
  "rpc_exchange C cn payload =
     (case send_frame payload of
        Inl e \<Rightarrow> (cn, Inl e)
      | Inr bs \<Rightarrow>
          if cn_broken cn then (cn, Inl OSError)
          else
            let (cs, r) = recv_frame (cn_in cn);
                cn = cn\<lparr>cn_in := cs, cn_out := cn_out cn @ bs\<rparr>
            in (cn, bind_result r (\<lambda>frame. case frame of
                      None \<Rightarrow> Inl ConnectionError
                    | Some f \<Rightarrow> bind_result (bind_result (loads C f) unpack_pair) (\<lambda>(ok, res).
                        if truthy ok then Inr res else Inl RuntimeError))))"

definition rpc_reset :: "rpc_client \<Rightarrow> rpc_client" where
  "rpc_reset c = c\<lparr>rc_sock := None\<rparr>"

definition rpc_close :: "rpc_client \<Rightarrow> rpc_client" where
  "rpc_close c = rpc_reset c"

definition is_os_error :: "exn \<Rightarrow> bool" where
  "is_os_error e \<longleftrightarrow> e = OSError \<or> e = ConnectionError"

text \<open>
  The attempts of \<open>call\<close>. \<open>conns\<close> are the outcomes of the connects it makes, in order; a list that
  ran out is a refused connect.
\<close>

fun rpc_connect :: "conn result list \<Rightarrow> conn result \<times> conn result list" where
  "rpc_connect [] = (Inl OSError, [])"
| "rpc_connect (r # rs) = (r, rs)"

primrec rpc_attempts ::
  "codec \<Rightarrow> bytes \<Rightarrow> nat \<Rightarrow> conn result list \<Rightarrow> rpc_client \<Rightarrow> rpc_client \<times> conn result list \<times> pyval result" where
  "rpc_attempts C payload 0 conns c = (c, conns, Inl RuntimeError)"
| "rpc_attempts C payload (Suc k) conns c =
     (let (r, conns) = (case rc_sock c of Some cn \<Rightarrow> (Inr cn, conns) | None \<Rightarrow> rpc_connect conns);
          (c, res) = (case r of
              Inl e \<Rightarrow> (c, Inl e)
            | Inr cn \<Rightarrow> (let (cn, v) = rpc_exchange C cn payload in (c\<lparr>rc_sock := Some cn\<rparr>, v)))
      in case res of
           Inr v \<Rightarrow> (c, conns, Inr v)
         | Inl e \<Rightarrow>
             if is_os_error e
             then (if k = 0 then (rpc_reset c, conns, Inl e) else rpc_attempts C payload k conns (rpc_reset c))
             else (c, conns, Inl e))"

definition client_call ::
  "codec \<Rightarrow> conn result list \<Rightarrow> rpc_client \<Rightarrow> string \<Rightarrow> pyval \<Rightarrow> rpc_client \<times> conn result list \<times> pyval result" where
  "client_call C conns c name args =
     (case dumps C (VList [VStr name, or_empty args]) of
        Inl e \<Rightarrow> (c, conns, Inl e)
      | Inr payload \<Rightarrow> rpc_attempts C payload 2 conns c)"

section \<open>The client pool\<close>

record rpc_pool =
  rp_max_idle :: nat
  rp_idle :: "(string, rpc_client list) dict"

definition RpcClientPool :: "int \<Rightarrow> rpc_pool" where
  "RpcClientPool max_idle = \<lparr>rp_max_idle = nat (max 1 max_idle), rp_idle = []\<rparr>"

definition pool_acquire :: "rpc_pool \<Rightarrow> string \<Rightarrow> rpc_pool \<times> rpc_client result" where
  "pool_acquire p ep =
     (case map_of (rp_idle p) ep of
        Some idle \<Rightarrow>
          if idle \<noteq> [] then (p\<lparr>rp_idle := AList.update ep (butlast idle) (rp_idle p)\<rparr>, Inr (last idle))
          else (p, RpcClient ep)
      | None \<Rightarrow> (p, RpcClient ep))"

definition pool_release :: "rpc_pool \<Rightarrow> string \<Rightarrow> rpc_client \<Rightarrow> rpc_pool" where
  "pool_release p ep c =
     (let idle = (case map_of (rp_idle p) ep of None \<Rightarrow> [] | Some xs \<Rightarrow> xs)
      in p\<lparr>rp_idle := AList.update ep (if length idle < rp_max_idle p then idle @ [c] else idle) (rp_idle p)\<rparr>)"

definition pool_call ::
  "codec \<Rightarrow> conn result list \<Rightarrow> rpc_pool \<Rightarrow> string \<Rightarrow> string \<Rightarrow> pyval \<Rightarrow> rpc_pool \<times> conn result list \<times> pyval result" where
  "pool_call C conns p ep name args =
     (case pool_acquire p ep of
        (p, Inl e) \<Rightarrow> (p, conns, Inl e)
      | (p, Inr c) \<Rightarrow>
          (case client_call C conns c name args of
             (c, conns, Inl e) \<Rightarrow> (p, conns, Inl e)
           | (c, conns, Inr v) \<Rightarrow> (pool_release p ep c, conns, Inr v)))"

definition rpc_pool_close :: "rpc_pool \<Rightarrow> rpc_pool" where
  "rpc_pool_close p = p\<lparr>rp_idle := []\<rparr>"

section \<open>Framing\<close>

text \<open>A stream without faults; TCP never delivers an empty chunk before the close.\<close>

definition clean :: "chunk list \<Rightarrow> bool" where
  "clean cs \<longleftrightarrow> Fault \<notin> set cs \<and> Chunk [] \<notin> set cs"

fun stream_bytes :: "chunk list \<Rightarrow> bytes" where
  "stream_bytes [] = []"
| "stream_bytes (Chunk b # cs) = b @ stream_bytes cs"
| "stream_bytes (Fault # cs) = []"

lemma clean_simps [simp]:
  "clean []" "clean (Chunk b # cs) \<longleftrightarrow> b \<noteq> [] \<and> clean cs" "\<not> clean (Fault # cs)"
  by (auto simp: clean_def)

lemma sock_recv_clean:
  assumes "clean cs" and "0 < n"
  obtains cs' b where "sock_recv cs n = (cs', Inr b)" and "clean cs'" and "length b \<le> n"
    and "stream_bytes cs = b @ stream_bytes cs'" and "b = [] \<longleftrightarrow> stream_bytes cs = []"
  using assms by (cases "(cs, n)" rule: sock_recv.cases) (fastforce split: if_splits)+

lemma recv_loop_clean:
  "clean cs \<Longrightarrow> length got \<le> n \<Longrightarrow>
   (n \<le> length (got @ stream_bytes cs) \<longrightarrow>
     (\<exists>cs'. recv_loop cs n got = (cs', Inr (Some (take n (got @ stream_bytes cs)))) \<and>
       clean cs' \<and> stream_bytes cs' = drop n (got @ stream_bytes cs))) \<and>
   (\<not> n \<le> length (got @ stream_bytes cs) \<longrightarrow> (\<exists>cs'. recv_loop cs n got = (cs', Inr None)))"
proof (induction cs n got rule: recv_loop.induct)
  case (1 cs n got)
  show ?case
  proof (cases "length got < n")
    case False
    with 1(2,3) show ?thesis by (subst (1 2) recv_loop.simps) simp
  next
    case True
    then have "0 < n - length got" by simp
    from sock_recv_clean [OF 1(2) this] obtain cs1 b where r: "sock_recv cs (n - length got) = (cs1, Inr b)"
      "clean cs1" "length b \<le> n - length got" "stream_bytes cs = b @ stream_bytes cs1"
      "b = [] \<longleftrightarrow> stream_bytes cs = []" by blast
    show ?thesis
    proof (cases "b = []")
      case True
      with \<open>length got < n\<close> r have "recv_loop cs n got = (cs1, Inr None)"
        by (subst recv_loop.simps) simp
      with True \<open>length got < n\<close> r(5) show ?thesis by simp
    next
      case False
      with True r have eq: "recv_loop cs n got = recv_loop cs1 n (got @ b)"
        by (subst recv_loop.simps) simp
      have all: "got @ stream_bytes cs = (got @ b) @ stream_bytes cs1" using r(4) by simp
      have "length (got @ b) \<le> n" using r(3) True by simp
      then show ?thesis unfolding eq all by (rule 1(1) [OF True r(1) [symmetric] refl False r(2)])
    qed
  qed
qed

lemma recv_exact_enough:
  assumes "clean cs" and "n \<le> length (stream_bytes cs)"
  obtains cs' where "recv_exact cs n = (cs', Inr (Some (take n (stream_bytes cs))))" and "clean cs'"
    and "stream_bytes cs' = drop n (stream_bytes cs)"
  using recv_loop_clean [OF assms(1), of "[]" n] assms(2) unfolding recv_exact_def append_Nil by auto

lemma recv_exact_short:
  assumes "clean cs" and "\<not> n \<le> length (stream_bytes cs)"
  obtains cs' where "recv_exact cs n = (cs', Inr None)"
  using recv_loop_clean [OF assms(1), of "[]" n] assms(2) unfolding recv_exact_def append_Nil by auto

lemma send_frame_eq:
  "send_frame p = Inr f \<longleftrightarrow> length p < 256 ^ 4 \<and> f = to_be 4 (length p) @ p"
  by (auto simp: send_frame_def pack_be32_def)

lemma recv_frame_clean:
  assumes cs: "clean cs" and f: "send_frame p = Inr f" and s: "stream_bytes cs = f @ rest"
  obtains cs' where "recv_frame cs = (cs', Inr (Some p))" and "clean cs'" and "stream_bytes cs' = rest"
proof -
  from f have f: "length p < 256 ^ 4" "f = to_be 4 (length p) @ p" by (simp_all add: send_frame_eq)
  have "4 \<le> length (stream_bytes cs)" using s f by simp
  from recv_exact_enough [OF cs this] obtain cs1 where 0: "recv_exact cs 4 = (cs1, Inr (Some (take 4 (stream_bytes cs))))"
    "clean cs1" "stream_bytes cs1 = drop 4 (stream_bytes cs)" .
  then have 1: "recv_exact cs 4 = (cs1, Inr (Some (to_be 4 (length p))))" "clean cs1" "stream_bytes cs1 = p @ rest"
    using s f by simp_all
  have "length p \<le> length (stream_bytes cs1)" using 1(3) by simp
  from recv_exact_enough [OF 1(2) this] obtain cs2 where
    2: "recv_exact cs1 (length p) = (cs2, Inr (Some p))" "clean cs2" "stream_bytes cs2 = rest"
    using 1(3) by (metis append_eq_conv_conj)
  from 1(1) 2(1) f(1) have "recv_frame cs = (cs2, Inr (Some p))"
    by (simp add: recv_frame_def from_be_to_be)
  with 2 that show thesis by blast
qed

lemma recv_frame_short:
  assumes cs: "clean cs" and f: "send_frame p = Inr f" and s: "stream_bytes cs = take k f" "k < length f"
  shows "\<exists>cs'. recv_frame cs = (cs', Inr None)"
proof -
  from f have f: "length p < 256 ^ 4" "f = to_be 4 (length p) @ p" by (simp_all add: send_frame_eq)
  show ?thesis
  proof (cases "k < 4")
    case True
    then have "\<not> 4 \<le> length (stream_bytes cs)" using s by simp
    from recv_exact_short [OF cs this] obtain cs1 where "recv_exact cs 4 = (cs1, Inr None)" .
    then show ?thesis by (simp add: recv_frame_def)
  next
    case False
    then have "4 \<le> length (stream_bytes cs)" using s f by simp
    from recv_exact_enough [OF cs this] obtain cs1 where 0: "recv_exact cs 4 = (cs1, Inr (Some (take 4 (stream_bytes cs))))"
      "clean cs1" "stream_bytes cs1 = drop 4 (stream_bytes cs)" .
    then have 1: "recv_exact cs 4 = (cs1, Inr (Some (to_be 4 (length p))))" "clean cs1" "stream_bytes cs1 = take (k - 4) p"
      using s f False by simp_all
    from s(2) f False 1(3) have "\<not> length p \<le> length (stream_bytes cs1)" by auto
    from recv_exact_short [OF 1(2) this] obtain cs2 where "recv_exact cs1 (length p) = (cs2, Inr None)" .
    with 1(1) f(1) show ?thesis by (simp add: recv_frame_def from_be_to_be)
  qed
qed

lemma recv_frame_empty: "clean cs \<Longrightarrow> stream_bytes cs = [] \<Longrightarrow> \<exists>cs'. recv_frame cs = (cs', Inr None)"
  by (rule recv_exact_short [of cs 4]) (simp_all add: recv_frame_def)

text \<open>The frames a receiver gets until the stream ends.\<close>

function recv_frames :: "chunk list \<Rightarrow> bytes list" where
  "recv_frames cs = (case recv_frame cs of (cs', Inr (Some f)) \<Rightarrow> f # recv_frames cs' | _ \<Rightarrow> [])"
  by auto
termination by (relation "measure stream_size") (auto dest!: recv_frame_size [OF sym])

declare recv_frames.simps [simp del]

lemma map_result_Cons:
  "map_result f (x # xs) = Inr ys \<longleftrightarrow> (\<exists>z zs. f x = Inr z \<and> map_result f xs = Inr zs \<and> ys = z # zs)"
  by (auto simp: bind_result_eq_Inr)

lemma recv_frames_concat:
  "clean cs \<Longrightarrow> map_result send_frame ps = Inr fs \<Longrightarrow> stream_bytes cs = concat fs @ tail \<Longrightarrow>
   \<exists>cs'. recv_frames cs = ps @ recv_frames cs' \<and> clean cs' \<and> stream_bytes cs' = tail"
proof (induction ps arbitrary: cs fs)
  case Nil
  then show ?case by auto
next
  case (Cons p ps)
  from Cons.prems(2) obtain f gs where f: "send_frame p = Inr f" "map_result send_frame ps = Inr gs" "fs = f # gs"
    unfolding map_result_Cons by blast
  with Cons.prems(3) have "stream_bytes cs = f @ (concat gs @ tail)" by simp
  from recv_frame_clean [OF Cons.prems(1) f(1) this] obtain cs1 where
    1: "recv_frame cs = (cs1, Inr (Some p))" "clean cs1" "stream_bytes cs1 = concat gs @ tail" .
  from Cons.IH [OF 1(2) f(2) 1(3)] 1(1) show ?case by (subst recv_frames.simps) simp
qed

text \<open>
  C31. Framing survives TCP: whatever way the stream is cut into chunks, the receiver gets exactly
  the payloads that were sent, in order. If the connection closes inside a further frame, it gets
  the complete ones and never a truncated one.
\<close>

theorem frames_survive_segmentation:
  assumes "clean cs" and "map_result send_frame ps = Inr fs" and "send_frame q = Inr g"
    and "stream_bytes cs = concat fs @ take k g" and "k < length g"
  shows "recv_frames cs = ps"
proof -
  from recv_frames_concat [OF assms(1,2,4)] obtain cs' where
    1: "recv_frames cs = ps @ recv_frames cs'" "clean cs'" "stream_bytes cs' = take k g" by blast
  from recv_frame_short [OF 1(2) assms(3) 1(3) assms(5)] have "recv_frames cs' = []"
    by (subst recv_frames.simps) auto
  with 1(1) show ?thesis by simp
qed

lemma to_be_4:
  "to_be 4 n = [of_nat (n div 256 div 256 div 256 mod 256), of_nat (n div 256 div 256 mod 256),
                of_nat (n div 256 mod 256), of_nat (n mod 256)]"
proof -
  have four: "4 = Suc (Suc (Suc (Suc 0)))" by simp
  show ?thesis unfolding to_be_def four by simp
qed

theorem frames_survive_segmentation_witness:
  "recv_frames [Chunk [0, 0], Chunk [0, 1, 7, 0], Chunk [0, 0]] = [[7]]"
proof (rule frames_survive_segmentation [where q = "[]" and g = "to_be 4 0" and k = 3 and fs = "[to_be 4 1 @ [7]]"])
  show "map_result send_frame [[7]] = Inr [to_be 4 1 @ [7]]" by (simp add: send_frame_def pack_be32_def)
  show "send_frame [] = Inr (to_be 4 0)" by (simp add: send_frame_eq)
  show "stream_bytes [Chunk [0, 0], Chunk [0, 1, 7, 0], Chunk [0, 0]] = concat [to_be 4 1 @ [7]] @ take 3 (to_be 4 0)"
    by (simp add: to_be_4)
qed simp_all

section \<open>A session of calls\<close>

text \<open>The contract of a sequence of calls, and the same sequence through a client.\<close>

fun rpc_session :: "'s handlers \<Rightarrow> 's \<Rightarrow> (string \<times> pyval) list \<Rightarrow> 's \<times> pyval result list" where
  "rpc_session hs st [] = (st, [])"
| "rpc_session hs st ((m, a) # rs) =
     (let (st, r) = rpc_call hs st m a; (st, vs) = rpc_session hs st rs in (st, r # vs))"

fun client_session :: "codec \<Rightarrow> rpc_client \<Rightarrow> (string \<times> pyval) list \<Rightarrow> rpc_client \<times> pyval result list" where
  "client_session C c [] = (c, [])"
| "client_session C c ((m, a) # rs) =
     (let (c, _, r) = client_call C [] c m a; (c, vs) = client_session C c rs in (c, r # vs))"

definition request_frame :: "codec \<Rightarrow> string \<times> pyval \<Rightarrow> bytes result" where
  "request_frame C r = bind_result (dumps C (VList [VStr (fst r), or_empty (snd r)])) send_frame"

lemma or_empty_idem [simp]: "or_empty (or_empty a) = or_empty a"
  by (simp add: or_empty_def)

lemma dispatch_call:
  assumes "dispatch T hs st (VStr m) (or_empty a) = Inr (st', resp)"
  obtains ok v where "resp = VList [VBool ok, v]"
    and "rpc_call hs st m a = (st', if ok then Inr v else Inl RuntimeError)"
proof (cases "map_of hs m")
  case None
  with assms that [of False] show thesis by (auto simp: dispatch_def rpc_call_def)
next
  case (Some h)
  obtain st1 r where h: "h st (or_empty a) = (st1, r)" by fastforce
  show thesis
  proof (cases r)
    case (Inl e)
    with assms Some h that [of False] show thesis by (auto simp: dispatch_def rpc_call_def)
  next
    case (Inr v)
    with assms Some h that [of True v] show thesis by (simp add: dispatch_def rpc_call_def)
  qed
qed

lemma serve_frame_call:
  assumes "codec_ok C" and "dumps C (VList [VStr m, or_empty a]) = Inr p" and "serve_frame C T hs st p = (st', Inr reply)"
  obtains ok v q where "rpc_call hs st m a = (st', if ok then Inr v else Inl RuntimeError)"
    and "dumps C (VList [VBool ok, v]) = Inr q" and "send_frame q = Inr reply"
proof -
  from assms(1,2) have "loads C p = Inr (VList [VStr m, or_empty a])" by (simp add: codec_ok_def)
  with assms(3) obtain resp where resp: "dispatch T hs st (VStr m) (or_empty a) = Inr (st', resp)"
    "bind_result (dumps C resp) send_frame = Inr reply"
    by (auto simp: serve_frame_def split: sum.splits)
  from dispatch_call [OF resp(1)] obtain ok v where ok: "resp = VList [VBool ok, v]"
    "rpc_call hs st m a = (st', if ok then Inr v else Inl RuntimeError)" by blast
  from resp(2) obtain q where "dumps C resp = Inr q" "send_frame q = Inr reply" by (auto simp: bind_result_eq_Inr)
  with ok that show thesis by blast
qed

lemma client_call_reply:
  assumes C: "codec_ok C" and req: "request_frame C (m, a) = Inr f"
    and c: "rc_sock c = Some \<lparr>cn_in = rs, cn_out = o1, cn_broken = False\<rparr>" and rs: "clean rs" "stream_bytes rs = reply @ rest"
    and q: "dumps C (VList [VBool ok, v]) = Inr q" "send_frame q = Inr reply"
  obtains rs' where "client_call C conns c m a =
      (c\<lparr>rc_sock := Some \<lparr>cn_in = rs', cn_out = o1 @ f, cn_broken = False\<rparr>\<rparr>, conns, if ok then Inr v else Inl RuntimeError)"
    and "clean rs'" and "stream_bytes rs' = rest"
proof -
  from req obtain p where p: "dumps C (VList [VStr m, or_empty a]) = Inr p" "send_frame p = Inr f"
    by (auto simp: request_frame_def bind_result_eq_Inr)
  from recv_frame_clean [OF rs(1) q(2) rs(2)] obtain rs' where
    rs': "recv_frame rs = (rs', Inr (Some q))" "clean rs'" "stream_bytes rs' = rest" .
  have two: "2 = Suc 1" by simp
  from C q(1) have "loads C q = Inr (VList [VBool ok, v])" by (simp add: codec_ok_def)
  with p c rs' have "client_call C conns c m a =
      (c\<lparr>rc_sock := Some \<lparr>cn_in = rs', cn_out = o1 @ f, cn_broken = False\<rparr>\<rparr>, conns, if ok then Inr v else Inl RuntimeError)"
    unfolding client_call_def two by (simp add: rpc_exchange_def is_os_error_def)
  with rs' that show thesis by blast
qed

text \<open>
  C30. The byte-level client and server implement the call contract: over one connection, cut into
  chunks in any way in either direction, every call of a session gives the caller what the handler
  returned (or a \<open>RuntimeError\<close> if it raised or does not exist), in order, and the server's state is
  that of running the handlers one after the other.
\<close>

theorem rpc_session_implements_calls:
  assumes "codec_ok C" and "map_result (request_frame C) reqs = Inr fs"
    and "clean cs" and "stream_bytes cs = concat fs" and "serve_conn C T hs st cs = (st', out, None)"
    and "clean rs" and "stream_bytes rs = out"
    and "rc_sock c = Some \<lparr>cn_in = rs, cn_out = o1, cn_broken = False\<rparr>"
  shows "rpc_session hs st reqs = (st', snd (client_session C c reqs))"
  using assms(2-)
proof (induction reqs arbitrary: st fs cs out rs c o1)
  case Nil
  then obtain cs' where "recv_frame cs = (cs', Inr None)" using recv_frame_empty by fastforce
  with Nil.prems(4) show ?case by (subst (asm) serve_conn.simps) simp
next
  case (Cons r reqs)
  obtain m a where r: "r = (m, a)" by fastforce
  from Cons.prems(1) obtain f gs where f: "request_frame C (m, a) = Inr f" "map_result (request_frame C) reqs = Inr gs" "fs = f # gs"
    unfolding map_result_Cons r by blast
  then obtain p where p: "dumps C (VList [VStr m, or_empty a]) = Inr p" "send_frame p = Inr f"
    by (auto simp: request_frame_def bind_result_eq_Inr)
  from recv_frame_clean [OF Cons.prems(2) p(2)] Cons.prems(3) f(3) obtain cs1 where
    1: "recv_frame cs = (cs1, Inr (Some p))" "clean cs1" "stream_bytes cs1 = concat gs" by auto
  with Cons.prems(4) obtain st1 reply out1 where s: "serve_frame C T hs st p = (st1, Inr reply)"
    "serve_conn C T hs st1 cs1 = (st', out1, None)" "out = reply @ out1"
    by (subst (asm) serve_conn.simps) (auto split: prod.splits sum.splits)
  from serve_frame_call [OF assms(1) p(1) s(1)] obtain ok v q where
    q: "rpc_call hs st m a = (st1, if ok then Inr v else Inl RuntimeError)"
      "dumps C (VList [VBool ok, v]) = Inr q" "send_frame q = Inr reply" .
  from Cons.prems(6) s(3) have "stream_bytes rs = reply @ out1" by simp
  from client_call_reply [OF assms(1) f(1) Cons.prems(7,5) this q(2,3), of "[]"] obtain rs' where
    rs': "client_call C [] c m a = (c\<lparr>rc_sock := Some \<lparr>cn_in = rs', cn_out = o1 @ f, cn_broken = False\<rparr>\<rparr>, [],
            if ok then Inr v else Inl RuntimeError)" "clean rs'" "stream_bytes rs' = out1" .
  let ?c = "c\<lparr>rc_sock := Some \<lparr>cn_in = rs', cn_out = o1 @ f, cn_broken = False\<rparr>\<rparr>"
  have "rpc_session hs st1 reqs = (st', snd (client_session C ?c reqs))"
    by (rule Cons.IH [OF f(2) 1(2,3) s(2) rs'(2,3), of _ "o1 @ f"]) simp
  with q(1) rs'(1) show ?case by (simp add: r split: prod.split)
qed

text \<open>A codec of two messages, and a server that counts its calls.\<close>

definition toy_codec :: codec where
  "toy_codec =
     \<lparr>dumps = (\<lambda>v. if v = VList [VStr ''m'', VDict []] then Inr [0]
                  else if v = VList [VBool True, VInt 5] then Inr [1] else Inl TypeError),
      loads = (\<lambda>b. if b = [0] then Inr (VList [VStr ''m'', VDict []])
                  else if b = [1] then Inr (VList [VBool True, VInt 5]) else Inl ValueError)\<rparr>"

definition toy_handlers :: "nat handlers" where
  "toy_handlers = rpc_register [] ''m'' (\<lambda>n a. (n + 1, Inr (VInt 5)))"

lemma toy_codec_ok: "codec_ok toy_codec"
  by (simp add: codec_ok_def toy_codec_def)

lemma toy_frames:
  "request_frame toy_codec (''m'', VNone) = Inr [0, 0, 0, 1, 0]"
  "recv_frame [Chunk [0, 0], Chunk [0, 1, 0]] = ([], Inr (Some [0]))" "recv_frame [] = ([], Inr None)"
  by (simp_all add: request_frame_def or_empty_def toy_codec_def send_frame_def pack_be32_def to_be_4
      recv_frame_def recv_exact_def recv_loop.simps from_be_def)

lemma toy_server:
  "serve_conn toy_codec T toy_handlers n [Chunk [0, 0], Chunk [0, 1, 0]] = (n + 1, [0, 0, 0, 1, 1], None)"
proof -
  have "serve_conn toy_codec T toy_handlers st [] = (st, [], None)" for st
    by (subst serve_conn.simps) (simp add: toy_frames)
  moreover have "serve_frame toy_codec T toy_handlers n [0] = (n + 1, Inr [0, 0, 0, 1, 1])"
    by (simp add: serve_frame_def toy_codec_def dispatch_def toy_handlers_def rpc_register_def
        or_empty_def send_frame_def pack_be32_def to_be_4)
  ultimately show ?thesis by (subst serve_conn.simps) (simp add: toy_frames)
qed

theorem rpc_session_implements_calls_witness:
  "snd (client_session toy_codec \<lparr>rc_host = ''h'', rc_port = 1,
      rc_sock = Some \<lparr>cn_in = [Chunk [0], Chunk [0, 0, 1, 1]], cn_out = [], cn_broken = False\<rparr>\<rparr> [(''m'', VNone)]) = [Inr (VInt 5)]"
proof -
  have "rpc_session toy_handlers 3 [(''m'', VNone)] = (3 + 1, snd (client_session toy_codec \<lparr>rc_host = ''h'', rc_port = 1,
      rc_sock = Some \<lparr>cn_in = [Chunk [0], Chunk [0, 0, 1, 1]], cn_out = [], cn_broken = False\<rparr>\<rparr> [(''m'', VNone)]))"
    by (rule rpc_session_implements_calls [OF toy_codec_ok _ _ _ toy_server, where fs = "[[0, 0, 0, 1, 0]]"])
      (simp_all add: toy_frames)
  then show ?thesis by (simp add: toy_handlers_def rpc_register_def rpc_call_def)
qed

section \<open>The pool of clients\<close>

text \<open>
  An idle client is connected, its socket is not known to be broken, and it belongs to the endpoint
  it is filed under.
\<close>

definition idle_ok :: "string \<Rightarrow> rpc_client \<Rightarrow> bool" where
  "idle_ok ep c \<longleftrightarrow>
     (\<exists>cn. rc_sock c = Some cn \<and> \<not> cn_broken cn) \<and> RpcClient ep = Inr (c\<lparr>rc_sock := None\<rparr>)"

definition rpc_pool_inv :: "rpc_pool \<Rightarrow> bool" where
  "rpc_pool_inv p \<longleftrightarrow>
     (\<forall>ep idle. map_of (rp_idle p) ep = Some idle \<longrightarrow> length idle \<le> rp_max_idle p \<and> (\<forall>c \<in> set idle. idle_ok ep c))"

lemma rpc_pool_invI:
  assumes "\<And>ep idle. map_of (rp_idle p) ep = Some idle \<Longrightarrow> length idle \<le> rp_max_idle p"
    and "\<And>ep idle c. map_of (rp_idle p) ep = Some idle \<Longrightarrow> c \<in> set idle \<Longrightarrow> idle_ok ep c"
  shows "rpc_pool_inv p"
  using assms unfolding rpc_pool_inv_def by blast

lemma rpc_exchange_ok: "rpc_exchange C cn p = (cn', Inr v) \<Longrightarrow> \<not> cn_broken cn'"
  by (auto simp: rpc_exchange_def Let_def split: sum.splits if_splits prod.splits)

lemma rpc_attempts_client:
  "rpc_attempts C p k conns c = (c', conns', r) \<Longrightarrow>
   c'\<lparr>rc_sock := None\<rparr> = c\<lparr>rc_sock := None\<rparr> \<and>
   (\<forall>v. r = Inr v \<longrightarrow> (\<exists>cn. rc_sock c' = Some cn \<and> \<not> cn_broken cn)) \<and> length conns \<le> length conns' + k"
proof (induction k arbitrary: conns c)
  case 0
  then show ?case by auto
next
  case (Suc k)
  obtain r1 conns1 where r1: "(case rc_sock c of Some cn \<Rightarrow> (Inr cn, conns) | None \<Rightarrow> rpc_connect conns) = (r1, conns1)"
    by fastforce
  then have len: "length conns \<le> Suc (length conns1)" by (cases conns) (auto split: option.splits)
  obtain c1 res where c1: "(case r1 of Inl e \<Rightarrow> (c, Inl e)
            | Inr cn \<Rightarrow> (case rpc_exchange C cn p of (cn, v) \<Rightarrow> (c\<lparr>rc_sock := Some cn\<rparr>, v))) = (c1, res)" by fastforce
  have same: "c1\<lparr>rc_sock := None\<rparr> = c\<lparr>rc_sock := None\<rparr>"
    using c1 by (cases r1) (auto split: prod.splits)
  have sock: "\<exists>cn. rc_sock c1 = Some cn \<and> \<not> cn_broken cn" if "res = Inr v" for v
    using c1 that by (cases r1) (auto split: prod.splits dest: rpc_exchange_ok)
  have step: "(case res of Inr v \<Rightarrow> (c1, conns1, Inr v) | Inl e \<Rightarrow>
             if is_os_error e
             then (if k = 0 then (rpc_reset c1, conns1, Inl e) else rpc_attempts C p k conns1 (rpc_reset c1))
             else (c1, conns1, Inl e)) = (c', conns', r)"
    using Suc.prems unfolding rpc_attempts.simps r1 Let_def case_prod_conv c1 by simp
  show ?case
  proof (cases "\<exists>e. res = Inl e \<and> is_os_error e \<and> k \<noteq> 0")
    case True
    with step have "rpc_attempts C p k conns1 (rpc_reset c1) = (c', conns', r)" by auto
    from Suc.IH [OF this] same len show ?thesis by (simp add: rpc_reset_def)
  next
    case False
    show ?thesis
    proof (cases res)
      case (Inl e)
      with False step have "conns' = conns1" "r = Inl e" "c' = c1 \<or> c' = rpc_reset c1" by (auto split: if_splits)
      with same len show ?thesis by (auto simp: rpc_reset_def)
    next
      case (Inr v)
      with step have "conns' = conns1" "r = Inr v" "c' = c1" by simp_all
      with same len sock [OF Inr] show ?thesis by simp
    qed
  qed
qed

lemma client_call_client:
  assumes "client_call C conns c m a = (c', conns', r)"
  shows "c'\<lparr>rc_sock := None\<rparr> = c\<lparr>rc_sock := None\<rparr>"
    and "r = Inr v \<Longrightarrow> \<exists>cn. rc_sock c' = Some cn \<and> \<not> cn_broken cn"
    and "length conns \<le> length conns' + 2"
  using assms rpc_attempts_client [of C _ 2 conns c c' conns' r]
  by (auto simp: client_call_def split: sum.splits)

text \<open>The calls of a pool, each with the outcomes of the connects it may make.\<close>

type_synonym use_of_pool = "conn result list \<times> string \<times> string \<times> pyval"

definition pool_use :: "codec \<Rightarrow> rpc_pool \<Rightarrow> use_of_pool \<Rightarrow> rpc_pool" where
  "pool_use C p u = (case u of (conns, ep, m, a) \<Rightarrow> fst (pool_call C conns p ep m a))"

lemma RpcClient_sock: "RpcClient ep = Inr c \<Longrightarrow> c\<lparr>rc_sock := None\<rparr> = c"
  by (auto simp: RpcClient_def fmap_result_eq_Inr split: option.splits)

lemma pool_acquire_inv:
  assumes inv: "rpc_pool_inv p" and a: "pool_acquire p ep = (p', r)"
  shows "rpc_pool_inv p' \<and> rp_max_idle p' = rp_max_idle p \<and> (\<forall>c. r = Inr c \<longrightarrow> RpcClient ep = Inr (c\<lparr>rc_sock := None\<rparr>))"
proof (cases "\<exists>idle. map_of (rp_idle p) ep = Some idle \<and> idle \<noteq> []")
  case True
  then obtain idle where idle: "map_of (rp_idle p) ep = Some idle" "idle \<noteq> []" by blast
  with inv have ok: "length idle \<le> rp_max_idle p" "\<And>c. c \<in> set idle \<Longrightarrow> idle_ok ep c"
    by (auto simp: rpc_pool_inv_def)
  from a idle have p': "p' = p\<lparr>rp_idle := AList.update ep (butlast idle) (rp_idle p)\<rparr>" and r: "r = Inr (last idle)"
    by (simp_all add: pool_acquire_def)
  have "rpc_pool_inv p'"
    using inv ok in_set_butlastD unfolding p'
    by (intro rpc_pool_invI) (force simp: rpc_pool_inv_def split: if_splits)+
  with p' r ok(2) [OF last_in_set [OF idle(2)]] show ?thesis by (simp add: idle_ok_def)
next
  case False
  with a have "p' = p" "r = RpcClient ep" by (auto simp: pool_acquire_def split: option.splits)
  with inv show ?thesis by (auto simp: RpcClient_sock)
qed

lemma pool_release_max [simp]: "rp_max_idle (pool_release p ep c) = rp_max_idle p"
  by (simp add: pool_release_def Let_def)

lemma pool_release_inv:
  assumes inv: "rpc_pool_inv p" and c: "idle_ok ep c"
  shows "rpc_pool_inv (pool_release p ep c)"
proof -
  let ?idle = "case map_of (rp_idle p) ep of None \<Rightarrow> [] | Some xs \<Rightarrow> xs"
  have old: "length ?idle \<le> rp_max_idle p" "\<And>x. x \<in> set ?idle \<Longrightarrow> idle_ok ep x"
    using inv by (auto simp: rpc_pool_inv_def split: option.splits) (metis)
  define new where "new = (if length ?idle < rp_max_idle p then ?idle @ [c] else ?idle)"
  have new: "length new \<le> rp_max_idle p" "\<And>x. x \<in> set new \<Longrightarrow> idle_ok ep x"
    using old c by (auto simp: new_def split: if_splits)
  have eq: "pool_release p ep c = p\<lparr>rp_idle := AList.update ep new (rp_idle p)\<rparr>"
    by (simp add: pool_release_def new_def Let_def)
  show ?thesis
    unfolding eq using inv new by (intro rpc_pool_invI) (force simp: rpc_pool_inv_def split: if_splits)+
qed

lemma pool_use_inv:
  assumes inv: "rpc_pool_inv p"
  shows "rpc_pool_inv (pool_use C p u) \<and> rp_max_idle (pool_use C p u) = rp_max_idle p"
proof -
  obtain conns ep m a where u: "u = (conns, ep, m, a)" by (cases u) auto
  obtain p1 r where a: "pool_acquire p ep = (p1, r)" by fastforce
  note acq = pool_acquire_inv [OF inv a]
  show ?thesis
  proof (cases r)
    case (Inl e)
    with a acq show ?thesis by (simp add: pool_use_def u pool_call_def)
  next
    case (Inr c)
    obtain c' conns' v where call: "client_call C conns c m a = (c', conns', v)" by (metis prod_cases3)
    show ?thesis
    proof (cases v)
      case (Inl e)
      with Inr a call acq show ?thesis by (simp add: pool_use_def u pool_call_def)
    next
      case v: (Inr x)
      from client_call_client(1,2) [OF call] v acq Inr have "idle_ok ep c'" by (simp add: idle_ok_def)
      then have "rpc_pool_inv (pool_release p1 ep c')" using acq by (simp add: pool_release_inv)
      with Inr v a call acq show ?thesis by (simp add: pool_use_def u pool_call_def)
    qed
  qed
qed



end
