(* ===== verification/Directory.thy ===== *)
theory Directory
  imports Rpc Hashring
begin

text \<open>
  The distributed directory (\<^verbatim>\<open>python/peercache/directory.py\<close>).

  A shard is the dictionary of one node; the shards of a cluster are a function of the control
  endpoint that hosts them. \<open>resolve\<close> is the client's membership lookup (node id to control
  endpoint) and \<open>up\<close> says which endpoints answer during an operation: a call to any other one
  raises, as a refused or lost connection does. Calls go through the handler table that \<open>attach\<close>
  registers.
\<close>

section \<open>The shard\<close>

type_synonym shard = "(string, pyval) dict"

definition keys_arg :: "pyval \<Rightarrow> string list result" where
  "keys_arg args = bind_result (bind_result (item args ''keys'') as_list) (map_result as_str)"

definition on_put :: "shard handler" where
  "on_put store args =
     (case bind_result (item args ''entries'') as_dict of
        Inl e \<Rightarrow> (store, Inl e)
      | Inr entries \<Rightarrow> (dict_update store entries, Inr (VDict [(''ok'', VBool True)])))"

definition on_get :: "shard handler" where
  "on_get store args =
     (store, fmap_result (\<lambda>keys.
        VDict [(''locations'', VList (map (\<lambda>k. case map_of store k of None \<Rightarrow> VNone | Some v \<Rightarrow> v) keys))])
        (keys_arg args))"

definition on_exists :: "shard handler" where
  "on_exists store args =
     (store, fmap_result (\<lambda>keys. VDict [(''exists'', VList (map (\<lambda>k. VBool (has_key store k)) keys))])
        (keys_arg args))"

definition on_delete :: "shard handler" where
  "on_delete store args =
     (case keys_arg args of
        Inl e \<Rightarrow> (store, Inl e)
      | Inr keys \<Rightarrow> (fold AList.delete keys store, Inr (VDict [(''ok'', VBool True)])))"

definition dir_attach :: "shard handlers \<Rightarrow> shard handlers" where
  "dir_attach rpc =
     rpc_register (rpc_register (rpc_register (rpc_register rpc
       ''dir_put'' on_put) ''dir_get'' on_get) ''dir_exists'' on_exists) ''dir_delete'' on_delete"

definition shard_len :: "shard \<Rightarrow> nat" where
  "shard_len store = length store"

section \<open>The client\<close>

record dir_client =
  dc_ring :: hash_ring
  dc_replicas :: nat

definition DirectoryClient :: "hash_ring \<Rightarrow> int \<Rightarrow> dir_client" where
  "DirectoryClient ring replicas = \<lparr>dc_ring = ring, dc_replicas = nat (max 1 replicas)\<rparr>"

definition set_ring :: "dir_client \<Rightarrow> hash_ring \<Rightarrow> dir_client" where
  "set_ring c ring = c\<lparr>dc_ring := ring\<rparr>"

type_synonym shards = "string \<Rightarrow> shard"
type_synonym resolver = "string \<Rightarrow> string option"

text \<open>\<open>self._pool.call(endpoint, ...)\<close>.\<close>

definition dir_rpc :: "(string \<Rightarrow> bool) \<Rightarrow> shards \<Rightarrow> string \<Rightarrow> string \<Rightarrow> pyval \<Rightarrow> shards \<times> pyval result" where
  "dir_rpc up sh ep name args =
     (if up ep
      then let (s, r) = rpc_call (dir_attach []) (sh ep) name args in (sh(ep := s), r)
      else (sh, Inl ConnectionError))"

definition owners :: "digest \<Rightarrow> dir_client \<Rightarrow> string \<Rightarrow> string list" where
  "owners B c key =
     (if dc_replicas c = 1
      then case get_node B (dc_ring c) key of None \<Rightarrow> [] | Some node \<Rightarrow> if node = [] then [] else [node]
      else get_nodes B (dc_ring c) key (dc_replicas c))"

definition group_by_owner :: "digest \<Rightarrow> dir_client \<Rightarrow> string list \<Rightarrow> (string, string list) dict" where
  "group_by_owner B c keys =
     fold (\<lambda>k groups. case owners B c k of [] \<Rightarrow> groups | p # _ \<Rightarrow> append_at p k groups) keys []"

text \<open>\<open>per_node.setdefault(owner, {})[key] = value\<close>.\<close>

definition put_at :: "'n \<Rightarrow> 'k \<Rightarrow> 'v \<Rightarrow> ('n, ('k, 'v) dict) dict \<Rightarrow> ('n, ('k, 'v) dict) dict" where
  "put_at n k v d =
     AList.update n (AList.update k v (case map_of d n of None \<Rightarrow> [] | Some m \<Rightarrow> m)) d"

definition put_plan :: "digest \<Rightarrow> dir_client \<Rightarrow> (string, data_location) dict \<Rightarrow> (string, shard) dict" where
  "put_plan B c entries =
     fold (\<lambda>(key, loc). fold (\<lambda>owner. put_at owner key (VDict (loc_to_dict loc))) (owners B c key)) entries []"

text \<open>The best-effort calls of \<open>put\<close> and \<open>delete\<close>: one per node, failures ignored.\<close>

definition send_plan ::
  "resolver \<Rightarrow> (string \<Rightarrow> bool) \<Rightarrow> string \<Rightarrow> (string \<times> pyval) list \<Rightarrow> shards \<Rightarrow> shards" where
  "send_plan resolve up name plan sh =
     fold (\<lambda>(node_id, args) sh. case resolve node_id of None \<Rightarrow> sh | Some ep \<Rightarrow> fst (dir_rpc up sh ep name args)) plan sh"

definition dir_put ::
  "digest \<Rightarrow> dir_client \<Rightarrow> resolver \<Rightarrow> (string \<Rightarrow> bool) \<Rightarrow> shards \<Rightarrow> (string, data_location) dict \<Rightarrow> shards" where
  "dir_put B c resolve up sh entries =
     send_plan resolve up ''dir_put''
       (map (\<lambda>(n, es). (n, VDict [(''entries'', VDict es)])) (put_plan B c entries)) sh"

definition parse_location :: "pyval \<Rightarrow> data_location option result" where
  "parse_location r =
     (if truthy r then fmap_result Some (bind_result (as_dict r) loc_from_dict) else Inr None)"

fun ask_candidates ::
  "resolver \<Rightarrow> (string \<Rightarrow> bool) \<Rightarrow> shards \<Rightarrow> string list \<Rightarrow> string list \<Rightarrow> data_location option list" where
  "ask_candidates resolve up sh [] grp = replicate (length grp) None"
| "ask_candidates resolve up sh (node_id # rest) grp =
     (case resolve node_id of
        None \<Rightarrow> ask_candidates resolve up sh rest grp
      | Some ep \<Rightarrow>
          (case bind_result (snd (dir_rpc up sh ep ''dir_get'' (VDict [(''keys'', VList (map VStr grp))]))) (\<lambda>resp.
                bind_result (bind_result (item_or resp ''locations'' (VList [])) as_list) (map_result parse_location)) of
             Inr locs \<Rightarrow> locs
           | Inl _ \<Rightarrow> ask_candidates resolve up sh rest grp))"

definition get_from_owner ::
  "digest \<Rightarrow> dir_client \<Rightarrow> resolver \<Rightarrow> (string \<Rightarrow> bool) \<Rightarrow> shards \<Rightarrow> string list \<Rightarrow> string \<Rightarrow> data_location option list" where
  "get_from_owner B c resolve up sh grp primary =
     (let candidates = (if dc_replicas c > 1 then fold (\<lambda>k _. owners B c k) (take 1 grp) [primary] else [primary])
      in ask_candidates resolve up sh candidates grp)"

text \<open>\<open>[result[k] for k in keys]\<close> of a dictionary that has all the keys.\<close>

definition read_all :: "'v \<Rightarrow> ('k, 'v) dict \<Rightarrow> 'k list \<Rightarrow> 'v list" where
  "read_all dflt d keys = map (\<lambda>k. case map_of d k of None \<Rightarrow> dflt | Some v \<Rightarrow> v) keys"

definition dir_get ::
  "digest \<Rightarrow> dir_client \<Rightarrow> resolver \<Rightarrow> (string \<Rightarrow> bool) \<Rightarrow> shards \<Rightarrow> string list \<Rightarrow> data_location option list" where
  "dir_get B c resolve up sh keys =
     (let result = fold (\<lambda>k. AList.update k None) keys [];
          result = fold (\<lambda>(owner, grp) result.
                      dict_update result (zip grp (get_from_owner B c resolve up sh grp owner)))
                     (group_by_owner B c keys) result
      in read_all None result keys)"

definition dir_exists ::
  "digest \<Rightarrow> dir_client \<Rightarrow> resolver \<Rightarrow> (string \<Rightarrow> bool) \<Rightarrow> shards \<Rightarrow> string list \<Rightarrow> bool list" where
  "dir_exists B c resolve up sh keys =
     (let result = fold (\<lambda>k. AList.update k False) keys [];
          result = fold (\<lambda>(owner, grp) result.
                      case resolve owner of
                        None \<Rightarrow> result
                      | Some ep \<Rightarrow>
                          (case bind_result (snd (dir_rpc up sh ep ''dir_exists'' (VDict [(''keys'', VList (map VStr grp))]))) (\<lambda>resp.
                                bind_result (item_or resp ''exists'' (VList [])) as_list) of
                             Inl _ \<Rightarrow> result
                           | Inr exs \<Rightarrow> dict_update result (zip grp (map truthy exs))))
                     (group_by_owner B c keys) result
      in read_all False result keys)"

definition delete_plan :: "digest \<Rightarrow> dir_client \<Rightarrow> string list \<Rightarrow> (string, string list) dict" where
  "delete_plan B c keys = fold (\<lambda>k. fold (\<lambda>owner. append_at owner k) (owners B c k)) keys []"

definition dir_delete ::
  "digest \<Rightarrow> dir_client \<Rightarrow> resolver \<Rightarrow> (string \<Rightarrow> bool) \<Rightarrow> shards \<Rightarrow> string list \<Rightarrow> shards" where
  "dir_delete B c resolve up sh keys =
     send_plan resolve up ''dir_delete''
       (map (\<lambda>(n, ks). (n, VDict [(''keys'', VList (map VStr ks))])) (delete_plan B c keys)) sh"

section \<open>Calls to a shard\<close>

lemma keys_arg_VStr [simp]: "keys_arg (VDict [(''keys'', VList (map VStr ks))]) = Inr ks"
  by (simp add: keys_arg_def field_def map_result_map)

lemma dir_rpc_down: "\<not> up ep \<Longrightarrow> dir_rpc up sh ep m args = (sh, Inl ConnectionError)"
  by (simp add: dir_rpc_def)

lemma dir_rpc_put:
  "fst (dir_rpc up sh ep ''dir_put'' (VDict [(''entries'', VDict es)])) =
     (if up ep then sh(ep := dict_update (sh ep) es) else sh)"
  by (simp add: dir_rpc_def rpc_call_def dir_attach_def rpc_register_def or_empty_def on_put_def field_def)

lemma dir_rpc_delete:
  "fst (dir_rpc up sh ep ''dir_delete'' (VDict [(''keys'', VList (map VStr ks))])) =
     (if up ep then sh(ep := fold AList.delete ks (sh ep)) else sh)"
  by (simp add: dir_rpc_def rpc_call_def dir_attach_def rpc_register_def or_empty_def on_delete_def)

lemma dir_rpc_get:
  "up ep \<Longrightarrow> snd (dir_rpc up sh ep ''dir_get'' (VDict [(''keys'', VList (map VStr ks))])) =
     Inr (VDict [(''locations'', VList (map (\<lambda>k. case map_of (sh ep) k of None \<Rightarrow> VNone | Some v \<Rightarrow> v) ks))])"
  by (simp add: dir_rpc_def rpc_call_def dir_attach_def rpc_register_def or_empty_def on_get_def)

lemma dir_rpc_exists:
  "up ep \<Longrightarrow> snd (dir_rpc up sh ep ''dir_exists'' (VDict [(''keys'', VList (map VStr ks))])) =
     Inr (VDict [(''exists'', VList (map (\<lambda>k. VBool (has_key (sh ep) k)) ks))])"
  by (simp add: dir_rpc_def rpc_call_def dir_attach_def rpc_register_def or_empty_def on_exists_def)

section \<open>What the shards hold\<close>

text \<open>Every entry is a location of \<open>P\<close> for its key.\<close>

definition shard_from :: "(string \<times> data_location) set \<Rightarrow> shards \<Rightarrow> bool" where
  "shard_from P sh \<longleftrightarrow>
     (\<forall>ep k v. map_of (sh ep) k = Some v \<longrightarrow> (\<exists>l. (k, l) \<in> P \<and> v = VDict (loc_to_dict l)))"

definition loc_at :: "shard \<Rightarrow> string \<Rightarrow> data_location option" where
  "loc_at s k =
     (case map_of s k of None \<Rightarrow> None | Some v \<Rightarrow> (case parse_location v of Inr x \<Rightarrow> x | Inl _ \<Rightarrow> None))"

lemma parse_location_dict [simp]: "parse_location (VDict (loc_to_dict l)) = Inr (Some l)"
  by (simp add: parse_location_def)

lemma shard_fromD:
  "shard_from P sh \<Longrightarrow> map_of (sh ep) k = Some v \<Longrightarrow> \<exists>l. (k, l) \<in> P \<and> v = VDict (loc_to_dict l)"
  by (simp add: shard_from_def)

lemma parse_stored:
  assumes "shard_from P sh"
  shows "map_result parse_location (map (\<lambda>k. case map_of (sh ep) k of None \<Rightarrow> VNone | Some v \<Rightarrow> v) ks) =
    Inr (map (loc_at (sh ep)) ks)"
proof (induction ks)
  case Nil
  then show ?case by simp
next
  case (Cons k ks)
  have "parse_location (case map_of (sh ep) k of None \<Rightarrow> VNone | Some v \<Rightarrow> v) = Inr (loc_at (sh ep) k)"
    using shard_fromD [OF assms, of ep k] by (cases "map_of (sh ep) k") (auto simp: loc_at_def parse_location_def)
  with Cons show ?case by simp
qed

text \<open>The first node of a list whose endpoint is known and answers.\<close>

fun first_up :: "resolver \<Rightarrow> (string \<Rightarrow> bool) \<Rightarrow> string list \<Rightarrow> string option" where
  "first_up resolve up [] = None"
| "first_up resolve up (n # ns) =
     (case resolve n of None \<Rightarrow> first_up resolve up ns | Some ep \<Rightarrow> if up ep then Some ep else first_up resolve up ns)"

lemma ask_candidates_first:
  assumes "shard_from P sh"
  shows "ask_candidates resolve up sh ns grp =
    map (\<lambda>k. case first_up resolve up ns of None \<Rightarrow> None | Some ep \<Rightarrow> loc_at (sh ep) k) grp"
proof (induction ns)
  case Nil
  then show ?case by (simp add: map_replicate_const)
next
  case (Cons n ns)
  then show ?case
    by (cases "resolve n") (auto simp: dir_rpc_down dir_rpc_get field_or_def parse_stored [OF assms])
qed

section \<open>Grouping\<close>

definition group_keys :: "('a \<Rightarrow> 'b option) \<Rightarrow> 'a list \<Rightarrow> ('b, 'a list) dict" where
  "group_keys f ks = fold (\<lambda>k d. case f k of None \<Rightarrow> d | Some p \<Rightarrow> append_at p k d) ks []"

lemma group_keys_snoc:
  "group_keys f (ks @ [k]) =
     (case f k of None \<Rightarrow> group_keys f ks | Some p \<Rightarrow> append_at p k (group_keys f ks))"
  unfolding group_keys_def by simp

lemma map_of_group_keys:
  "map_of (group_keys f ks) p = (let g = filter (\<lambda>k. f k = Some p) ks in if g = [] then None else Some g)"
proof (induction ks rule: rev_induct)
  case Nil
  then show ?case by (simp add: group_keys_def)
next
  case (snoc k ks)
  then show ?case by (cases "f k") (auto simp: group_keys_snoc map_of_append_at Let_def split: if_splits)
qed

lemma dict_ok_group_keys [simp]: "dict_ok (group_keys f ks)"
  by (induction ks rule: rev_induct) (auto simp: group_keys_snoc split: option.split, simp add: group_keys_def)

lemma in_group_keys: "(p, g) \<in> set (group_keys f ks) \<Longrightarrow> g = filter (\<lambda>k. f k = Some p) ks \<and> g \<noteq> []"
  using dict_ok_map_of [OF dict_ok_group_keys, of p g f ks]
  by (simp add: map_of_group_keys Let_def split: if_splits)

lemma map_of_dict_update_zip:
  "map_of (dict_update d (zip g (map h g))) k = (if k \<in> set g then Some (h k) else map_of d k)"
  by (induction g arbitrary: d) auto

text \<open>
  A result dictionary filled group by group, where a group may go unanswered, holds for every key
  the answer of the group the key was put into.
\<close>

definition fill :: "('p \<Rightarrow> 'k list \<Rightarrow> ('k \<Rightarrow> 'v) option) \<Rightarrow> 'p \<times> 'k list \<Rightarrow> ('k, 'v) dict \<Rightarrow> ('k, 'v) dict" where
  "fill h pg r = (case h (fst pg) (snd pg) of None \<Rightarrow> r | Some a \<Rightarrow> dict_update r (zip (snd pg) (map a (snd pg))))"

lemma map_of_fill:
  "map_of (fill h (p, g) r) k =
     (if k \<in> set g then (case h p g of None \<Rightarrow> map_of r k | Some a \<Rightarrow> Some (a k)) else map_of r k)"
  by (simp add: fill_def map_of_dict_update_zip split: option.split)

lemma fold_groups:
  assumes "\<forall>(p, g) \<in> set gs. \<forall>k \<in> set g. f k = Some p" and "dict_ok gs"
  shows "map_of (fold (fill h) gs r) k =
    (case f k of None \<Rightarrow> map_of r k
     | Some p \<Rightarrow> (case map_of gs p of
          Some g \<Rightarrow> if k \<in> set g then (case h p g of None \<Rightarrow> map_of r k | Some a \<Rightarrow> Some (a k)) else map_of r k
        | None \<Rightarrow> map_of r k))"
  using assms
proof (induction gs arbitrary: r)
  case Nil
  then show ?case by (simp split: option.split)
next
  case (Cons x gs)
  obtain p g where x: "x = (p, g)" by fastforce
  with Cons.prems have g: "\<forall>k \<in> set g. f k = Some p" "map_of gs p = None" "dict_ok gs"
    by (auto simp: map_of_None_fst)
  have "\<forall>(q, g') \<in> set gs. \<forall>k \<in> set g'. f k = Some q" using Cons.prems(1) by simp
  note ih = Cons.IH [OF this g(3)]
  show ?case
    unfolding x using g by (auto simp: ih map_of_fill split: option.split)
qed

lemma map_of_fold_const:
  "map_of (fold (\<lambda>k. AList.update k v) ks d) k = (if k \<in> set ks then Some v else map_of d k)"
  by (induction ks arbitrary: d) auto

lemma read_groups:
  "read_all v (fold (fill h) (group_keys f ks) (fold (\<lambda>k. AList.update k v) ks [])) ks =
   map (\<lambda>k. case f k of None \<Rightarrow> v
         | Some p \<Rightarrow> (case h p (filter (\<lambda>k'. f k' = Some p) ks) of None \<Rightarrow> v | Some a \<Rightarrow> a k)) ks"
proof -
  let ?r = "fold (\<lambda>k. AList.update k v) ks []"
  have gs: "\<forall>(p, g) \<in> set (group_keys f ks). \<forall>k \<in> set g. f k = Some p"
    using in_group_keys by fastforce
  have "map_of (fold (fill h) (group_keys f ks) ?r) k =
      Some (case f k of None \<Rightarrow> v
         | Some p \<Rightarrow> (case h p (filter (\<lambda>k'. f k' = Some p) ks) of None \<Rightarrow> v | Some a \<Rightarrow> a k))" if "k \<in> set ks" for k
    using fold_groups [where f = f and h = h and r = ?r and k = k, OF gs dict_ok_group_keys] that
    by (auto simp: map_of_fold_const map_of_group_keys Let_def filter_empty_conv split: option.split)
  then show ?thesis by (simp add: read_all_def)
qed

definition primary :: "digest \<Rightarrow> dir_client \<Rightarrow> string \<Rightarrow> string option" where
  "primary B c k = (case owners B c k of [] \<Rightarrow> None | p # _ \<Rightarrow> Some p)"

lemma group_by_owner_keys: "group_by_owner B c ks = group_keys (primary B c) ks"
  unfolding group_by_owner_def group_keys_def primary_def
  by (rule arg_cong [where f = "\<lambda>f. fold f ks []"]) (auto intro!: ext split: list.split)

section \<open>Effect of the operations\<close>

text \<open>
  Where a group of keys is looked up. With replicas the owners of the group's first key stand for
  the whole group.
\<close>

definition group_candidates :: "digest \<Rightarrow> dir_client \<Rightarrow> string \<Rightarrow> string list \<Rightarrow> string list" where
  "group_candidates B c p g = (if dc_replicas c > 1 then fold (\<lambda>k _. owners B c k) (take 1 g) [p] else [p])"

lemma dir_get_groups:
  assumes "shard_from P sh"
  shows "dir_get B c resolve up sh ks =
    map (\<lambda>k. case primary B c k of None \<Rightarrow> None
          | Some p \<Rightarrow> (case first_up resolve up (group_candidates B c p (filter (\<lambda>k'. primary B c k' = Some p) ks)) of
              None \<Rightarrow> None | Some ep \<Rightarrow> loc_at (sh ep) k)) ks"
proof -
  let ?h = "\<lambda>p g. Some (\<lambda>k. case first_up resolve up (group_candidates B c p g) of None \<Rightarrow> None | Some ep \<Rightarrow> loc_at (sh ep) k)"
  have "get_from_owner B c resolve up sh g p = map (the (?h p g)) g" for p g
    unfolding get_from_owner_def Let_def ask_candidates_first [OF assms] group_candidates_def by simp
  then have "(\<lambda>(owner, grp) result. dict_update result (zip grp (get_from_owner B c resolve up sh grp owner))) = fill ?h"
    by (auto simp: fun_eq_iff fill_def)
  then show ?thesis
    unfolding dir_get_def Let_def group_by_owner_keys by (simp add: read_groups split: option.split)
qed

lemma dir_exists_groups:
  "dir_exists B c resolve up sh ks =
    map (\<lambda>k. case primary B c k of None \<Rightarrow> False
          | Some p \<Rightarrow> (case first_up resolve up [p] of None \<Rightarrow> False | Some ep \<Rightarrow> has_key (sh ep) k)) ks"
proof -
  let ?h = "\<lambda>p g. map_option (\<lambda>ep. has_key (sh ep)) (first_up resolve up [p])"
  have "(\<lambda>(owner, grp) result.
      case resolve owner of
        None \<Rightarrow> result
      | Some ep \<Rightarrow>
          (case bind_result (snd (dir_rpc up sh ep ''dir_exists'' (VDict [(''keys'', VList (map VStr grp))]))) (\<lambda>resp.
                bind_result (item_or resp ''exists'' (VList [])) as_list) of
             Inl _ \<Rightarrow> result
           | Inr exs \<Rightarrow> dict_update result (zip grp (map truthy exs)))) = fill ?h"
    by (auto simp: fun_eq_iff fill_def dir_rpc_down dir_rpc_exists field_or_def comp_def split: option.split)
  then show ?thesis
    unfolding dir_exists_def Let_def group_by_owner_keys
    by (simp add: read_groups) (auto split: option.split)
qed

text \<open>The node ids whose shard an operation on a key reaches.\<close>

definition reaches :: "digest \<Rightarrow> dir_client \<Rightarrow> resolver \<Rightarrow> (string \<Rightarrow> bool) \<Rightarrow> string \<Rightarrow> string \<Rightarrow> bool" where
  "reaches B c resolve up k ep \<longleftrightarrow> up ep \<and> (\<exists>n \<in> set (owners B c k). resolve n = Some ep)"

lemma map_of_put_at:
  "map_of (put_at n k v d) n' =
     (if n' = n then Some (AList.update k v (case map_of d n of None \<Rightarrow> [] | Some m \<Rightarrow> m)) else map_of d n')"
  by (simp add: put_at_def)

definition sub :: "('n, ('k, 'v) dict) dict \<Rightarrow> 'n \<Rightarrow> 'k \<Rightarrow> 'v option" where
  "sub d n k = (case map_of d n of None \<Rightarrow> None | Some m \<Rightarrow> map_of m k)"

lemma sub_put_at [simp]: "sub (put_at n k v d) n' k' = (if n' = n \<and> k' = k then Some v else sub d n' k')"
  by (auto simp: sub_def map_of_put_at split: option.split)

lemma sub_fold_put_at:
  "sub (fold (\<lambda>n. put_at n k v) ns d) n' k' = (if n' \<in> set ns \<and> k' = k then Some v else sub d n' k')"
  by (induction ns arbitrary: d) auto

lemma sub_put_plan:
  "dict_ok entries \<Longrightarrow>
   sub (put_plan B c entries) n k =
     (case map_of entries k of Some l \<Rightarrow> if n \<in> set (owners B c k) then Some (VDict (loc_to_dict l)) else None | None \<Rightarrow> None)"
proof -
  have "sub (fold (\<lambda>(key, loc). fold (\<lambda>owner. put_at owner key (VDict (loc_to_dict loc))) (owners B c key)) es d) n k =
      (case map_of es k of Some l \<Rightarrow> if n \<in> set (owners B c k) then Some (VDict (loc_to_dict l)) else sub d n k | None \<Rightarrow> sub d n k)"
    if "dict_ok es" for es d using that
  proof (induction es arbitrary: d)
    case Nil
    then show ?case by simp
  next
    case (Cons e es)
    obtain key loc where e: "e = (key, loc)" by fastforce
    with Cons.prems have "map_of es key = None" "dict_ok es" by (simp_all add: map_of_None_fst)
    with Cons.IH show ?case by (simp add: e sub_fold_put_at split: option.split)
  qed
  then show "dict_ok entries \<Longrightarrow> ?thesis" unfolding put_plan_def by (simp add: sub_def split: option.split)
qed

lemma dict_ok_put_at [simp]: "dict_ok d \<Longrightarrow> dict_ok (put_at n k v d)"
  by (simp add: put_at_def)

lemma fold_invariant_dict_ok: "(\<And>x d. dict_ok d \<Longrightarrow> dict_ok (f x d)) \<Longrightarrow> dict_ok d \<Longrightarrow> dict_ok (fold f xs d)"
  by (induction xs arbitrary: d) simp_all

lemma dict_ok_put_plan: "dict_ok (put_plan B c entries)"
  unfolding put_plan_def by (intro fold_invariant_dict_ok) (auto intro!: fold_invariant_dict_ok)

text \<open>Every dictionary a plan sends is itself a dictionary.\<close>

lemma put_plan_inner: "map_of (put_plan B c entries) n = Some m \<Longrightarrow> dict_ok m"
proof -
  define Q where "Q = (\<lambda>d :: (string, shard) dict. \<forall>n m. map_of d n = Some m \<longrightarrow> dict_ok m)"
  have step: "Q (put_at a k v d)" if "Q d" for a k v d
    using that by (auto simp: Q_def map_of_put_at split: option.split)
  have inner: "Q (fold (\<lambda>owner. put_at owner k v) ns d)" if "Q d" for k v ns d
    using that by (induction ns arbitrary: d) (simp_all add: step)
  have "Q (fold (\<lambda>(key, loc). fold (\<lambda>owner. put_at owner key (VDict (loc_to_dict loc))) (owners B c key)) es d)"
    if "Q d" for es d
    using that by (induction es arbitrary: d) (auto simp: inner)
  from this [of "[]"] show "map_of (put_plan B c entries) n = Some m \<Longrightarrow> dict_ok m"
    by (simp add: Q_def put_plan_def)
qed

lemma send_puts:
  assumes "\<And>n m k v. (n, m) \<in> set plan \<Longrightarrow> dict_ok m \<and> (map_of m k = Some v \<longrightarrow> v = val k)"
  shows "map_of (send_plan resolve up ''dir_put'' (map (\<lambda>(n, es). (n, VDict [(''entries'', VDict es)])) plan) sh ep) k =
    (if up ep \<and> (\<exists>(n, m) \<in> set plan. resolve n = Some ep \<and> map_of m k \<noteq> None) then Some (val k) else map_of (sh ep) k)"
  using assms
proof (induction plan arbitrary: sh)
  case Nil
  then show ?case by (simp add: send_plan_def)
next
  case (Cons x plan)
  obtain n m where x: "x = (n, m)" by fastforce
  define sh1 where "sh1 = (case resolve n of None \<Rightarrow> sh
      | Some ep \<Rightarrow> fst (dir_rpc up sh ep ''dir_put'' (VDict [(''entries'', VDict m)])))"
  have m: "dict_ok m" "\<And>k v. map_of m k = Some v \<Longrightarrow> v = val k" using Cons.prems [of n m] x by auto
  have sh1: "map_of (sh1 ep) k = (if up ep \<and> resolve n = Some ep \<and> map_of m k \<noteq> None then Some (val k) else map_of (sh ep) k)"
    using m by (cases "resolve n") (auto simp: sh1_def dir_rpc_put map_of_dict_update split: option.split)
  have eq: "send_plan resolve up ''dir_put'' (map (\<lambda>(n, es). (n, VDict [(''entries'', VDict es)])) (x # plan)) sh =
      send_plan resolve up ''dir_put'' (map (\<lambda>(n, es). (n, VDict [(''entries'', VDict es)])) plan) sh1"
    by (simp add: x send_plan_def sh1_def)
  have "map_of (send_plan resolve up ''dir_put'' (map (\<lambda>(n, es). (n, VDict [(''entries'', VDict es)])) plan) sh1 ep) k =
    (if up ep \<and> (\<exists>(n, m) \<in> set plan. resolve n = Some ep \<and> map_of m k \<noteq> None) then Some (val k) else map_of (sh1 ep) k)"
    using Cons.prems by (intro Cons.IH) auto
  then show ?case unfolding eq sh1 by (auto simp: x)
qed

lemma dir_put_effect:
  assumes "dict_ok entries"
  shows "map_of (dir_put B c resolve up sh entries ep) k =
    (case map_of entries k of
       Some l \<Rightarrow> if reaches B c resolve up k ep then Some (VDict (loc_to_dict l)) else map_of (sh ep) k
     | None \<Rightarrow> map_of (sh ep) k)"
proof -
  let ?plan = "put_plan B c entries"
  define val where "val = (\<lambda>k. VDict (loc_to_dict (the (map_of entries k))))"
  have plan: "(n, m) \<in> set ?plan \<longleftrightarrow> map_of ?plan n = Some m" for n m
    by (rule dict_ok_map_of [OF dict_ok_put_plan])
  have vals: "dict_ok m \<and> (map_of m k = Some v \<longrightarrow> v = val k)" if "(n, m) \<in> set ?plan" for n m k v
  proof -
    from that have m: "map_of ?plan n = Some m" by (simp add: plan)
    then have "sub ?plan n k = map_of m k" by (simp add: sub_def)
    then show ?thesis
      using put_plan_inner [OF m] by (auto simp: sub_put_plan [OF assms] val_def split: option.splits if_splits)
  qed
  have "(\<exists>(n, m) \<in> set ?plan. resolve n = Some ep \<and> map_of m k \<noteq> None) \<longleftrightarrow>
      (\<exists>n. resolve n = Some ep \<and> sub ?plan n k \<noteq> None)"
    by (auto simp: plan sub_def Bex_def split: option.splits) blast
  also have "\<dots> \<longleftrightarrow> map_of entries k \<noteq> None \<and> (\<exists>n \<in> set (owners B c k). resolve n = Some ep)"
    by (auto simp: sub_put_plan [OF assms] split: option.splits if_splits)
  finally show ?thesis
    unfolding dir_put_def by (subst send_puts [where val = val, OF vals]) (auto simp: reaches_def val_def split: option.split)
qed

text \<open>\<open>delete\<close> sends every key to all its owners.\<close>

lemma delete_plan_mem:
  "(\<exists>g. (n, g) \<in> set (delete_plan B c keys) \<and> k \<in> set g) \<longleftrightarrow> k \<in> set keys \<and> n \<in> set (owners B c k)"
proof -
  define has where "has = (\<lambda>d :: (string, string list) dict. \<exists>g. map_of d n = Some g \<and> k \<in> set g)"
  have step: "has (append_at a k' d) \<longleftrightarrow> has d \<or> (a = n \<and> k' = k)" for a k' d
    by (cases "map_of d a") (auto simp: has_def map_of_append_at)
  have inner: "has (fold (\<lambda>owner. append_at owner k') ns d) \<longleftrightarrow> has d \<or> (n \<in> set ns \<and> k' = k)" for k' ns d
    by (induction ns arbitrary: d) (auto simp: step)
  have ok: "dict_ok (delete_plan B c keys)"
    unfolding delete_plan_def by (intro fold_invariant_dict_ok) simp_all
  have "has (fold (\<lambda>k'. fold (\<lambda>owner. append_at owner k') (owners B c k')) keys d) \<longleftrightarrow>
      has d \<or> (k \<in> set keys \<and> n \<in> set (owners B c k))" for d
    by (induction keys arbitrary: d) (auto simp: inner)
  then have "has (delete_plan B c keys) \<longleftrightarrow> k \<in> set keys \<and> n \<in> set (owners B c k)"
    unfolding delete_plan_def by (simp add: has_def)
  then show ?thesis by (simp add: has_def dict_ok_map_of [OF ok])
qed

lemma send_deletes:
  "map_of (send_plan resolve up ''dir_delete'' (map (\<lambda>(n, ks). (n, VDict [(''keys'', VList (map VStr ks))])) plan) sh ep) k =
    (if up ep \<and> (\<exists>(n, g) \<in> set plan. resolve n = Some ep \<and> k \<in> set g) then None else map_of (sh ep) k)"
proof (induction plan arbitrary: sh)
  case Nil
  then show ?case by (simp add: send_plan_def)
next
  case (Cons x plan)
  obtain n g where x: "x = (n, g)" by fastforce
  define sh1 where "sh1 = (case resolve n of None \<Rightarrow> sh
      | Some ep \<Rightarrow> fst (dir_rpc up sh ep ''dir_delete'' (VDict [(''keys'', VList (map VStr g))])))"
  have sh1: "map_of (sh1 ep) k = (if up ep \<and> resolve n = Some ep \<and> k \<in> set g then None else map_of (sh ep) k)"
    by (cases "resolve n") (auto simp: sh1_def dir_rpc_delete map_of_fold_delete)
  have eq: "send_plan resolve up ''dir_delete'' (map (\<lambda>(n, ks). (n, VDict [(''keys'', VList (map VStr ks))])) (x # plan)) sh =
      send_plan resolve up ''dir_delete'' (map (\<lambda>(n, ks). (n, VDict [(''keys'', VList (map VStr ks))])) plan) sh1"
    by (simp add: x send_plan_def sh1_def)
  show ?case unfolding eq Cons.IH sh1 by (auto simp: x)
qed

lemma dir_delete_effect:
  "map_of (dir_delete B c resolve up sh keys ep) k =
     (if k \<in> set keys \<and> reaches B c resolve up k ep then None else map_of (sh ep) k)"
  using delete_plan_mem [of _ B c keys k] unfolding dir_delete_def send_deletes
  by (auto simp: reaches_def)

section \<open>Runs\<close>

text \<open>
  The history of the directory: operations of any clients, with any memberships, any subset of
  the endpoints answering each.
\<close>

datatype dir_op =
    DirPut dir_client resolver "string \<Rightarrow> bool" "(string, data_location) dict"
  | DirDelete dir_client resolver "string \<Rightarrow> bool" "string list"

fun dir_step :: "digest \<Rightarrow> shards \<Rightarrow> dir_op \<Rightarrow> shards" where
  "dir_step B sh (DirPut c resolve up entries) = dir_put B c resolve up sh entries"
| "dir_step B sh (DirDelete c resolve up keys) = dir_delete B c resolve up sh keys"

fun op_entries :: "dir_op \<Rightarrow> (string, data_location) dict" where
  "op_entries (DirPut c resolve up entries) = entries"
| "op_entries (DirDelete c resolve up keys) = []"

definition dir_puts :: "dir_op list \<Rightarrow> (string \<times> data_location) set" where
  "dir_puts ops = (\<Union>op \<in> set ops. set (op_entries op))"

definition dir_history :: "digest \<Rightarrow> dir_op list \<Rightarrow> shards \<Rightarrow> bool" where
  "dir_history B ops sh \<longleftrightarrow> list_all (\<lambda>op. dict_ok (op_entries op)) ops \<and> sh = foldl (dir_step B) (\<lambda>ep. []) ops"

lemma shard_from_mono: "shard_from P sh \<Longrightarrow> P \<subseteq> Q \<Longrightarrow> shard_from Q sh"
  unfolding shard_from_def by blast

lemma dir_put_from:
  assumes "shard_from P sh" and "dict_ok entries"
  shows "shard_from (P \<union> set entries) (dir_put B c resolve up sh entries)"
  using assms unfolding shard_from_def dir_put_effect [OF assms(2)]
  by (auto split: option.splits if_splits dest: map_of_SomeD) blast+

lemma dir_delete_from: "shard_from P sh \<Longrightarrow> shard_from P (dir_delete B c resolve up sh keys)"
  unfolding shard_from_def dir_delete_effect by simp

lemma dir_history_from: "dir_history B ops sh \<Longrightarrow> shard_from (dir_puts ops) sh"
proof (induction ops arbitrary: sh rule: rev_induct)
  case Nil
  then show ?case by (simp add: dir_history_def shard_from_def)
next
  case (snoc op1 ops)
  define sh0 where "sh0 = foldl (dir_step B) (\<lambda>ep. []) ops"
  with snoc have sh0: "shard_from (dir_puts ops) sh0" "sh = dir_step B sh0 op1" "dict_ok (op_entries op1)"
    by (simp_all add: dir_history_def)
  have puts: "dir_puts (ops @ [op1]) = dir_puts ops \<union> set (op_entries op1)" by (auto simp: dir_puts_def)
  show ?case
    using sh0 unfolding puts by (cases op1) (simp_all add: dir_put_from dir_delete_from)
qed

text \<open>Every owner of the key is known and answers.\<close>

definition all_owners_up :: "digest \<Rightarrow> dir_client \<Rightarrow> resolver \<Rightarrow> (string \<Rightarrow> bool) \<Rightarrow> string \<Rightarrow> bool" where
  "all_owners_up B c resolve up k \<longleftrightarrow>
     owners B c k \<noteq> [] \<and> list_all (\<lambda>n. case resolve n of None \<Rightarrow> False | Some ep \<Rightarrow> up ep) (owners B c k)"

lemma all_owners_up_first:
  assumes "all_owners_up B c resolve up k"
  obtains p ns ep where "owners B c k = p # ns" and "primary B c k = Some p" and "resolve p = Some ep" and "up ep"
    and "reaches B c resolve up k ep"
  using assms by (cases "owners B c k") (auto simp: all_owners_up_def primary_def reaches_def split: option.splits)

lemma group_candidates_hd:
  assumes "primary B c k = Some p" and "k \<in> set ks"
  obtains ns where "group_candidates B c p (filter (\<lambda>k'. primary B c k' = Some p) ks) = p # ns"
proof -
  let ?g = "filter (\<lambda>k'. primary B c k' = Some p) ks"
  from assms have "?g \<noteq> []" by (auto simp: filter_empty_conv)
  then obtain a g where g: "?g = a # g" by (cases ?g) auto
  then have "primary B c a = Some p" by (metis (mono_tags) filter_eq_ConsD)
  then obtain ns where "owners B c a = p # ns" by (auto simp: primary_def split: list.splits)
  with g show thesis
    by (intro that [of "if dc_replicas c > 1 then ns else []"]) (simp add: group_candidates_def)
qed

lemma dir_get_up:
  assumes "shard_from P sh" and "\<forall>k \<in> set ks. all_owners_up B c resolve up k"
  shows "dir_get B c resolve up sh ks = map (\<lambda>k. loc_at (sh (the (resolve (hd (owners B c k))))) k) ks"
  unfolding dir_get_groups [OF assms(1)]
proof (rule map_cong [OF refl])
  fix k assume k: "k \<in> set ks"
  have "all_owners_up B c resolve up k" using assms(2) k by blast
  then obtain p ns ep where p: "owners B c k = p # ns" "primary B c k = Some p" "resolve p = Some ep" "up ep"
    by (rule all_owners_up_first)
  from group_candidates_hd [OF p(2) k] obtain ms where
    ms: "group_candidates B c p (filter (\<lambda>k'. primary B c k' = Some p) ks) = p # ms" .
  show "(case primary B c k of None \<Rightarrow> None
          | Some p \<Rightarrow> (case first_up resolve up (group_candidates B c p (filter (\<lambda>k'. primary B c k' = Some p) ks)) of
              None \<Rightarrow> None | Some ep \<Rightarrow> loc_at (sh ep) k)) = loc_at (sh (the (resolve (hd (owners B c k))))) k"
    by (simp add: p ms)
qed

lemma dir_exists_up:
  assumes "\<forall>k \<in> set ks. all_owners_up B c resolve up k"
  shows "dir_exists B c resolve up sh ks = map (\<lambda>k. has_key (sh (the (resolve (hd (owners B c k))))) k) ks"
  unfolding dir_exists_groups
proof (rule map_cong [OF refl])
  fix k assume "k \<in> set ks"
  then have "all_owners_up B c resolve up k" using assms by blast
  then obtain p ns ep where p: "owners B c k = p # ns" "primary B c k = Some p" "resolve p = Some ep" "up ep"
    by (rule all_owners_up_first)
  then show "(case primary B c k of None \<Rightarrow> False
      | Some p \<Rightarrow> (case first_up resolve up [p] of None \<Rightarrow> False | Some ep \<Rightarrow> has_key (sh ep) k)) =
    has_key (sh (the (resolve (hd (owners B c k))))) k" by simp
qed

lemma has_key_loc_at: "shard_from P sh \<Longrightarrow> has_key (sh ep) k \<longleftrightarrow> loc_at (sh ep) k \<noteq> None"
  using shard_fromD [of P sh ep k] by (cases "map_of (sh ep) k") (auto simp: has_key_def loc_at_def)

lemma loc_at_put:
  assumes "dict_ok entries"
  shows "loc_at (dir_put B c resolve up sh entries ep) k =
    (case map_of entries k of Some l \<Rightarrow> if reaches B c resolve up k ep then Some l else loc_at (sh ep) k | None \<Rightarrow> loc_at (sh ep) k)"
  by (simp add: loc_at_def dir_put_effect [OF assms] split: option.split)

lemma loc_at_delete:
  "loc_at (dir_delete B c resolve up sh keys ep) k =
     (if k \<in> set keys \<and> reaches B c resolve up k ep then None else loc_at (sh ep) k)"
  by (simp add: loc_at_def dir_delete_effect)

lemma first_up_some:
  "n \<in> set ns \<Longrightarrow> resolve n = Some ep \<Longrightarrow> up ep \<Longrightarrow>
   \<exists>q e. q \<in> set ns \<and> resolve q = Some e \<and> up e \<and> first_up resolve up ns = Some e"
  by (induction ns) (auto split: option.split)

definition toy_dir :: dir_client where
  "toy_dir = DirectoryClient (add_node toy_digest (add_node toy_digest (ring_init 2) ''a'') ''b'') 2"

lemma toy_ring_ab:
  "add_node toy_digest (add_node toy_digest (ring_init 2) ''a'') ''b'' =
     \<lparr>hr_vnodes = 2, hr_ring = [(24880, ''a''), (24881, ''a''), (25136, ''b''), (25137, ''b'')],
      hr_sorted_keys = [24880, 24881, 25136, 25137], hr_nodes = {''b'', ''a''}\<rparr>"
  by (simp add: add_node_def ring_init_def rebuild_def add_points_def upt_rec vpoint_def ring_hash_def toy_digest_def
      encode_def from_be_def str_nat_small unat_of_nat)

lemma toy_owners: "owners toy_digest toy_dir ''key'' = [''a'', ''b'']"
  by (simp add: toy_dir_def DirectoryClient_def toy_ring_ab owners_def get_nodes_def bisect_right_def ring_hash_def
      toy_digest_def encode_def from_be_def unat_of_nat ring_walk.simps ring_owner_def)

definition toy_loc :: data_location where
  "toy_loc = \<lparr>loc_node_id = ''a'', loc_rdma_endpoint = ''h:1'', remote_addr = 64, loc_rkey = 0, loc_length = 4,
     resident = True, rail_endpoints = [], rail_rkeys = []\<rparr>"

lemma toy_history: "dir_history toy_digest [DirPut toy_dir Some (\<lambda>ep. True) [(''key'', toy_loc)]]
    (dir_put toy_digest toy_dir Some (\<lambda>ep. True) (\<lambda>ep. []) [(''key'', toy_loc)])"
  by (simp add: dir_history_def)

lemma toy_owners_up: "all_owners_up toy_digest toy_dir Some (\<lambda>ep. True) ''key''"
  by (simp add: all_owners_up_def toy_owners)

section \<open>Properties\<close>

text \<open>
  C19. The directory is a map while the owners answer. Whatever happened before, a \<open>put\<close> makes
  \<open>get\<close> return exactly the new locations for its keys and leaves the answers for all others
  alone; a \<open>delete\<close> makes exactly its keys disappear; and \<open>exists\<close> tells exactly which keys
  \<open>get\<close> finds. Answers come in the order of the request, repeated keys included.
\<close>

theorem directory_is_a_map:
  assumes "dir_history B ops sh" and up: "\<forall>k \<in> set ks. all_owners_up B c resolve up k" and ok: "dict_ok entries"
  shows "dir_get B c resolve up (dir_put B c resolve up sh entries) ks =
      map (\<lambda>k. case map_of entries k of Some l \<Rightarrow> Some l | None \<Rightarrow> hd (dir_get B c resolve up sh [k])) ks \<and>
    dir_get B c resolve up (dir_delete B c resolve up sh dels) ks =
      map (\<lambda>k. if k \<in> set dels then None else hd (dir_get B c resolve up sh [k])) ks \<and>
    dir_exists B c resolve up sh ks = map (\<lambda>r. r \<noteq> None) (dir_get B c resolve up sh ks)"
proof -
  note sf = dir_history_from [OF assms(1)]
  let ?ep = "\<lambda>k. the (resolve (hd (owners B c k)))"
  have ep: "reaches B c resolve up k (?ep k)" if "k \<in> set ks" for k
    using up that by (metis all_owners_up_first list.sel(1) option.sel)
  have single: "hd (dir_get B c resolve up sh [k]) = loc_at (sh (?ep k)) k" if "k \<in> set ks" for k
    using dir_get_up [OF sf, of "[k]" B c resolve up] up that by simp
  have 1: "dir_get B c resolve up (dir_put B c resolve up sh entries) ks =
      map (\<lambda>k. case map_of entries k of Some l \<Rightarrow> Some l | None \<Rightarrow> hd (dir_get B c resolve up sh [k])) ks"
    unfolding dir_get_up [OF dir_put_from [OF sf ok] up]
    using ep single by (auto simp: loc_at_put [OF ok] split: option.split)
  have 2: "dir_get B c resolve up (dir_delete B c resolve up sh dels) ks =
      map (\<lambda>k. if k \<in> set dels then None else hd (dir_get B c resolve up sh [k])) ks"
    unfolding dir_get_up [OF dir_delete_from [OF sf] up]
    using ep single by (auto simp: loc_at_delete)
  have "dir_exists B c resolve up sh ks = map (\<lambda>r. r \<noteq> None) (dir_get B c resolve up sh ks)"
    unfolding dir_exists_up [OF up] dir_get_up [OF sf up] by (simp add: has_key_loc_at [OF sf])
  with 1 2 show ?thesis by blast
qed

theorem directory_is_a_map_witness:
  "dir_get toy_digest toy_dir Some (\<lambda>ep. True)
     (dir_delete toy_digest toy_dir Some (\<lambda>ep. True)
        (dir_put toy_digest toy_dir Some (\<lambda>ep. True) (\<lambda>ep. []) [(''key'', toy_loc)]) [''key'']) [''key'', ''key''] = [None, None]"
  using directory_is_a_map [OF toy_history, of "[''key'', ''key'']" toy_dir Some "\<lambda>ep. True" "[]" "[''key'']"] toy_owners_up
  by simp

text \<open>
  C20. Whatever endpoints are unreachable and however clients' memberships differ, the directory
  never invents a location: what \<open>get\<close> returns for a key was put for exactly that key before.
\<close>

theorem directory_answers_were_put:
  assumes "dir_history B ops sh" and "i < length ks" and "dir_get B c resolve up sh ks ! i = Some l"
  shows "(ks ! i, l) \<in> dir_puts ops"
proof -
  note sf = dir_history_from [OF assms(1)]
  from assms(2,3) obtain ep where "loc_at (sh ep) (ks ! i) = Some l"
    unfolding dir_get_groups [OF sf] by (auto split: option.splits)
  then obtain v where v: "map_of (sh ep) (ks ! i) = Some v" "parse_location v = Inr (Some l)"
    by (auto simp: loc_at_def split: option.splits sum.splits)
  from shard_fromD [OF sf v(1)] v(2) show ?thesis by auto
qed

theorem directory_answers_were_put_witness:
  "(''key'', toy_loc) \<in> dir_puts [DirPut toy_dir Some (\<lambda>ep. True) [(''key'', toy_loc)]]"
proof -
  have "reaches toy_digest toy_dir Some (\<lambda>ep. True) ''key'' ''a''" by (simp add: reaches_def toy_owners)
  then have "dir_get toy_digest toy_dir Some (\<lambda>ep. True)
     (dir_put toy_digest toy_dir Some (\<lambda>ep. True) (\<lambda>ep. []) [(''key'', toy_loc)]) [''key''] = [Some toy_loc]"
    using dir_get_up [OF dir_history_from [OF toy_history], of "[''key'']" toy_digest toy_dir Some "\<lambda>ep. True"] toy_owners_up
    by (simp add: toy_owners loc_at_put)
  with directory_answers_were_put [OF toy_history, of 0 "[''key'']" toy_dir Some "\<lambda>ep. True" toy_loc]
  show ?thesis by simp
qed



end
