(* ===== verification/Discovery.thy ===== *)
theory Discovery
  imports Rpc "HOL-Library.List_Lexorder" "HOL-Library.Char_ord"
begin

text \<open>
  Service discovery (\<^verbatim>\<open>python/peercache/discovery.py\<close>): the membership table of a master and the
  client every node runs.

  Time is an integer count of clock ticks; each request to a master reads its clock once. The
  masters of a cluster are a function of the endpoint they listen on, and \<open>up\<close> says which of them
  answer. The callback \<open>on_members\<close> is the list of members an operation returns when it calls it.
\<close>

section \<open>Strings\<close>

text \<open>\<open>s.split(",")\<close> and \<open>s.strip()\<close> (of ASCII white space).\<close>

fun split_on :: "char \<Rightarrow> string \<Rightarrow> string list" where
  "split_on d [] = [[]]"
| "split_on d (c # cs) =
     (if c = d then [] # split_on d cs
      else case split_on d cs of [] \<Rightarrow> [[c]] | w # ws \<Rightarrow> (c # w) # ws)"

definition is_space :: "char \<Rightarrow> bool" where
  "is_space c \<longleftrightarrow> (let n = of_char c :: nat in n = 32 \<or> (9 \<le> n \<and> n \<le> 13) \<or> (28 \<le> n \<and> n \<le> 31))"

definition strip :: "string \<Rightarrow> string" where
  "strip s = rev (dropWhile is_space (rev (dropWhile is_space s)))"

text \<open>\<open>s.rsplit(":", 1)[0]\<close>, and \<open>int(s.rsplit(":", 1)[1])\<close>.\<close>

definition host_part :: "string \<Rightarrow> string" where
  "host_part s = (case rsplit_colon s of None \<Rightarrow> s | Some (h, _) \<Rightarrow> h)"

definition port_part :: "string \<Rightarrow> nat result" where
  "port_part s = (case rsplit_colon s of None \<Rightarrow> Inl IndexError | Some (_, p) \<Rightarrow> parse_nat p)"

text \<open>\<open>list(dict.fromkeys(xs))\<close>.\<close>

definition fromkeys :: "'a list \<Rightarrow> 'a list" where
  "fromkeys xs = fold (\<lambda>x acc. if x \<in> set acc then acc else acc @ [x]) xs []"

section \<open>The master\<close>

record disc_server =
  sv_ttl :: int
  sv_members :: "(string, pyval \<times> int) dict"

definition DiscoveryServer :: "int \<Rightarrow> disc_server" where
  "DiscoveryServer ttl = \<lparr>sv_ttl = ttl, sv_members = []\<rparr>"

definition member_ids :: "disc_server \<Rightarrow> string list" where
  "member_ids s = sort (map fst (sv_members s))"

definition prune :: "int \<Rightarrow> disc_server \<Rightarrow> disc_server" where
  "prune now s =
     (let dead = map fst (filter (\<lambda>(nid, _, ts). now - ts > sv_ttl s) (sv_members s))
      in s\<lparr>sv_members := fold AList.delete dead (sv_members s)\<rparr>)"

definition members_reply :: "disc_server \<Rightarrow> pyval" where
  "members_reply s = VDict [(''members'', VList (map (\<lambda>(nid, info, ts). info) (sv_members s)))]"

definition on_register :: "int \<Rightarrow> disc_server handler" where
  "on_register now s args =
     (case bind_result (item args ''node'') (\<lambda>info.
             fmap_result (\<lambda>nid. (nid, info)) (bind_result (item info ''node_id'') as_str)) of
        Inl e \<Rightarrow> (s, Inl e)
      | Inr (nid, info) \<Rightarrow>
          let s = prune now (s\<lparr>sv_members := AList.update nid (info, now) (sv_members s)\<rparr>)
          in (s, Inr (members_reply s)))"

definition on_heartbeat :: "int \<Rightarrow> disc_server handler" where
  "on_heartbeat now s args =
     (case bind_result (item args ''node_id'') as_str of
        Inl e \<Rightarrow> (s, Inl e)
      | Inr nid \<Rightarrow>
          (case map_of (sv_members s) nid of
             Some (info, _) \<Rightarrow>
               (prune now (s\<lparr>sv_members := AList.update nid (info, now) (sv_members s)\<rparr>), Inr (VDict [(''known'', VBool True)]))
           | None \<Rightarrow> (prune now s, Inr (VDict [(''known'', VBool False)]))))"

definition on_members :: "int \<Rightarrow> disc_server handler" where
  "on_members now s args = (let s = prune now s in (s, Inr (members_reply s)))"

definition on_deregister :: "disc_server handler" where
  "on_deregister s args =
     (case bind_result (item args ''node_id'') as_str of
        Inl e \<Rightarrow> (s, Inl e)
      | Inr nid \<Rightarrow> (s\<lparr>sv_members := AList.delete nid (sv_members s)\<rparr>, Inr (VDict [(''ok'', VBool True)])))"

definition disc_handlers :: "int \<Rightarrow> disc_server handlers" where
  "disc_handlers now =
     rpc_register (rpc_register (rpc_register (rpc_register []
       ''register'' (on_register now)) ''heartbeat'' (on_heartbeat now))
       ''members'' (on_members now)) ''deregister'' on_deregister"

section \<open>The client\<close>

record disc_client =
  cl_seeds :: "string list"
  cl_seed_hosts :: "string list"
  cl_meta_port :: nat
  cl_max_masters :: nat
  cl_self :: node_info
  cl_members :: "(string, node_info) dict"
  cl_running :: bool
  cl_beats :: nat

definition DiscoveryClient :: "string \<Rightarrow> node_info \<Rightarrow> nat option \<Rightarrow> int \<Rightarrow> disc_client result" where
  "DiscoveryClient discovery_addr self meta_port max_masters =
     (let seeds = filter (\<lambda>s. s \<noteq> []) (map strip (split_on (CHR '','') discovery_addr)) in
      fmap_result (\<lambda>port.
        \<lparr>cl_seeds = seeds, cl_seed_hosts = map host_part seeds, cl_meta_port = port,
         cl_max_masters = nat (max 1 max_masters), cl_self = self, cl_members = [],
         cl_running = False, cl_beats = 0\<rparr>)
        (case meta_port of
           Some p \<Rightarrow> Inr p
         | None \<Rightarrow> (case seeds of [] \<Rightarrow> Inl IndexError | s # _ \<Rightarrow> port_part s)))"

definition disc_members :: "disc_client \<Rightarrow> (string, node_info) dict" where
  "disc_members c = cl_members c"

definition client_member_ids :: "disc_client \<Rightarrow> string list" where
  "client_member_ids c = sort (map fst (cl_members c))"

definition endpoint_of :: "disc_client \<Rightarrow> string \<Rightarrow> string option" where
  "endpoint_of c node_id = map_option rdma_endpoint (map_of (cl_members c) node_id)"

definition control_of :: "disc_client \<Rightarrow> string \<Rightarrow> string option" where
  "control_of c node_id = map_option control_endpoint (map_of (cl_members c) node_id)"

definition masters_from :: "disc_client \<Rightarrow> node_info list \<Rightarrow> string list" where
  "masters_from c members =
     (let member_hosts = sorted_list_of_set (set (map control_host members));
          heads = filter (\<lambda>h. h \<in> set member_hosts) (cl_seed_hosts c);
          others = filter (\<lambda>h. h \<notin> set heads) member_hosts
      in take (cl_max_masters c) (heads @ others))"

definition master_hosts :: "disc_client \<Rightarrow> string list" where
  "master_hosts c = masters_from c (map snd (cl_members c))"

definition targets :: "disc_client \<Rightarrow> string list" where
  "targets c =
     (let master_eps = map (\<lambda>h. endpoint h (cl_meta_port c)) (masters_from c (map snd (cl_members c)))
      in fromkeys (cl_seeds c @ master_eps))"

fun named_members :: "pyval list \<Rightarrow> (string, node_info) dict \<Rightarrow> (string, node_info) dict result" where
  "named_members [] acc = Inr acc"
| "named_members (m # ms) acc =
     bind_result (bind_result (item m ''node_id'') as_str) (\<lambda>nid.
     bind_result (bind_result (as_dict m) node_from_dict) (\<lambda>info.
     named_members ms (AList.update nid info acc)))"

text \<open>\<open>_apply_members\<close>: the new client and the list handed to \<open>on_members\<close>.\<close>

definition apply_members :: "disc_client \<Rightarrow> pyval list \<Rightarrow> (disc_client \<times> node_info list) result" where
  "apply_members c raw =
     fmap_result (\<lambda>members. (c\<lparr>cl_members := members\<rparr>, map snd members)) (named_members raw [])"

section \<open>Talking to the masters\<close>

type_synonym masters = "string \<Rightarrow> disc_server"

text \<open>Which masters answer, and what their clocks say.\<close>

record disc_env =
  env_up :: "string \<Rightarrow> bool"
  env_clock :: "string \<Rightarrow> int"

definition disc_rpc :: "disc_env \<Rightarrow> masters \<Rightarrow> string \<Rightarrow> string \<Rightarrow> pyval \<Rightarrow> masters \<times> pyval result" where
  "disc_rpc env ms ep name args =
     (if env_up env ep
      then let (s, r) = rpc_call (disc_handlers (env_clock env ep)) (ms ep) name args in (ms(ep := s), r)
      else (ms, Inl ConnectionError))"

text \<open>\<open>for m in ...: merged[m["node_id"]] = m\<close>, up to the first record that raises.\<close>

fun merge_members :: "pyval list \<Rightarrow> (string, pyval) dict \<Rightarrow> (string, pyval) dict \<times> bool" where
  "merge_members [] merged = (merged, True)"
| "merge_members (m # ms) merged =
     (case bind_result (item m ''node_id'') as_str of
        Inl e \<Rightarrow> (merged, False)
      | Inr nid \<Rightarrow> merge_members ms (AList.update nid m merged))"

text \<open>The loop over \<open>resp.get("members", [])\<close>; \<open>False\<close> if it raised.\<close>

definition merge_reply :: "pyval result \<Rightarrow> (string, pyval) dict \<Rightarrow> (string, pyval) dict \<times> bool" where
  "merge_reply r merged =
     (case bind_result (bind_result r (\<lambda>resp. item_or resp ''members'' (VList []))) as_list of
        Inl e \<Rightarrow> (merged, False)
      | Inr raw \<Rightarrow> merge_members raw merged)"

definition register_one ::
  "disc_env \<Rightarrow> disc_client \<Rightarrow> masters \<Rightarrow> string \<Rightarrow> (string, pyval) dict \<Rightarrow> masters \<times> (string, pyval) dict \<times> bool" where
  "register_one env c ms ep merged =
     (let (ms, r) = disc_rpc env ms ep ''register'' (VDict [(''node'', VDict (node_to_dict (cl_self c)))]);
          (merged, ok) = merge_reply r merged
      in (ms, merged, ok))"

definition register_all ::
  "disc_env \<Rightarrow> disc_client \<Rightarrow> string list \<Rightarrow> masters \<Rightarrow> (string, pyval) dict \<Rightarrow> nat \<Rightarrow> masters \<times> (string, pyval) dict \<times> nat" where
  "register_all env c eps ms merged reached =
     fold (\<lambda>ep (ms, merged, reached).
             let (ms, merged, ok) = register_one env c ms ep merged
             in (ms, merged, if ok then reached + 1 else reached)) eps (ms, merged, reached)"

definition disc_register ::
  "disc_env \<Rightarrow> disc_client \<Rightarrow> masters \<Rightarrow> masters \<times> (disc_client \<times> node_info list) result" where
  "disc_register env c ms =
     (let (ms, merged, reached) = register_all env c (targets c) ms [] 0
      in (ms, if reached = 0 then Inl ConnectionError else apply_members c (map snd merged)))"

text \<open>
  \<open>_register_blocking\<close> polls until a registration succeeds. Each attempt meets its own
  environment; running out of them is \<open>None\<close>, the client still waiting.
\<close>

fun register_blocking ::
  "disc_env list \<Rightarrow> disc_client \<Rightarrow> masters \<Rightarrow> masters \<times> (disc_client \<times> node_info list) option" where
  "register_blocking [] c ms = (ms, None)"
| "register_blocking (env # envs) c ms =
     (if \<not> cl_running c then (ms, None)
      else case disc_register env c ms of
             (ms, Inr r) \<Rightarrow> (ms, Some r)
           | (ms, Inl e) \<Rightarrow> register_blocking envs c ms)"

definition disc_start ::
  "disc_env list \<Rightarrow> disc_client \<Rightarrow> masters \<Rightarrow> masters \<times> (disc_client \<times> node_info list) option" where
  "disc_start envs c ms = register_blocking envs (c\<lparr>cl_running := True\<rparr>) ms"

definition disc_stop :: "disc_env \<Rightarrow> disc_client \<Rightarrow> masters \<Rightarrow> masters \<times> disc_client" where
  "disc_stop env c ms =
     (let c = c\<lparr>cl_running := False\<rparr>
      in (fold (\<lambda>ep ms. fst (disc_rpc env ms ep ''deregister'' (VDict [(''node_id'', VStr (ni_node_id (cl_self c)))])))
            (targets c) ms, c))"

text \<open>One target of a heartbeat.\<close>

definition beat_one ::
  "disc_env \<Rightarrow> disc_client \<Rightarrow> string \<Rightarrow> masters \<times> (string, pyval) dict \<times> nat \<Rightarrow> masters \<times> (string, pyval) dict \<times> nat" where
  "beat_one env c ep st =
     (let (ms, merged, reached) = st;
          (ms, r) = disc_rpc env ms ep ''heartbeat'' (VDict [(''node_id'', VStr (ni_node_id (cl_self c)))])
      in case r of
           Inl e \<Rightarrow> (ms, merged, reached)
         | Inr hb \<Rightarrow>
             (case item_or hb ''known'' (VBool False) of
                Inl e \<Rightarrow> (ms, merged, reached + 1)
              | Inr known \<Rightarrow>
                  if truthy known
                  then let (ms, r) = disc_rpc env ms ep ''members'' VNone;
                           (merged, _) = merge_reply r merged
                       in (ms, merged, reached + 1)
                  else let (ms, merged, _) = register_one env c ms ep merged in (ms, merged, reached + 1)))"

text \<open>
  The body of \<open>_loop\<close>. The result is the client with the members it announces, if any; an exception
  of \<open>_apply_members\<close> ends the loop.
\<close>

definition beat ::
  "disc_env \<Rightarrow> disc_client \<Rightarrow> masters \<Rightarrow> masters \<times> (disc_client \<times> node_info list option) result" where
  "beat env c ms =
     (let (ms, merged, reached) = fold (beat_one env c) (targets c) (ms, [], 0);
          c = c\<lparr>cl_beats := cl_beats c + 1\<rparr>
      in (ms, if reached = 0 then Inr (c, None)
              else if merged \<noteq> [] then fmap_result (\<lambda>(c, l). (c, Some l)) (apply_members c (map snd merged))
              else Inr (c, None)))"

section \<open>The table of a master\<close>

lemma map_of_prune:
  assumes "dict_ok (sv_members s)"
  shows "map_of (sv_members (prune now s)) n =
    (case map_of (sv_members s) n of None \<Rightarrow> None
     | Some (info, ts) \<Rightarrow> if now - ts > sv_ttl s then None else Some (info, ts))"
proof -
  have "n \<in> set (map fst (filter (\<lambda>(nid, _, ts). now - ts > sv_ttl s) (sv_members s))) \<longleftrightarrow>
      (\<exists>info ts. map_of (sv_members s) n = Some (info, ts) \<and> now - ts > sv_ttl s)"
    using dict_ok_map_of [OF assms, of n] by (force simp: image_iff)
  then show ?thesis
    by (auto simp: prune_def map_of_fold_delete split: option.split)
qed

lemma prune_simps [simp]:
  "sv_ttl (prune now s) = sv_ttl s" "dict_ok (sv_members s) \<Longrightarrow> dict_ok (sv_members (prune now s))"
  by (simp_all add: prune_def)

text \<open>
  What a master can hold: one record per node id, of a node with that id, and never a negative
  time to live.
\<close>

definition sv_ok :: "disc_server \<Rightarrow> bool" where
  "sv_ok s \<longleftrightarrow> dict_ok (sv_members s) \<and> 0 \<le> sv_ttl s \<and>
     (\<forall>nid info ts. map_of (sv_members s) nid = Some (info, ts) \<longrightarrow>
        (\<exists>n. ni_node_id n = nid \<and> info = VDict (node_to_dict n)))"

lemma sv_okD:
  assumes "sv_ok s"
  shows "dict_ok (sv_members s)" and "0 \<le> sv_ttl s"
    and "map_of (sv_members s) nid = Some (info, ts) \<Longrightarrow> \<exists>n. ni_node_id n = nid \<and> info = VDict (node_to_dict n)"
  using assms by (simp_all add: sv_ok_def)

lemma prune_ok: "sv_ok s \<Longrightarrow> sv_ok (prune now s)"
  unfolding sv_ok_def by (auto simp: map_of_prune split: option.splits if_splits)

lemma update_ok:
  "sv_ok s \<Longrightarrow> ni_node_id n = nid \<Longrightarrow>
   sv_ok (s\<lparr>sv_members := AList.update nid (VDict (node_to_dict n), now) (sv_members s)\<rparr>)"
  unfolding sv_ok_def by auto

lemma delete_ok: "sv_ok s \<Longrightarrow> sv_ok (s\<lparr>sv_members := AList.delete nid (sv_members s)\<rparr>)"
  unfolding sv_ok_def by auto

text \<open>The requests that clients send.\<close>

datatype disc_req = Register node_info | Heartbeat string | Members | Deregister string

fun req_name :: "disc_req \<Rightarrow> string" where
  "req_name (Register n) = ''register''"
| "req_name (Heartbeat nid) = ''heartbeat''"
| "req_name Members = ''members''"
| "req_name (Deregister nid) = ''deregister''"

fun req_args :: "disc_req \<Rightarrow> pyval" where
  "req_args (Register n) = VDict [(''node'', VDict (node_to_dict n))]"
| "req_args (Heartbeat nid) = VDict [(''node_id'', VStr nid)]"
| "req_args Members = VNone"
| "req_args (Deregister nid) = VDict [(''node_id'', VStr nid)]"

definition disc_serve :: "disc_server \<Rightarrow> int \<times> disc_req \<Rightarrow> disc_server" where
  "disc_serve s r = fst (rpc_call (disc_handlers (fst r)) s (req_name (snd r)) (req_args (snd r)))"

lemma field_node_id [simp]: "field (node_to_dict n) ''node_id'' = Inr (VStr (ni_node_id n))"
  by (simp add: field_def node_to_dict_def)

lemma field_single [simp]: "field [(k, v)] k = Inr v"
  by (simp add: field_def)

lemmas handler_simps = rpc_call_def disc_handlers_def rpc_register_def or_empty_def Let_def

lemma call_register:
  "rpc_call (disc_handlers now) s ''register'' (VDict [(''node'', VDict (node_to_dict n))]) =
     (let s = prune now (s\<lparr>sv_members := AList.update (ni_node_id n) (VDict (node_to_dict n), now) (sv_members s)\<rparr>)
      in (s, Inr (members_reply s)))"
  by (simp add: handler_simps on_register_def)

lemma call_heartbeat:
  "rpc_call (disc_handlers now) s ''heartbeat'' (VDict [(''node_id'', VStr nid)]) =
     (case map_of (sv_members s) nid of
        Some (info, _) \<Rightarrow>
          (prune now (s\<lparr>sv_members := AList.update nid (info, now) (sv_members s)\<rparr>), Inr (VDict [(''known'', VBool True)]))
      | None \<Rightarrow> (prune now s, Inr (VDict [(''known'', VBool False)])))"
  by (simp add: handler_simps on_heartbeat_def split: option.split)

lemma call_members:
  "rpc_call (disc_handlers now) s ''members'' VNone = (prune now s, Inr (members_reply (prune now s)))"
  by (simp add: handler_simps on_members_def Let_def)

lemma call_deregister:
  "rpc_call (disc_handlers now) s ''deregister'' (VDict [(''node_id'', VStr nid)]) =
     (s\<lparr>sv_members := AList.delete nid (sv_members s)\<rparr>, Inr (VDict [(''ok'', VBool True)]))"
  by (simp add: handler_simps on_deregister_def)

lemma disc_serve_simps:
  "disc_serve s (now, Register n) = prune now (s\<lparr>sv_members := AList.update (ni_node_id n) (VDict (node_to_dict n), now) (sv_members s)\<rparr>)"
  "disc_serve s (now, Heartbeat nid) = (case map_of (sv_members s) nid of
      Some (info, _) \<Rightarrow> prune now (s\<lparr>sv_members := AList.update nid (info, now) (sv_members s)\<rparr>) | None \<Rightarrow> prune now s)"
  "disc_serve s (now, Members) = prune now s"
  "disc_serve s (now, Deregister nid) = s\<lparr>sv_members := AList.delete nid (sv_members s)\<rparr>"
  by (simp_all add: disc_serve_def call_register call_heartbeat call_members call_deregister Let_def split: option.split)

lemma disc_serve_ok: "sv_ok s \<Longrightarrow> sv_ok (disc_serve s r)"
proof -
  assume ok: "sv_ok s"
  obtain now q where r: "r = (now, q)" by fastforce
  show ?thesis
  proof (cases q)
    case (Heartbeat nid)
    then show ?thesis
      using ok sv_okD(3) [OF ok, of nid]
      by (auto simp: r disc_serve_simps prune_ok update_ok split: option.split)
  qed (simp_all add: r disc_serve_simps ok prune_ok update_ok delete_ok)
qed

lemma disc_serve_ttl [simp]: "sv_ttl (disc_serve s r) = sv_ttl s"
  by (cases "(s, r)" rule: prod.exhaust) (cases r, cases "snd r", auto simp: disc_serve_simps split: option.split)


section \<open>Who is listed\<close>

text \<open>Where an entry of a master's table comes from.\<close>

lemma disc_serve_entry:
  assumes ok: "sv_ok s" and e: "map_of (sv_members (disc_serve s r)) nid = Some (info, ts)"
  shows "map_of (sv_members s) nid = Some (info, ts) \<or>
    (\<exists>n. r = (ts, Register n) \<and> ni_node_id n = nid \<and> info = VDict (node_to_dict n)) \<or>
    r = (ts, Heartbeat nid) \<and> (\<exists>t0. map_of (sv_members s) nid = Some (info, t0))"
proof -
  note d = sv_okD(1) [OF ok]
  obtain now q where r: "r = (now, q)" by fastforce
  show ?thesis
    using e d unfolding r
    by (cases q) (auto simp: disc_serve_simps map_of_prune split: option.splits if_splits prod.splits)
qed

text \<open>What a master may hold for a node, by the requests it served.\<close>

definition stamp_ok :: "(int \<times> disc_req) set \<Rightarrow> string \<Rightarrow> pyval \<Rightarrow> int \<Rightarrow> bool" where
  "stamp_ok R nid info ts \<longleftrightarrow>
     (\<exists>n t0. ni_node_id n = nid \<and> info = VDict (node_to_dict n) \<and> (t0, Register n) \<in> R) \<and>
     ((ts, Heartbeat nid) \<in> R \<or> (\<exists>n. ni_node_id n = nid \<and> (ts, Register n) \<in> R))"

definition stamped :: "(int \<times> disc_req) set \<Rightarrow> disc_server \<Rightarrow> bool" where
  "stamped R s \<longleftrightarrow> (\<forall>nid info ts. map_of (sv_members s) nid = Some (info, ts) \<longrightarrow> stamp_ok R nid info ts)"

lemma stamp_ok_mono: "stamp_ok R nid info ts \<Longrightarrow> R \<subseteq> R' \<Longrightarrow> stamp_ok R' nid info ts"
  unfolding stamp_ok_def by blast

lemma stamped_serve:
  assumes st: "stamped R s" and ok: "sv_ok s"
  shows "stamped (insert r R) (disc_serve s r)"
  unfolding stamped_def
proof (intro allI impI)
  fix nid info ts assume "map_of (sv_members (disc_serve s r)) nid = Some (info, ts)"
  from disc_serve_entry [OF ok this] show "stamp_ok (insert r R) nid info ts"
  proof (elim disjE exE conjE)
    assume "map_of (sv_members s) nid = Some (info, ts)"
    with st show ?thesis unfolding stamped_def by (blast intro: stamp_ok_mono)
  next
    fix n assume "r = (ts, Register n)" "ni_node_id n = nid" "info = VDict (node_to_dict n)"
    then show ?thesis by (auto simp: stamp_ok_def)
  next
    fix t0 assume "r = (ts, Heartbeat nid)" "map_of (sv_members s) nid = Some (info, t0)"
    with st have "stamp_ok R nid info t0" unfolding stamped_def by blast
    with \<open>r = (ts, Heartbeat nid)\<close> show ?thesis unfolding stamp_ok_def by blast
  qed
qed

lemma disc_run:
  assumes "0 \<le> ttl"
  shows "sv_ok (foldl disc_serve (DiscoveryServer ttl) reqs) \<and> stamped (set reqs) (foldl disc_serve (DiscoveryServer ttl) reqs) \<and>
    sv_ttl (foldl disc_serve (DiscoveryServer ttl) reqs) = ttl"
proof (induction reqs rule: rev_induct)
  case Nil
  then show ?case using assms by (simp add: DiscoveryServer_def sv_ok_def stamped_def)
next
  case (snoc r reqs)
  then show ?case by (simp add: disc_serve_ok stamped_serve)
qed

text \<open>A node that was heard of at \<open>t\<close> stays listed while no clock reading is past its time to live.\<close>

definition fresh_since :: "int \<Rightarrow> string \<Rightarrow> disc_server \<Rightarrow> bool" where
  "fresh_since t nid s \<longleftrightarrow> (\<exists>info ts. map_of (sv_members s) nid = Some (info, ts) \<and> t \<le> ts)"

lemma fresh_prune:
  "sv_ok s \<Longrightarrow> fresh_since t nid s \<Longrightarrow> now - t \<le> sv_ttl s \<Longrightarrow> fresh_since t nid (prune now s)"
  by (auto simp: fresh_since_def map_of_prune sv_okD)

lemma fresh_serve:
  assumes ok: "sv_ok s" and fr: "fresh_since t nid s" and now: "t \<le> now" "now - t \<le> sv_ttl s" and q: "q \<noteq> Deregister nid"
  shows "fresh_since t nid (disc_serve s (now, q))"
proof -
  have up: "fresh_since t nid (prune now (s\<lparr>sv_members := AList.update m (VDict (node_to_dict n), now) (sv_members s)\<rparr>))"
    if "ni_node_id n = m" for m n
    using fr now that by (intro fresh_prune update_ok) (auto simp: fresh_since_def ok)
  show ?thesis
  proof (cases q)
    case (Heartbeat m)
    show ?thesis
    proof (cases "map_of (sv_members s) m")
      case None
      with Heartbeat fr now ok show ?thesis by (simp add: disc_serve_simps fresh_prune)
    next
      case (Some x)
      obtain info ts where x: "x = (info, ts)" by fastforce
      with Some sv_okD(3) [OF ok, of m info ts] obtain n where "ni_node_id n = m" "info = VDict (node_to_dict n)" by auto
      with Heartbeat Some x up [of n m] show ?thesis by (simp add: disc_serve_simps)
    qed
  next
    case (Deregister m)
    with fr q show ?thesis by (auto simp: disc_serve_simps fresh_since_def)
  qed (use fr now ok up in \<open>simp_all add: disc_serve_simps fresh_prune\<close>)
qed

lemma fresh_run:
  "sv_ok s \<Longrightarrow> fresh_since t nid s \<Longrightarrow>
   \<forall>(now, q) \<in> set reqs. t \<le> now \<and> now - t \<le> sv_ttl s \<and> q \<noteq> Deregister nid \<Longrightarrow>
   fresh_since t nid (foldl disc_serve s reqs)"
  by (induction reqs arbitrary: s) (auto simp: fresh_serve disc_serve_ok)


definition toy_node :: node_info where
  "toy_node = \<lparr>ni_node_id = ''n1'', control_host = ''h1'', control_port = 5, rdma_host = ''h1'', rdma_port = 6,
     ni_role = ''inference''\<rparr>"


section \<open>The masters\<close>

text \<open>The order in which the hosts of a membership are promoted.\<close>

definition promotion :: "string list \<Rightarrow> string set \<Rightarrow> string list" where
  "promotion seeds H =
     filter (\<lambda>h. h \<in> H) seeds @ filter (\<lambda>h. h \<notin> set seeds) (sorted_list_of_set H)"

lemma masters_from_promotion:
  "masters_from c members = take (cl_max_masters c) (promotion (cl_seed_hosts c) (control_host ` set members))"
proof -
  have "filter (\<lambda>h. h \<in> set (cl_seed_hosts c) \<longrightarrow> h \<notin> control_host ` set members)
      (sorted_list_of_set (control_host ` set members)) =
    filter (\<lambda>h. h \<notin> set (cl_seed_hosts c)) (sorted_list_of_set (control_host ` set members))"
    by (rule filter_cong) auto
  then show ?thesis by (simp add: masters_from_def promotion_def Let_def)
qed

lemma promotion_props:
  assumes "finite H" and "distinct seeds"
  shows "distinct (promotion seeds H)" and "set (promotion seeds H) = H"
  using assms by (auto simp: promotion_def)

lemma promotion_filter:
  assumes "finite H" and "H' \<subseteq> H"
  shows "promotion seeds H' = filter (\<lambda>h. h \<in> H') (promotion seeds H)"
proof -
  have "sorted_list_of_set H' = filter (\<lambda>h. h \<in> H') (sorted_list_of_set H)"
    using assms finite_subset [OF assms(2,1)]
    by (intro sorted_distinct_set_unique) (auto simp: sorted_wrt_filter)
  then show ?thesis
    using assms by (auto simp: promotion_def conj_commute intro!: filter_cong)
qed

lemma take_filter_keeps: "x \<in> set (take k xs) \<Longrightarrow> P x \<Longrightarrow> x \<in> set (take k (filter P xs))"
proof (induction xs arbitrary: k)
  case Nil
  then show ?case by simp
next
  case (Cons y ys)
  then obtain k' where k: "k = Suc k'" by (cases k) auto
  show ?case
  proof (cases "x = y")
    case False
    with Cons k have "x \<in> set (take k' (filter P ys))" by simp
    then show ?thesis using set_take_subset_set_take [of k' "Suc k'" "filter P ys"] k by auto
  qed (use Cons.prems k in simp)
qed

text \<open>
  C23. Every node computes the same masters from the same live hosts, whatever order it heard of
  them in; there are \<open>max_masters\<close> of them, or all hosts if there are fewer; a configured head that is
  alive is among them while the heads fit; and when hosts fail, every surviving master stays a
  master, so that mastership moves only to fill the gaps.
\<close>

theorem masters_agree_and_survive:
  assumes seeds: "distinct (cl_seed_hosts c)" and "ms = masters_from c members"
    and H: "control_host ` set members = H"
  shows "distinct ms \<and> set ms \<subseteq> H \<and> length ms = min (cl_max_masters c) (card H) \<and>
    (\<forall>h. h \<in> H \<and> h \<in> set (cl_seed_hosts c) \<and> length (cl_seed_hosts c) \<le> cl_max_masters c \<longrightarrow> h \<in> set ms) \<and>
    (\<forall>c' members'. cl_seed_hosts c' = cl_seed_hosts c \<and> cl_max_masters c' = cl_max_masters c \<and>
       control_host ` set members' \<subseteq> H \<longrightarrow>
       (\<forall>h \<in> set ms. h \<in> control_host ` set members' \<longrightarrow> h \<in> set (masters_from c' members')) \<and>
       (control_host ` set members' = H \<longrightarrow> masters_from c' members' = ms))"
proof -
  let ?s = "cl_seed_hosts c" and ?k = "cl_max_masters c"
  have fin: "finite H" using H by blast
  have ms: "ms = take ?k (promotion ?s H)" using assms(2) H by (simp add: masters_from_promotion)
  note p = promotion_props [OF fin seeds]
  have "length (promotion ?s H) = card H" using p distinct_card by fastforce
  then have 1: "distinct ms \<and> set ms \<subseteq> H \<and> length ms = min ?k (card H)"
    using p set_take_subset [of ?k "promotion ?s H"] by (auto simp: ms)
  have 2: "h \<in> set ms" if "h \<in> H" "h \<in> set ?s" "length ?s \<le> ?k" for h
  proof -
    have "length (filter (\<lambda>h. h \<in> H) ?s) \<le> ?k" using that(3) length_filter_le le_trans by blast
    with that show ?thesis by (auto simp: ms promotion_def)
  qed
  have 3: "h \<in> set (masters_from c' members')"
    if "cl_seed_hosts c' = ?s" "cl_max_masters c' = ?k" "control_host ` set members' \<subseteq> H" "h \<in> set ms"
      "h \<in> control_host ` set members'" for c' members' h
    using that(4,5) unfolding masters_from_promotion that(1,2) promotion_filter [OF fin that(3)] ms
    by (intro take_filter_keeps)
  have 4: "masters_from c' members' = ms"
    if "cl_seed_hosts c' = ?s" "cl_max_masters c' = ?k" "control_host ` set members' = H" for c' members'
    using that by (simp add: masters_from_promotion ms)
  show ?thesis
    using 1 2 3 4 by (intro conjI allI impI ballI) (simp_all only: simp_thms)
qed

definition toy_client :: disc_client where
  "toy_client = \<lparr>cl_seeds = [''h1:7''], cl_seed_hosts = [''h1''], cl_meta_port = 7, cl_max_masters = 3,
     cl_self = toy_node, cl_members = [], cl_running = True, cl_beats = 0\<rparr>"

lemma toy_client_new: "DiscoveryClient '' h1:7,'' toy_node None 3 = Inr (toy_client\<lparr>cl_running := False\<rparr>)"
  by (simp add: DiscoveryClient_def toy_client_def strip_def is_space_def host_part_def port_part_def
      rsplit_colon_def parse_nat_def digit_val_def)

theorem masters_agree_and_survive_witness:
  "length (masters_from toy_client [toy_node, toy_node]) = 1"
proof -
  have "distinct (cl_seed_hosts toy_client)" by (simp add: toy_client_def)
  note masters_agree_and_survive [OF this refl refl, of "[toy_node, toy_node]"]
  then have "length (masters_from toy_client [toy_node, toy_node]) =
      min (cl_max_masters toy_client) (card (control_host ` set [toy_node, toy_node]))" by (elim conjE)
  then show ?thesis by (simp add: toy_client_def)
qed

section \<open>Heartbeats\<close>

lemma fromkeys_snoc: "fromkeys (xs @ [x]) = (if x \<in> set (fromkeys xs) then fromkeys xs else fromkeys xs @ [x])"
  by (simp add: fromkeys_def)

lemma set_fromkeys [simp]: "set (fromkeys xs) = set xs"
  by (induction xs rule: rev_induct) (auto simp: fromkeys_snoc, simp add: fromkeys_def)

lemma distinct_fromkeys [simp]: "distinct (fromkeys xs)"
  by (induction xs rule: rev_induct) (auto simp: fromkeys_snoc, simp add: fromkeys_def)

lemma distinct_targets: "distinct (targets c)"
  by (simp add: targets_def Let_def)

text \<open>The records of a table by node id, as a client merges them.\<close>

definition table :: "disc_server \<Rightarrow> (string, pyval) dict" where
  "table s = map (\<lambda>(nid, info, ts). (nid, info)) (sv_members s)"

lemma fst_table: "fst ` set (table s) = fst ` set (sv_members s)"
  by (force simp: table_def)

lemma merge_members_table:
  assumes "\<forall>(nid, info) \<in> set xs. \<exists>n. ni_node_id n = nid \<and> info = VDict (node_to_dict n)"
  shows "merge_members (map snd xs) merged = (dict_update merged xs, True)"
  using assms by (induction xs arbitrary: merged) auto

lemma sv_ok_table:
  assumes "sv_ok s"
  shows "\<forall>(nid, info) \<in> set (table s). \<exists>n. ni_node_id n = nid \<and> info = VDict (node_to_dict n)"
proof safe
  fix nid info assume "(nid, info) \<in> set (table s)"
  then obtain ts where "map_of (sv_members s) nid = Some (info, ts)"
    using dict_ok_map_of [OF sv_okD(1) [OF assms]] by (auto simp: table_def)
  then show "\<exists>n. ni_node_id n = nid \<and> info = VDict (node_to_dict n)" by (rule sv_okD(3) [OF assms])
qed

lemma merge_reply_table:
  assumes "sv_ok s"
  shows "merge_reply (Inr (members_reply s)) merged = (dict_update merged (table s), True)"
proof -
  have "map (\<lambda>(nid, info, ts). info) (sv_members s) = map snd (table s)" by (auto simp: table_def)
  then show ?thesis
    using merge_members_table [OF sv_ok_table [OF assms]] by (simp add: merge_reply_def members_reply_def field_or_def)
qed

lemma call_down: "\<not> env_up env ep \<Longrightarrow> disc_rpc env ms ep m a = (ms, Inl ConnectionError)"
  by (simp add: disc_rpc_def)

lemma beat_one_down: "\<not> env_up env ep \<Longrightarrow> beat_one env c ep st = st"
  by (simp add: beat_one_def call_down Let_def split: prod.split)

text \<open>
  A master that answers a heartbeat knows the node afterwards, freshly stamped, and its table is
  merged.
\<close>

lemma beat_one_up:
  assumes up: "env_up env ep" and ok: "sv_ok (ms ep)" and nid: "nid = ni_node_id (cl_self c)" and now: "now = env_clock env ep"
  shows "\<exists>s'. beat_one env c ep (ms, merged, k) = (ms(ep := s'), dict_update merged (table s'), k + 1) \<and> sv_ok s' \<and>
    (\<exists>info. map_of (sv_members s') nid = Some (info, now))"
proof (cases "map_of (sv_members (ms ep)) nid")
  case None
  let ?s1 = "prune now (ms ep)"
  let ?s2 = "prune now (?s1\<lparr>sv_members := AList.update nid (VDict (node_to_dict (cl_self c)), now) (sv_members ?s1)\<rparr>)"
  have ok1: "sv_ok ?s1" using ok by (rule prune_ok)
  have ok2: "sv_ok ?s2" using nid by (intro prune_ok update_ok ok1) simp
  have "beat_one env c ep (ms, merged, k) = (ms(ep := ?s2), dict_update merged (table ?s2), k + 1)"
    using up None nid now merge_reply_table [OF ok2, of merged]
    by (simp add: beat_one_def disc_rpc_def call_heartbeat register_one_def call_register field_or_def Let_def)
  moreover have "map_of (sv_members ?s2) nid = Some (VDict (node_to_dict (cl_self c)), now)"
    using sv_okD(1,2) [OF ok1] by (simp add: map_of_prune)
  ultimately show ?thesis using ok2 by blast
next
  case (Some x)
  obtain info ts where x: "x = (info, ts)" by fastforce
  with sv_okD(3) [OF ok] Some obtain n where n: "ni_node_id n = nid" "info = VDict (node_to_dict n)" by blast
  let ?s1 = "prune now ((ms ep)\<lparr>sv_members := AList.update nid (info, now) (sv_members (ms ep))\<rparr>)"
  have ok1: "sv_ok ?s1" unfolding n(2) using n(1) ok by (intro prune_ok update_ok) simp_all
  have ok2: "sv_ok (prune now ?s1)" using ok1 by (rule prune_ok)
  have "beat_one env c ep (ms, merged, k) = (ms(ep := prune now ?s1), dict_update merged (table (prune now ?s1)), k + 1)"
    using up Some x nid now merge_reply_table [OF ok2, of merged]
    by (simp add: beat_one_def disc_rpc_def call_heartbeat call_members field_or_def Let_def)
  moreover have "map_of (sv_members (prune now ?s1)) nid = Some (info, now)"
    using sv_okD(1,2) [OF ok] sv_okD(1,2) [OF ok1] by (simp add: map_of_prune)
  ultimately show ?thesis using ok2 by blast
qed

definition good_records :: "(string, pyval) dict \<Rightarrow> bool" where
  "good_records xs \<longleftrightarrow> (\<forall>(nid, info) \<in> set xs. \<exists>n. ni_node_id n = nid \<and> info = VDict (node_to_dict n))"

lemma fst_dict_update: "fst ` set (dict_update d xs) = fst ` set d \<union> fst ` set xs"
proof (induction xs arbitrary: d)
  case (Cons x xs)
  then show ?case by (cases x) (simp add: fst_set_update)
qed simp

lemma good_records_subset: "good_records ys \<Longrightarrow> set xs \<subseteq> set ys \<Longrightarrow> good_records xs"
  unfolding good_records_def by blast

lemma good_dict_update: "good_records d \<Longrightarrow> good_records xs \<Longrightarrow> good_records (dict_update d xs)"
proof (induction xs arbitrary: d)
  case Nil
  then show ?case by simp
next
  case (Cons x xs)
  obtain nid info where x: "x = (nid, info)" by fastforce
  from Cons.prems have "good_records (x # d)" "good_records xs" by (simp_all add: good_records_def)
  moreover have "set (AList.update nid info d) \<subseteq> set (x # d)"
    using set_update_subset [of nid info d] by (simp add: x)
  ultimately have "good_records (AList.update nid info d)" by (blast intro: good_records_subset)
  from Cons.IH [OF this \<open>good_records xs\<close>] show ?case by (simp add: x)
qed

text \<open>The masters and the merged records after a round of heartbeats to \<open>eps\<close>.\<close>

definition beat_post ::
  "disc_env \<Rightarrow> string \<Rightarrow> string list \<Rightarrow> masters \<Rightarrow> (string, pyval) dict \<Rightarrow> masters \<Rightarrow> (string, pyval) dict \<Rightarrow> bool" where
  "beat_post env nid eps ms merged ms' merged' \<longleftrightarrow>
     good_records merged' \<and> (\<forall>ep. ep \<notin> set eps \<or> \<not> env_up env ep \<longrightarrow> ms' ep = ms ep) \<and>
     (\<forall>ep \<in> set eps. env_up env ep \<longrightarrow> (\<exists>info. map_of (sv_members (ms' ep)) nid = Some (info, env_clock env ep))) \<and>
     fst ` set merged' = fst ` set merged \<union> (\<Union>ep \<in> {ep \<in> set eps. env_up env ep}. fst ` set (sv_members (ms' ep)))"

lemma beat_postI:
  assumes "good_records merged'"
    and "\<And>ep. ep \<notin> set eps \<or> \<not> env_up env ep \<Longrightarrow> ms' ep = ms ep"
    and "\<And>ep. ep \<in> set eps \<Longrightarrow> env_up env ep \<Longrightarrow> \<exists>info. map_of (sv_members (ms' ep)) nid = Some (info, env_clock env ep)"
    and "fst ` set merged' = fst ` set merged \<union> (\<Union>ep \<in> {ep \<in> set eps. env_up env ep}. fst ` set (sv_members (ms' ep)))"
  shows "beat_post env nid eps ms merged ms' merged'"
  unfolding beat_post_def by (intro conjI allI ballI impI assms)

lemma beat_postD:
  assumes "beat_post env nid eps ms merged ms' merged'"
  shows "good_records merged'"
    and "ep \<notin> set eps \<or> \<not> env_up env ep \<Longrightarrow> ms' ep = ms ep"
    and "ep \<in> set eps \<Longrightarrow> env_up env ep \<Longrightarrow> \<exists>info. map_of (sv_members (ms' ep)) nid = Some (info, env_clock env ep)"
    and "fst ` set merged' = fst ` set merged \<union> (\<Union>ep \<in> {ep \<in> set eps. env_up env ep}. fst ` set (sv_members (ms' ep)))"
  using assms unfolding beat_post_def by simp_all

lemma beat_post_down:
  assumes "beat_post env nid eps ms merged ms' merged'" and "\<not> env_up env ep"
  shows "beat_post env nid (ep # eps) ms merged ms' merged'"
proof (rule beat_postI)
  have "{e \<in> set (ep # eps). env_up env e} = {e \<in> set eps. env_up env e}" using assms(2) by auto
  with beat_postD(4) [OF assms(1)]
  show "fst ` set merged' = fst ` set merged \<union> (\<Union>e \<in> {e \<in> set (ep # eps). env_up env e}. fst ` set (sv_members (ms' e)))"
    by simp
qed (use beat_postD(1-3) [OF assms(1)] assms(2) in auto)

lemma beat_post_up:
  assumes post: "beat_post env nid eps (ms(ep := s)) (dict_update merged (table s)) ms' merged'" and up: "env_up env ep"
    and new: "ep \<notin> set eps" and st: "\<exists>info. map_of (sv_members s) nid = Some (info, env_clock env ep)"
  shows "beat_post env nid (ep # eps) ms merged ms' merged'"
proof (rule beat_postI)
  have here: "ms' ep = s" using beat_postD(2) [OF post, of ep] new by simp
  have "{e \<in> set (ep # eps). env_up env e} = insert ep {e \<in> set eps. env_up env e}" using up by auto
  then show "fst ` set merged' = fst ` set merged \<union> (\<Union>e \<in> {e \<in> set (ep # eps). env_up env e}. fst ` set (sv_members (ms' e)))"
    using beat_postD(4) [OF post] by (simp add: here fst_dict_update fst_table Un_assoc)
  show "ms' e = ms e" if "e \<notin> set (ep # eps) \<or> \<not> env_up env e" for e
    using beat_postD(2) [OF post, of e] that up by (cases "e = ep") simp_all
  show "\<exists>info. map_of (sv_members (ms' e)) nid = Some (info, env_clock env e)"
    if "e \<in> set (ep # eps)" "env_up env e" for e
    using beat_postD(3) [OF post, of e] here st that by (cases "e = ep") simp_all
qed (rule beat_postD(1) [OF post])

lemma beat_fold:
  assumes "distinct eps" and "\<forall>ep \<in> set eps. sv_ok (ms ep)" and "good_records merged"
  shows "\<exists>ms' merged'. fold (beat_one env c) eps (ms, merged, k) = (ms', merged', k + length (filter (env_up env) eps)) \<and>
    beat_post env (ni_node_id (cl_self c)) eps ms merged ms' merged'"
  using assms
proof (induction eps arbitrary: ms merged k)
  case Nil
  then show ?case by (simp add: beat_post_def)
next
  case (Cons ep eps)
  from Cons.prems(1) have d: "distinct eps" "ep \<notin> set eps" by simp_all
  show ?case
  proof (cases "env_up env ep")
    case False
    have "\<forall>e \<in> set eps. sv_ok (ms e)" using Cons.prems(2) by simp
    from Cons.IH [OF d(1) this Cons.prems(3), of k] obtain ms' merged' where
      ih: "fold (beat_one env c) eps (ms, merged, k) = (ms', merged', k + length (filter (env_up env) eps))"
        "beat_post env (ni_node_id (cl_self c)) eps ms merged ms' merged'" by blast
    from ih(1) False have "fold (beat_one env c) (ep # eps) (ms, merged, k) = (ms', merged', k + length (filter (env_up env) (ep # eps)))"
      by (simp add: beat_one_down)
    with beat_post_down [OF ih(2) False] show ?thesis by blast
  next
    case True
    from Cons.prems(2) have "sv_ok (ms ep)" by simp
    from beat_one_up [where ms = ms and env = env, OF True this refl refl] obtain s' where
      s': "beat_one env c ep (ms, merged, k) = (ms(ep := s'), dict_update merged (table s'), k + 1)" "sv_ok s'"
        "\<exists>info. map_of (sv_members s') (ni_node_id (cl_self c)) = Some (info, env_clock env ep)" by blast
    have g: "good_records (dict_update merged (table s'))"
      using Cons.prems(3) sv_ok_table [OF s'(2)] by (intro good_dict_update) (simp_all add: good_records_def)
    have oks: "\<forall>e \<in> set eps. sv_ok ((ms(ep := s')) e)" using Cons.prems(2) s'(2) by simp
    from Cons.IH [OF d(1) oks g, of "k + 1"] obtain ms' merged' where
      ih: "fold (beat_one env c) eps (ms(ep := s'), dict_update merged (table s'), k + 1) =
          (ms', merged', k + 1 + length (filter (env_up env) eps))"
        "beat_post env (ni_node_id (cl_self c)) eps (ms(ep := s')) (dict_update merged (table s')) ms' merged'" by blast
    from s'(1) ih(1) True have "fold (beat_one env c) (ep # eps) (ms, merged, k) = (ms', merged', k + length (filter (env_up env) (ep # eps)))"
      by simp
    with beat_post_up [OF ih(2) True d(2) s'(3)] show ?thesis by blast
  qed
qed

lemma named_members_good:
  "good_records xs \<Longrightarrow> \<exists>L. named_members (map snd xs) acc = Inr L \<and> fst ` set L = fst ` set acc \<union> fst ` set xs"
proof (induction xs arbitrary: acc)
  case Nil
  then show ?case by simp
next
  case (Cons x xs)
  then obtain n where x: "x = (ni_node_id n, VDict (node_to_dict n))" by (auto simp: good_records_def)
  from Cons have "good_records xs" by (simp add: good_records_def)
  from Cons.IH [OF this, of "AList.update (ni_node_id n) n acc"] x show ?case by (auto simp: fst_set_update)
qed

text \<open>
  C22. Heartbeats keep the cluster together. If no master answers, nothing changes and the client
  keeps the membership it last knew. Otherwise every master that answers lists the node afterwards,
  stamped with the current time, even one that had restarted and forgotten it; and the client's
  new membership, which it also announces, is the union of what those masters list, itself included.
\<close>

theorem heartbeat_keeps_membership:
  assumes served: "\<forall>ep \<in> set (targets c). \<exists>ttl reqs. 0 \<le> ttl \<and> ms ep = foldl disc_serve (DiscoveryServer ttl) reqs"
    and R: "R = {ep \<in> set (targets c). env_up env ep}"
  shows "(R = {} \<longrightarrow> beat env c ms = (ms, Inr (c\<lparr>cl_beats := cl_beats c + 1\<rparr>, None))) \<and>
    (R \<noteq> {} \<longrightarrow> (\<exists>ms' c' l. beat env c ms = (ms', Inr (c', Some l)) \<and> l = map snd (cl_members c') \<and>
       (\<forall>ep \<in> R. \<exists>info. map_of (sv_members (ms' ep)) (ni_node_id (cl_self c)) = Some (info, env_clock env ep)) \<and>
       fst ` set (cl_members c') = (\<Union>ep \<in> R. fst ` set (sv_members (ms' ep))) \<and>
       has_key (cl_members c') (ni_node_id (cl_self c))))"
proof -
  have "\<forall>ep \<in> set (targets c). sv_ok (ms ep)" using served disc_run by metis
  from beat_fold [OF distinct_targets this, of "[]" env c 0] obtain ms' merged where
    f: "fold (beat_one env c) (targets c) (ms, [], 0) = (ms', merged, length (filter (env_up env) (targets c)))"
    and post: "beat_post env (ni_node_id (cl_self c)) (targets c) ms [] ms' merged"
    by (auto simp: good_records_def)
  from post have g: "good_records merged" and frame: "\<forall>ep. ep \<notin> set (targets c) \<or> \<not> env_up env ep \<longrightarrow> ms' ep = ms ep"
    and st: "\<forall>ep \<in> set (targets c). env_up env ep \<longrightarrow>
       (\<exists>info. map_of (sv_members (ms' ep)) (ni_node_id (cl_self c)) = Some (info, env_clock env ep))"
    and un: "fst ` set merged = (\<Union>ep \<in> R. fst ` set (sv_members (ms' ep)))"
    unfolding beat_post_def R by simp_all
  have none: "beat env c ms = (ms, Inr (c\<lparr>cl_beats := cl_beats c + 1\<rparr>, None))" if "R = {}"
  proof -
    have "filter (env_up env) (targets c) = []" "ms' = ms"
      using that frame unfolding R by (auto simp: filter_empty_conv fun_eq_iff)
    then show ?thesis using f by (simp add: beat_def)
  qed
  have "\<exists>ms' c' l. beat env c ms = (ms', Inr (c', Some l)) \<and> l = map snd (cl_members c') \<and>
       (\<forall>ep \<in> R. \<exists>info. map_of (sv_members (ms' ep)) (ni_node_id (cl_self c)) = Some (info, env_clock env ep)) \<and>
       fst ` set (cl_members c') = (\<Union>ep \<in> R. fst ` set (sv_members (ms' ep))) \<and>
       has_key (cl_members c') (ni_node_id (cl_self c))" if "R \<noteq> {}"
  proof -
    from that obtain ep where ep: "ep \<in> set (targets c)" "env_up env ep" unfolding R by blast
    then have some: "length (filter (env_up env) (targets c)) \<noteq> 0" by (auto simp: filter_empty_conv)
    from st ep obtain info where "map_of (sv_members (ms' ep)) (ni_node_id (cl_self c)) = Some (info, env_clock env ep)" by blast
    then have self: "ni_node_id (cl_self c) \<in> fst ` set merged"
      using ep unfolding un R by (force dest: map_of_SomeD)
    from named_members_good [OF g, of "[]"] obtain L where
      L: "named_members (map snd merged) [] = Inr L" "fst ` set L = fst ` set merged" by auto
    have "merged \<noteq> []" using self by auto
    with f some L(1) have "beat env c ms = (ms', Inr (c\<lparr>cl_beats := cl_beats c + 1, cl_members := L\<rparr>, Some (map snd L)))"
      by (simp add: beat_def apply_members_def)
    with st L(2) un self show ?thesis unfolding R by (auto simp: has_key_iff)
  qed
  with none show ?thesis by blast
qed

theorem heartbeat_keeps_membership_witness:
  "\<exists>ms' c' l. beat \<lparr>env_up = \<lambda>ep. True, env_clock = \<lambda>ep. 9\<rparr> toy_client (\<lambda>ep. DiscoveryServer 6) = (ms', Inr (c', Some l)) \<and>
     has_key (cl_members c') ''n1''"
proof -
  have t: "targets toy_client = [''h1:7'']"
    by (simp add: targets_def toy_client_def masters_from_def fromkeys_def)
  have "\<forall>ep \<in> set (targets toy_client). \<exists>ttl reqs. 0 \<le> ttl \<and> DiscoveryServer 6 = foldl disc_serve (DiscoveryServer ttl) reqs"
    by (metis foldl_Nil zero_le_numeral)
  from heartbeat_keeps_membership [OF this refl, of "\<lparr>env_up = \<lambda>ep. True, env_clock = \<lambda>ep. 9\<rparr>"] t
  show ?thesis by (auto simp: toy_client_def toy_node_def)
qed

section \<open>Registration\<close>

text \<open>A master that answers a registration lists the node afterwards, and its table is merged.\<close>

lemma register_one_up:
  assumes up: "env_up env ep" and ok: "sv_ok (ms ep)" and nid: "nid = ni_node_id (cl_self c)"
  shows "\<exists>s'. register_one env c ms ep merged = (ms(ep := s'), dict_update merged (table s'), True) \<and> sv_ok s' \<and>
    nid \<in> fst ` set (table s')"
proof -
  let ?now = "env_clock env ep"
  let ?s = "prune ?now ((ms ep)\<lparr>sv_members := AList.update nid (VDict (node_to_dict (cl_self c)), ?now) (sv_members (ms ep))\<rparr>)"
  have ok1: "sv_ok ?s" using nid by (intro prune_ok update_ok ok) simp
  have "register_one env c ms ep merged = (ms(ep := ?s), dict_update merged (table ?s), True)"
    using up nid merge_reply_table [OF ok1, of merged]
    by (simp add: register_one_def disc_rpc_def call_register Let_def)
  moreover have "map_of (sv_members ?s) nid = Some (VDict (node_to_dict (cl_self c)), ?now)"
    using sv_okD(1,2) [OF ok] by (simp add: map_of_prune)
  then have "nid \<in> fst ` set (table ?s)" unfolding fst_table by (force dest: map_of_SomeD)
  ultimately show ?thesis using ok1 by blast
qed

lemma register_one_down: "\<not> env_up env ep \<Longrightarrow> register_one env c ms ep merged = (ms, merged, False)"
  by (simp add: register_one_def call_down merge_reply_def)

lemma register_fold:
  assumes "\<forall>ep. sv_ok (ms ep)" and "good_records merged"
  shows "\<exists>ms' merged'. register_all env c eps ms merged k = (ms', merged', k + length (filter (env_up env) eps)) \<and>
    (\<forall>ep. sv_ok (ms' ep)) \<and> good_records merged' \<and> fst ` set merged \<subseteq> fst ` set merged' \<and>
    ((\<exists>ep \<in> set eps. env_up env ep) \<longrightarrow> ni_node_id (cl_self c) \<in> fst ` set merged')"
  using assms
proof (induction eps arbitrary: ms merged k)
  case Nil
  then show ?case by (simp add: register_all_def)
next
  case (Cons ep eps)
  show ?case
  proof (cases "env_up env ep")
    case False
    then have "register_all env c (ep # eps) ms merged k = register_all env c eps ms merged k"
      by (simp add: register_all_def register_one_down)
    moreover have "filter (env_up env) (ep # eps) = filter (env_up env) eps"
      and "(\<exists>e \<in> set (ep # eps). env_up env e) = (\<exists>e \<in> set eps. env_up env e)" using False by simp_all
    ultimately show ?thesis using Cons.IH [OF Cons.prems, of k] by (simp only:)
  next
    case True
    from register_one_up [where ms = ms, OF True _ refl, of c merged] Cons.prems(1) obtain s' where
      s': "register_one env c ms ep merged = (ms(ep := s'), dict_update merged (table s'), True)" "sv_ok s'"
        "ni_node_id (cl_self c) \<in> fst ` set (table s')" by blast
    have g: "good_records (dict_update merged (table s'))"
      using Cons.prems(2) sv_ok_table [OF s'(2)] by (intro good_dict_update) (simp_all add: good_records_def)
    have oks: "\<forall>e. sv_ok ((ms(ep := s')) e)" using Cons.prems(1) s'(2) by simp
    from Cons.IH [OF oks g, of "Suc k"] obtain ms' merged' where
      ih: "register_all env c eps (ms(ep := s')) (dict_update merged (table s')) (Suc k) =
          (ms', merged', Suc k + length (filter (env_up env) eps))" "\<forall>ep. sv_ok (ms' ep)" "good_records merged'"
        "fst ` set (dict_update merged (table s')) \<subseteq> fst ` set merged'" by blast
    have "register_all env c (ep # eps) ms merged k = (ms', merged', k + length (filter (env_up env) (ep # eps)))"
      using ih(1) s'(1) True by (simp add: register_all_def)
    moreover have "fst ` set merged \<subseteq> fst ` set merged'" "ni_node_id (cl_self c) \<in> fst ` set merged'"
      using ih(4) s'(3) unfolding fst_dict_update by auto
    ultimately show ?thesis using ih(2,3) by (intro exI conjI impI)
  qed
qed

lemma disc_register_outcome:
  assumes "\<forall>ep. sv_ok (ms ep)"
  shows "\<exists>ms' r. disc_register env c ms = (ms', r) \<and> (\<forall>ep. sv_ok (ms' ep)) \<and>
    ((\<exists>ep \<in> set (targets c). env_up env ep) \<longrightarrow>
       (\<exists>c'. r = Inr (c', map snd (cl_members c')) \<and> has_key (cl_members c') (ni_node_id (cl_self c)))) \<and>
    (\<not> (\<exists>ep \<in> set (targets c). env_up env ep) \<longrightarrow> (\<exists>e. r = Inl e))"
proof -
  have "good_records []" by (simp add: good_records_def)
  from register_fold [OF assms this, of env c "targets c" 0] obtain ms' merged where
    r: "register_all env c (targets c) ms [] 0 = (ms', merged, length (filter (env_up env) (targets c)))"
      "\<forall>ep. sv_ok (ms' ep)" "good_records merged"
      "(\<exists>ep \<in> set (targets c). env_up env ep) \<longrightarrow> ni_node_id (cl_self c) \<in> fst ` set merged" by auto
  from named_members_good [OF r(3), of "[]"] obtain L where
    L: "named_members (map snd merged) [] = Inr L" "fst ` set L = fst ` set merged" by auto
  show ?thesis
  proof (cases "\<exists>ep \<in> set (targets c). env_up env ep")
    case True
    then have "length (filter (env_up env) (targets c)) \<noteq> 0" by (auto simp: filter_empty_conv)
    then have "disc_register env c ms = (ms', Inr (c\<lparr>cl_members := L\<rparr>, map snd L))"
      using r(1) L(1) by (simp add: disc_register_def apply_members_def)
    moreover have "has_key (cl_members (c\<lparr>cl_members := L\<rparr>)) (ni_node_id (cl_self c))"
      using True r(4) L(2) by (simp add: has_key_iff)
    ultimately show ?thesis
      by (intro exI [of _ ms'] exI [of _ "Inr (c\<lparr>cl_members := L\<rparr>, map snd L)"] conjI impI exI [of _ "c\<lparr>cl_members := L\<rparr>"] r(2))
        (use True in simp_all)
  next
    case False
    then have "length (filter (env_up env) (targets c)) = 0" by (auto simp: filter_empty_conv)
    then have "disc_register env c ms = (ms', Inl ConnectionError)" using r(1) by (simp add: disc_register_def)
    with False r(2) show ?thesis by (intro exI [of _ ms'] exI [of _ "Inl ConnectionError"] conjI impI) simp_all
  qed
qed

text \<open>
  C28. Start-up terminates: however many rounds find no master answering, the blocking registration
  returns in the first round in which one of its targets does, and the node is then a member of the
  membership it starts with. Until then it keeps waiting.
\<close>

theorem registration_terminates:
  assumes "\<forall>ep. \<exists>ttl reqs. 0 \<le> ttl \<and> ms ep = foldl disc_serve (DiscoveryServer ttl) reqs" and "cl_running c"
  shows "((\<exists>env \<in> set envs. \<exists>ep \<in> set (targets c). env_up env ep) \<longrightarrow>
            (\<exists>ms' c'. register_blocking envs c ms = (ms', Some (c', map snd (cl_members c'))) \<and>
               has_key (cl_members c') (ni_node_id (cl_self c)))) \<and>
         (\<not> (\<exists>env \<in> set envs. \<exists>ep \<in> set (targets c). env_up env ep) \<longrightarrow> snd (register_blocking envs c ms) = None)"
proof -
  have "\<forall>ep. sv_ok (ms ep)" using assms(1) disc_run by metis
  then show ?thesis
  proof (induction envs arbitrary: ms)
    case Nil
    then show ?case by simp
  next
    case (Cons env envs)
    from disc_register_outcome [OF Cons.prems, of env c] obtain ms1 r where
      r: "disc_register env c ms = (ms1, r)" "\<forall>ep. sv_ok (ms1 ep)"
        "(\<exists>ep \<in> set (targets c). env_up env ep) \<longrightarrow>
           (\<exists>c'. r = Inr (c', map snd (cl_members c')) \<and> has_key (cl_members c') (ni_node_id (cl_self c)))"
        "\<not> (\<exists>ep \<in> set (targets c). env_up env ep) \<longrightarrow> (\<exists>e. r = Inl e)" by blast
    show ?case
    proof (cases "\<exists>ep \<in> set (targets c). env_up env ep")
      case True
      with r(3) obtain c' where c': "r = Inr (c', map snd (cl_members c'))" "has_key (cl_members c') (ni_node_id (cl_self c))"
        by blast
      then have "register_blocking (env # envs) c ms = (ms1, Some (c', map snd (cl_members c')))"
        using r(1) assms(2) by simp
      with c'(2) True show ?thesis by simp
    next
      case False
      with r(4) obtain e where "r = Inl e" by blast
      with r(1) assms(2) have "register_blocking (env # envs) c ms = register_blocking envs c ms1" by simp
      with False Cons.IH [OF r(2)] show ?thesis by simp
    qed
  qed
qed

theorem registration_terminates_witness:
  "\<exists>ms' c'. register_blocking [\<lparr>env_up = \<lambda>ep. False, env_clock = \<lambda>ep. 8\<rparr>, \<lparr>env_up = \<lambda>ep. True, env_clock = \<lambda>ep. 9\<rparr>]
      (toy_client\<lparr>cl_running := True\<rparr>) (\<lambda>ep. DiscoveryServer 6) = (ms', Some (c', map snd (cl_members c'))) \<and>
     has_key (cl_members c') ''n1''"
proof -
  have t: "targets (toy_client\<lparr>cl_running := True\<rparr>) = [''h1:7'']"
    by (simp add: targets_def toy_client_def masters_from_def fromkeys_def)
  have s: "\<forall>ep :: string. \<exists>ttl reqs. 0 \<le> ttl \<and> DiscoveryServer 6 = foldl disc_serve (DiscoveryServer ttl) reqs"
    by (metis foldl_Nil zero_le_numeral)
  show ?thesis
    using registration_terminates [where c = "toy_client\<lparr>cl_running := True\<rparr>" and
        envs = "[\<lparr>env_up = \<lambda>ep. False, env_clock = \<lambda>ep. 8\<rparr>, \<lparr>env_up = \<lambda>ep. True, env_clock = \<lambda>ep. 9\<rparr>]", OF s] t
    by (simp add: toy_client_def toy_node_def)
qed

end
