(* ===== verification/Transport.thy ===== *)
theory Transport
  imports Rpc
begin

text \<open>
  The data plane (\<^verbatim>\<open>python/peercache/transport.py\<close>): the TCP transport in full, the rail selection
  both transports share, and the RDMA transport as a client of its C++ engine, which is a parameter.

  Sockets are those of the RPC model. The lemmas show that the serving side touches registered memory
  only, whatever bytes arrive, and that client and server together implement remote reads and writes
  however TCP cuts the streams.
\<close>

section \<open>Memory regions and operations\<close>

text \<open>\<open>xs[i]\<close> of a Python list.\<close>

definition nth_result :: "'a list \<Rightarrow> nat \<Rightarrow> 'a result" where
  "nth_result xs i = (if i < length xs then Inr (xs ! i) else Inl IndexError)"

record mr =
  mr_addr :: nat
  mr_rkey :: nat
  mr_lkey :: nat
  mr_rkeys :: "nat list"
  mr_lkeys :: "nat list"

definition Mr :: "nat \<Rightarrow> nat \<Rightarrow> nat \<Rightarrow> nat list option \<Rightarrow> nat list option \<Rightarrow> mr" where
  "Mr addr rkey lkey rkeys lkeys =
     \<lparr>mr_addr = addr, mr_rkey = rkey, mr_lkey = lkey,
      mr_rkeys = (case rkeys of None \<Rightarrow> [rkey] | Some ks \<Rightarrow> ks),
      mr_lkeys = (case lkeys of None \<Rightarrow> [lkey] | Some ks \<Rightarrow> ks)\<rparr>"

record read_op =
  ro_endpoint :: string
  ro_local :: nat
  ro_remote :: nat
  ro_rkey :: nat
  ro_length :: nat

type_synonym regions = "(nat \<times> nat) list"

section \<open>The base class\<close>

definition read_ops ::
  "string list \<Rightarrow> nat list \<Rightarrow> nat list \<Rightarrow> nat list \<Rightarrow> nat list \<Rightarrow> read_op list result" where
  "read_ops remote_nodes local_addrs remote_addrs rkeys lengths =
     map_result (\<lambda>i. bind_result (nth_result remote_nodes i) (\<lambda>n.
                     bind_result (nth_result local_addrs i) (\<lambda>l.
                     bind_result (nth_result remote_addrs i) (\<lambda>r.
                     bind_result (nth_result rkeys i) (\<lambda>k.
                     bind_result (nth_result lengths i) (\<lambda>len.
                       Inr \<lparr>ro_endpoint = n, ro_local = l, ro_remote = r, ro_rkey = k, ro_length = len\<rparr>))))))
       [0..<length lengths]"

text \<open>\<open>batch_read\<close> of the subclass is the argument \<open>read\<close>, a function of the operations.\<close>

definition batch_read_v ::
  "(read_op list \<Rightarrow> 'r) \<Rightarrow> string list \<Rightarrow> nat list \<Rightarrow> nat list \<Rightarrow> nat list \<Rightarrow> nat list \<Rightarrow> 'r result" where
  "batch_read_v read remote_nodes local_addrs remote_addrs rkeys lengths =
     fmap_result read (read_ops remote_nodes local_addrs remote_addrs rkeys lengths)"

text \<open>
  The rail of operation \<open>i\<close> when \<open>xs\<close> lists one value per rail: rail \<open>i % N\<close>, or rail 0 where the
  node has fewer.
\<close>

definition pick_rail :: "nat \<Rightarrow> nat \<Rightarrow> 'a list \<Rightarrow> 'a \<Rightarrow> 'a" where
  "pick_rail N i xs none =
     (let rail = (if i mod N < length xs then i mod N else 0) in if xs = [] then none else xs ! rail)"

definition rail_nodes :: "int \<Rightarrow> (string, string list) dict \<Rightarrow> string list \<Rightarrow> string list" where
  "rail_nodes n_rails endpoints_of node_ids =
     (let N = nat (max 1 n_rails)
      in map (\<lambda>(i, node). pick_rail N i (case map_of endpoints_of node of None \<Rightarrow> [] | Some eps \<Rightarrow> eps) [])
           (enumerate 0 node_ids))"

definition rail_keys :: "int \<Rightarrow> (string, nat list) dict \<Rightarrow> string list \<Rightarrow> nat list" where
  "rail_keys n_rails rkeys_of node_ids =
     (let N = nat (max 1 n_rails)
      in map (\<lambda>(i, node).
              pick_rail N i (case map_of rkeys_of node of None \<Rightarrow> [0] | Some ks \<Rightarrow> if ks = [] then [0] else ks) 0)
           (enumerate 0 node_ids))"

definition batch_read_multi ::
  "(string list \<Rightarrow> nat list \<Rightarrow> nat list \<Rightarrow> nat list \<Rightarrow> nat list \<Rightarrow> 'r) \<Rightarrow> int \<Rightarrow> string list \<Rightarrow> nat list \<Rightarrow>
   nat list \<Rightarrow> nat list \<Rightarrow> (string, string list) dict \<Rightarrow> (string, nat list) dict \<Rightarrow> 'r" where
  "batch_read_multi read_v n_rails node_ids local_addrs remote_addrs lengths endpoints_of rkeys_of =
     read_v (rail_nodes n_rails endpoints_of node_ids) local_addrs remote_addrs
       (rail_keys n_rails rkeys_of node_ids) lengths"

definition batch_write_multi ::
  "(string list \<Rightarrow> nat list \<Rightarrow> nat list \<Rightarrow> nat list \<Rightarrow> nat list \<Rightarrow> 'r) \<Rightarrow> int \<Rightarrow> string list \<Rightarrow> nat list \<Rightarrow>
   nat list \<Rightarrow> nat list \<Rightarrow> (string, string list) dict \<Rightarrow> (string, nat list) dict \<Rightarrow> 'r" where
  "batch_write_multi write_v n_rails node_ids local_addrs remote_addrs lengths endpoints_of rkeys_of =
     write_v (rail_nodes n_rails endpoints_of node_ids) local_addrs remote_addrs
       (rail_keys n_rails rkeys_of node_ids) lengths"

section \<open>The TCP transport\<close>

record tcp_transport =
  tt_regions :: regions
  tt_idle :: "(string, conn list) dict"
  tt_max_idle :: nat
  tt_endpoints :: "string list"
  tt_running :: bool

text \<open>
  The constructor: \<open>ports\<close> are the ports the kernel gives the listening sockets, one per rail;
  \<open>n_devices\<close> is \<open>len(config.device_rails())\<close>.
\<close>

definition TcpTransport :: "int \<Rightarrow> nat \<Rightarrow> string \<Rightarrow> (nat \<Rightarrow> nat) \<Rightarrow> tcp_transport" where
  "TcpTransport max_channels_per_peer n_devices local_hostname ports =
     \<lparr>tt_regions = [], tt_idle = [], tt_max_idle = nat (max 1 max_channels_per_peer),
      tt_endpoints = map (\<lambda>r. endpoint local_hostname (ports r)) [0..<max 1 n_devices],
      tt_running = True\<rparr>"

definition register_mr :: "tcp_transport \<Rightarrow> nat \<Rightarrow> nat \<Rightarrow> tcp_transport \<times> mr" where
  "register_mr t addr len = (t\<lparr>tt_regions := tt_regions t @ [(addr, len)]\<rparr>, Mr addr 0 0 None None)"

definition deregister_mr :: "tcp_transport \<Rightarrow> nat \<Rightarrow> tcp_transport" where
  "deregister_mr t addr = t\<lparr>tt_regions := filter (\<lambda>(a, l). a \<noteq> addr) (tt_regions t)\<rparr>"

definition covered :: "regions \<Rightarrow> nat \<Rightarrow> nat \<Rightarrow> bool" where
  "covered regs addr len \<longleftrightarrow> (\<exists>(base, ln) \<in> set regs. base \<le> addr \<and> addr + len \<le> base + ln)"

definition TCP_OP_READ :: byte where
  "TCP_OP_READ = 1"

definition TCP_OP_WRITE :: byte where
  "TCP_OP_WRITE = 2"

text \<open>
  One turn of \<open>_serve_conn\<close>: \<open>Some out\<close> when the loop goes on after writing \<open>out\<close>, \<open>None\<close> when it
  returns. \<open>broken\<close> says that writing to the connection fails.
\<close>

definition tcp_turn :: "regions \<Rightarrow> bool \<Rightarrow> mem \<Rightarrow> chunk list \<Rightarrow> chunk list \<times> mem \<times> bytes option result" where
  "tcp_turn regs broken m cs =
     (case recv_exact cs 17 of
        (cs, Inl e) \<Rightarrow> (cs, m, Inl e)
      | (cs, Inr None) \<Rightarrow> (cs, m, Inr None)
      | (cs, Inr (Some hdr)) \<Rightarrow>
          (let raddr = from_be (take 8 (drop 1 hdr)); len = from_be (take 8 (drop 9 hdr))
           in if hd hdr = TCP_OP_READ then
                (if \<not> covered regs raddr len then (cs, m, Inr None)
                 else (cs, m, Inr (if broken then None else Some (string_at m raddr len))))
              else if hd hdr = TCP_OP_WRITE then
                (case recv_exact cs len of
                   (cs, Inl e) \<Rightarrow> (cs, m, Inl e)
                 | (cs, Inr None) \<Rightarrow> (cs, m, Inr None)
                 | (cs, Inr (Some data)) \<Rightarrow>
                     (if length data \<noteq> len then (cs, m, Inr None)
                      else let ok = covered regs raddr len;
                               m = (if ok then write_bytes m raddr data else m)
                           in (cs, m, Inr (if broken then None else Some [if ok then 1 else 0]))))
              else (cs, m, Inr None)))"

lemma recv_exact_size:
  "recv_exact cs n = (cs', Inr (Some b)) \<Longrightarrow> length b = n \<and> stream_size cs = n + stream_size cs'"
  using recv_loop_size [of cs n "[]" cs' b] by (simp add: recv_exact_def)

lemma tcp_turn_size:
  assumes "tcp_turn regs broken m cs = (cs', m', Inr (Some out))"
  shows "stream_size cs' < stream_size cs"
proof -
  obtain cs1 r where r: "recv_exact cs 17 = (cs1, r)" by fastforce
  with assms obtain hdr where h: "r = Inr (Some hdr)"
    by (cases r) (auto simp: tcp_turn_def split: option.splits)
  from recv_exact_size [of cs 17 cs1 hdr] r h have s: "stream_size cs1 < stream_size cs" by simp
  have "stream_size cs' \<le> stream_size cs1"
  proof (cases "hd hdr = TCP_OP_READ")
    case True
    with assms r h show ?thesis by (simp add: tcp_turn_def Let_def split: if_splits)
  next
    case False
    obtain cs2 r2 where r2: "recv_exact cs1 (from_be (take 8 (drop 9 hdr))) = (cs2, r2)" by fastforce
    with assms r h False obtain d where "r2 = Inr (Some d)" "cs' = cs2"
      by (cases r2) (auto simp: tcp_turn_def Let_def split: option.splits if_splits)
    with recv_exact_size [of cs1 _ cs2 d] r2 show ?thesis by simp
  qed
  with s show ?thesis by simp
qed

function tcp_serve_conn :: "regions \<Rightarrow> bool \<Rightarrow> mem \<Rightarrow> chunk list \<Rightarrow> mem \<times> bytes \<times> exn option" where
  "tcp_serve_conn regs broken m cs =
     (case tcp_turn regs broken m cs of
        (cs, m, Inl e) \<Rightarrow> (m, [], Some e)
      | (cs, m, Inr None) \<Rightarrow> (m, [], None)
      | (cs, m, Inr (Some out)) \<Rightarrow>
          (let (m, rest, e) = tcp_serve_conn regs broken m cs in (m, out @ rest, e)))"
  by auto
termination
  by (relation "measure (\<lambda>(regs, broken, m, cs). stream_size cs)", simp)
    (drule sym, drule sym, drule sym, drule sym, simp add: tcp_turn_size)

declare tcp_serve_conn.simps [simp del]

text \<open>\<open>_acquire\<close>; \<open>conns\<close> are the outcomes of the connects made, in order.\<close>

definition tcp_acquire ::
  "conn result list \<Rightarrow> tcp_transport \<Rightarrow> string \<Rightarrow> tcp_transport \<times> conn result list \<times> conn result" where
  "tcp_acquire conns t ep =
     (case map_of (tt_idle t) ep of
        Some (c # cs) \<Rightarrow>
          (t\<lparr>tt_idle := AList.update ep (butlast (c # cs)) (tt_idle t)\<rparr>, conns, Inr (last (c # cs)))
      | _ \<Rightarrow>
          (case rsplit_colon ep of
             None \<Rightarrow> (t, conns, Inl ValueError)
           | Some (host, port) \<Rightarrow>
               (case parse_nat port of
                  Inl e \<Rightarrow> (t, conns, Inl e)
                | Inr _ \<Rightarrow> (let (r, conns) = rpc_connect conns in (t, conns, r)))))"

definition tcp_release :: "tcp_transport \<Rightarrow> string \<Rightarrow> conn \<Rightarrow> tcp_transport" where
  "tcp_release t ep sock =
     (let idle = (case map_of (tt_idle t) ep of None \<Rightarrow> [] | Some xs \<Rightarrow> xs)
      in t\<lparr>tt_idle := AList.update ep (if length idle < tt_max_idle t then idle @ [sock] else idle) (tt_idle t)\<rparr>)"

text \<open>\<open>struct.pack(">BQQ", op, addr, length)\<close>.\<close>

definition pack_req :: "byte \<Rightarrow> nat \<Rightarrow> nat \<Rightarrow> bytes result" where
  "pack_req op addr len =
     (if addr < 256 ^ 8 \<and> len < 256 ^ 8 then Inr (op # to_be 8 addr @ to_be 8 len) else Inl StructError)"

text \<open>One read on a leased socket: the socket, the memory and whether it succeeded.\<close>

definition tcp_read_on :: "conn \<Rightarrow> mem \<Rightarrow> read_op \<Rightarrow> conn \<times> mem \<times> bool" where
  "tcp_read_on cn m op =
     (case pack_req TCP_OP_READ (ro_remote op) (ro_length op) of
        Inl e \<Rightarrow> (cn, m, False)
      | Inr bs \<Rightarrow>
          if cn_broken cn then (cn, m, False)
          else
            let (cs, r) = recv_exact (cn_in cn) (ro_length op);
                cn = cn\<lparr>cn_in := cs, cn_out := cn_out cn @ bs\<rparr>
            in case r of
                 Inr (Some data) \<Rightarrow>
                   if length data = ro_length op then (cn, write_bytes m (ro_local op) data, True)
                   else (cn, m, False)
               | _ \<Rightarrow> (cn, m, False))"

fun tcp_batch_read ::
  "conn result list \<Rightarrow> tcp_transport \<Rightarrow> mem \<Rightarrow> read_op list \<Rightarrow> tcp_transport \<times> mem \<times> bool list" where
  "tcp_batch_read conns t m [] = (t, m, [])"
| "tcp_batch_read conns t m (op # ops) =
     (case tcp_acquire conns t (ro_endpoint op) of
        (t, conns, Inl e) \<Rightarrow>
          (let (t, m, oks) = tcp_batch_read conns t m ops in (t, m, False # oks))
      | (t, conns, Inr sock) \<Rightarrow>
          (let (sock, m, ok) = tcp_read_on sock m op;
               t = (if ok then tcp_release t (ro_endpoint op) sock else t);
               (t, m, oks) = tcp_batch_read conns t m ops
           in (t, m, ok # oks)))"

definition tcp_write_on :: "conn \<Rightarrow> mem \<Rightarrow> nat \<Rightarrow> nat \<Rightarrow> nat \<Rightarrow> conn \<times> bool" where
  "tcp_write_on cn m la ra len =
     (case pack_req TCP_OP_WRITE ra len of
        Inl e \<Rightarrow> (cn, False)
      | Inr bs \<Rightarrow>
          if cn_broken cn then (cn, False)
          else
            let (cs, r) = recv_exact (cn_in cn) 1;
                cn = cn\<lparr>cn_in := cs, cn_out := cn_out cn @ bs @ string_at m la len\<rparr>
            in (cn, r = Inr (Some [1])))"

text \<open>
  \<open>batch_write_v\<close>, over the indices still to do. An index missing in one of the parallel lists is an
  \<open>IndexError\<close> inside the \<open>try\<close>: that write fails, and the socket it leased is closed.
\<close>

fun tcp_batch_write_v ::
  "conn result list \<Rightarrow> tcp_transport \<Rightarrow> mem \<Rightarrow> string list \<Rightarrow> nat list \<Rightarrow> nat list \<Rightarrow> nat list \<Rightarrow> nat list \<Rightarrow>
   tcp_transport \<times> bool list" where
  "tcp_batch_write_v conns t m remote_nodes local_addrs remote_addrs lengths [] = (t, [])"
| "tcp_batch_write_v conns t m remote_nodes local_addrs remote_addrs lengths (i # js) =
     (case nth_result remote_nodes i of
        Inl e \<Rightarrow>
          (let (t, oks) = tcp_batch_write_v conns t m remote_nodes local_addrs remote_addrs lengths js
           in (t, False # oks))
      | Inr ep \<Rightarrow>
          (case tcp_acquire conns t ep of
             (t, conns, Inl e) \<Rightarrow>
               (let (t, oks) = tcp_batch_write_v conns t m remote_nodes local_addrs remote_addrs lengths js
                in (t, False # oks))
           | (t, conns, Inr sock) \<Rightarrow>
               (let (sock, ok) =
                      (case (nth_result local_addrs i, nth_result remote_addrs i) of
                         (Inr la, Inr ra) \<Rightarrow> tcp_write_on sock m la ra (lengths ! i)
                       | _ \<Rightarrow> (sock, False));
                    t = (if ok then tcp_release t ep sock else t);
                    (t, oks) = tcp_batch_write_v conns t m remote_nodes local_addrs remote_addrs lengths js
                in (t, ok # oks))))"

definition batch_write_v ::
  "conn result list \<Rightarrow> tcp_transport \<Rightarrow> mem \<Rightarrow> string list \<Rightarrow> nat list \<Rightarrow> nat list \<Rightarrow> nat list \<Rightarrow> nat list \<Rightarrow>
   tcp_transport \<times> bool list" where
  "batch_write_v conns t m remote_nodes local_addrs remote_addrs rkeys lengths =
     tcp_batch_write_v conns t m remote_nodes local_addrs remote_addrs lengths [0..<length lengths]"

definition tcp_n_rails :: "tcp_transport \<Rightarrow> nat" where
  "tcp_n_rails t = length (tt_endpoints t)"

definition tcp_local_endpoint :: "tcp_transport \<Rightarrow> string" where
  "tcp_local_endpoint t = hd (tt_endpoints t)"

definition tcp_local_endpoints :: "tcp_transport \<Rightarrow> string list" where
  "tcp_local_endpoints t = tt_endpoints t"

definition tcp_close :: "tcp_transport \<Rightarrow> tcp_transport" where
  "tcp_close t = t\<lparr>tt_running := False, tt_idle := []\<rparr>"

section \<open>The RDMA transport\<close>

text \<open>
  The C++ engine, as the functions its Python bindings offer on an engine state: the handles of
  \<open>register_mr\<close> are pairs of remote and local key, one per rail.
\<close>

record 'e engine =
  eg_register_mr :: "'e \<Rightarrow> nat \<Rightarrow> nat \<Rightarrow> 'e \<times> (nat \<times> nat) list result"
  eg_register_mr_dmabuf :: "'e \<Rightarrow> nat \<Rightarrow> nat \<Rightarrow> int \<Rightarrow> int \<Rightarrow> 'e \<times> (nat \<times> nat) list result"
  eg_deregister_mr :: "'e \<Rightarrow> nat \<Rightarrow> 'e"
  eg_batch_read :: "'e \<Rightarrow> read_op list \<Rightarrow> 'e \<times> bool list"

definition mr_of_handles :: "nat \<Rightarrow> (nat \<times> nat) list \<Rightarrow> mr result" where
  "mr_of_handles addr handles =
     (case handles of
        [] \<Rightarrow> Inl IndexError
      | h # _ \<Rightarrow> Inr (Mr addr (fst h) (snd h) (Some (map fst handles)) (Some (map snd handles))))"

definition rdma_register_mr :: "'e engine \<Rightarrow> 'e \<Rightarrow> nat \<Rightarrow> nat \<Rightarrow> 'e \<times> mr result" where
  "rdma_register_mr E e addr len =
     (let (e, hs) = eg_register_mr E e addr len in (e, bind_result hs (mr_of_handles addr)))"

definition rdma_register_mr_dmabuf :: "'e engine \<Rightarrow> 'e \<Rightarrow> nat \<Rightarrow> nat \<Rightarrow> int \<Rightarrow> int \<Rightarrow> 'e \<times> mr result" where
  "rdma_register_mr_dmabuf E e addr len fd fd_offset =
     (let (e, hs) = eg_register_mr_dmabuf E e addr len fd fd_offset in (e, bind_result hs (mr_of_handles addr)))"

definition rdma_deregister_mr :: "'e engine \<Rightarrow> 'e \<Rightarrow> nat \<Rightarrow> 'e" where
  "rdma_deregister_mr E e addr = eg_deregister_mr E e addr"

definition rdma_batch_read :: "'e engine \<Rightarrow> 'e \<Rightarrow> read_op list \<Rightarrow> 'e \<times> bool list" where
  "rdma_batch_read E e ops = eg_batch_read E e ops"

datatype 'e transport_kind = Tcp tcp_transport | Rdma 'e

text \<open>\<open>create_transport\<close>: \<open>rdma\<close> is the outcome of constructing the RDMA transport.\<close>

definition create_transport :: "string \<Rightarrow> 'e result \<Rightarrow> tcp_transport \<Rightarrow> 'e transport_kind" where
  "create_transport protocol rdma tcp =
     (if protocol = ''tcp'' then Tcp tcp
      else case rdma of Inr e \<Rightarrow> Rdma e | Inl _ \<Rightarrow> Tcp tcp)"

section \<open>Memory safety of the serving side\<close>

definition registered :: "regions \<Rightarrow> nat \<Rightarrow> bool" where
  "registered regs x \<longleftrightarrow> (\<exists>(base, ln) \<in> set regs. base \<le> x \<and> x < base + ln)"

lemma covered_registered: "covered regs a n \<Longrightarrow> a \<le> x \<Longrightarrow> x < a + n \<Longrightarrow> registered regs x"
  unfolding covered_def registered_def by (erule bexE, rule bexI) (auto split: prod.splits)

text \<open>
  Two memories that agree on the registered bytes; \<open>kept regs m m'\<close> says that only registered bytes
  changed.
\<close>

definition same_view :: "regions \<Rightarrow> mem \<Rightarrow> mem \<Rightarrow> bool" where
  "same_view regs m m2 \<longleftrightarrow> (\<forall>x. registered regs x \<longrightarrow> m x = m2 x)"

definition kept :: "regions \<Rightarrow> mem \<Rightarrow> mem \<Rightarrow> bool" where
  "kept regs m m' \<longleftrightarrow> (\<forall>x. \<not> registered regs x \<longrightarrow> m' x = m x)"

lemma kept_refl [simp]: "kept regs m m"
  by (simp add: kept_def)

lemma kept_trans: "kept regs m m1 \<Longrightarrow> kept regs m1 m2 \<Longrightarrow> kept regs m m2"
  by (simp add: kept_def)

lemma kept_write: "covered regs a (length bs) \<Longrightarrow> kept regs m (write_bytes m a bs)"
  by (auto simp: kept_def write_bytes_def dest: covered_registered)

lemma same_view_write: "same_view regs m m2 \<Longrightarrow> same_view regs (write_bytes m a bs) (write_bytes m2 a bs)"
  by (simp add: same_view_def write_bytes_def)

lemma same_view_read: "same_view regs m m2 \<Longrightarrow> covered regs a n \<Longrightarrow> string_at m a n = string_at m2 a n"
  by (rule string_at_cong) (simp add: same_view_def covered_registered)

lemma tcp_turn_safe:
  assumes "same_view regs m m2"
  obtains cs' m' m2' r where "tcp_turn regs broken m cs = (cs', m', r)" and "tcp_turn regs broken m2 cs = (cs', m2', r)"
    and "same_view regs m' m2'" and "kept regs m m'" and "kept regs m2 m2'"
proof -
  obtain cs1 r where r: "recv_exact cs 17 = (cs1, r)" by fastforce
  show thesis
  proof (cases "\<exists>hdr. r = Inr (Some hdr)")
    case False
    then have n: "r = Inr None \<or> (\<exists>e. r = Inl e)" by (metis old.sum.exhaust not_Some_eq)
    have "\<exists>res. \<forall>mm. tcp_turn regs broken mm cs = (cs1, mm, res)"
      using n r by (elim disjE exE) (simp_all add: tcp_turn_def)
    then show thesis using that [OF _ _ assms kept_refl kept_refl] by blast
  next
    case True
    then obtain hdr where h: "r = Inr (Some hdr)" by blast
    define ra where "ra = from_be (take 8 (drop 1 hdr))"
    define len where "len = from_be (take 8 (drop 9 hdr))"
    consider (rd) "hd hdr = TCP_OP_READ" | (wr) "hd hdr = TCP_OP_WRITE" "hd hdr \<noteq> TCP_OP_READ"
      | (other) "hd hdr \<noteq> TCP_OP_READ" "hd hdr \<noteq> TCP_OP_WRITE" by blast
    then show thesis
    proof cases
      case rd
      then have t: "tcp_turn regs broken mm cs =
          (cs1, mm, Inr (if covered regs ra len \<and> \<not> broken then Some (string_at mm ra len) else None))" for mm
        using r h by (simp add: tcp_turn_def ra_def len_def Let_def)
      have v: "(if covered regs ra len \<and> \<not> broken then Some (string_at m ra len) else None) =
          (if covered regs ra len \<and> \<not> broken then Some (string_at m2 ra len) else None)"
        using same_view_read [OF assms, of ra len] by simp
      show thesis by (rule that [OF t t [of m2, folded v] assms kept_refl kept_refl])
    next
      case wr
      obtain cs2 r2 where r2: "recv_exact cs1 len = (cs2, r2)" by fastforce
      define ok where "ok = covered regs ra len"
      define wb where "wb mm = (case r2 of Inr (Some data) \<Rightarrow> if ok then write_bytes mm ra data else mm | _ \<Rightarrow> mm)" for mm
      define res where "res = (case r2 of Inl e \<Rightarrow> Inl e | Inr None \<Rightarrow> Inr None
          | Inr (Some data) \<Rightarrow> Inr (if broken then None else Some [if ok then 1 else (0 :: byte)]))"
      have t: "tcp_turn regs broken mm cs = (cs2, wb mm, res)" for mm
      proof (cases r2)
        case (Inl e)
        with r h wr r2 show ?thesis by (simp add: tcp_turn_def ra_def len_def wb_def res_def ok_def Let_def)
      next
        case (Inr d)
        show ?thesis
        proof (cases d)
          case None
          with Inr r h wr r2 show ?thesis by (simp add: tcp_turn_def ra_def len_def wb_def res_def ok_def Let_def)
        next
          case (Some data)
          with Inr r2 recv_exact_size [of cs1 len cs2 data] have "length data = len" by simp
          with Some Inr r h wr r2 show ?thesis by (simp add: tcp_turn_def ra_def len_def wb_def res_def ok_def Let_def)
        qed
      qed
      have k: "kept regs mm (wb mm)" for mm
      proof (cases "\<exists>data. r2 = Inr (Some data)")
        case True
        then obtain data where d: "r2 = Inr (Some data)" ..
        with r2 recv_exact_size [of cs1 len cs2 data] have "length data = len" by simp
        with d kept_write [of regs ra data mm] show ?thesis by (simp add: wb_def ok_def)
      qed (auto simp: wb_def split: sum.splits option.splits)
      have "same_view regs (wb m) (wb m2)"
        using assms same_view_write [OF assms] by (auto simp: wb_def split: sum.splits option.splits)
      then show thesis by (rule that [OF t t _ k k])
    next
      case other
      then have t: "tcp_turn regs broken mm cs = (cs1, mm, Inr None)" for mm
        using r h by (simp add: tcp_turn_def Let_def)
      show thesis by (rule that [OF t t assms kept_refl kept_refl])
    qed
  qed
qed

text \<open>
  C25. The data server is memory-safe against any peer: whatever bytes arrive on a connection, in
  whatever segmentation and with whatever faults, it changes no byte outside the regions registered
  with \<open>register_mr\<close>, and what it sends back depends on registered bytes only: a memory that agrees
  on those, and differs anywhere else, gives the same output and the same new registered bytes.
\<close>

theorem tcp_server_safe:
  assumes "same_view regs m m2" and "tcp_serve_conn regs broken m cs = (m', out, e)"
  shows "\<exists>m2'. tcp_serve_conn regs broken m2 cs = (m2', out, e) \<and> same_view regs m' m2' \<and>
           kept regs m m' \<and> kept regs m2 m2'"
  using assms
proof (induction regs broken m cs arbitrary: m2 m' out e rule: tcp_serve_conn.induct)
  case (1 regs broken m cs)
  from tcp_turn_safe [OF 1(2), of broken cs] obtain cs1 m1 m21 r where
    t: "tcp_turn regs broken m cs = (cs1, m1, r)" "tcp_turn regs broken m2 cs = (cs1, m21, r)"
    "same_view regs m1 m21" "kept regs m m1" "kept regs m2 m21" .
  show ?case
  proof (cases "\<exists>o1. r = Inr (Some o1)")
    case False
    then have "r = Inr None \<or> (\<exists>e. r = Inl e)" by (metis old.sum.exhaust not_Some_eq)
    then obtain e1 where e1: "\<And>mm mm1. tcp_turn regs broken mm cs = (cs1, mm1, r) \<Longrightarrow>
        tcp_serve_conn regs broken mm cs = (mm1, [], e1)"
      by (auto simp: tcp_serve_conn.simps [of regs broken _ cs])
    from e1 [OF t(1)] 1(3) have "m' = m1" "out = []" "e = e1" by simp_all
    with e1 [OF t(2)] t(3-5) show ?thesis by blast
  next
    case True
    then obtain o1 where o1: "r = Inr (Some o1)" by blast
    obtain ma rest ee where rec: "tcp_serve_conn regs broken m1 cs1 = (ma, rest, ee)" by (metis prod_cases3)
    from 1(1) [OF t(1) [symmetric] refl o1 refl t(3) rec] obtain m2b where
      b: "tcp_serve_conn regs broken m21 cs1 = (m2b, rest, ee)" "same_view regs ma m2b" "kept regs m1 ma" "kept regs m21 m2b"
      by blast
    from 1(3) t(1) o1 rec have "m' = ma" "out = o1 @ rest" "e = ee"
      by (simp_all add: tcp_serve_conn.simps [of regs broken m cs])
    moreover have "tcp_serve_conn regs broken m2 cs = (m2b, o1 @ rest, ee)"
      using t(2) o1 b(1) by (simp add: tcp_serve_conn.simps [of regs broken m2 cs])
    ultimately show ?thesis using b kept_trans t(4,5) by blast
  qed
qed

section \<open>Remote reads and writes\<close>

text \<open>
  What a connection is for: a sequence of reads and writes of the server's memory. \<open>data_serve\<close> is
  the contract: the new memory and the replies. A read outside the registered regions ends the
  connection; such a write is refused with a 0 and the connection goes on.
\<close>

datatype data_req = DataRead nat nat | DataWrite nat bytes

fun req_bytes :: "data_req \<Rightarrow> bytes result" where
  "req_bytes (DataRead a n) = pack_req TCP_OP_READ a n"
| "req_bytes (DataWrite a bs) = fmap_result (\<lambda>h. h @ bs) (pack_req TCP_OP_WRITE a (length bs))"

fun data_serve :: "regions \<Rightarrow> mem \<Rightarrow> data_req list \<Rightarrow> mem \<times> bytes" where
  "data_serve regs m [] = (m, [])"
| "data_serve regs m (DataRead a n # rs) =
     (if covered regs a n then (let (m', out) = data_serve regs m rs in (m', string_at m a n @ out)) else (m, []))"
| "data_serve regs m (DataWrite a bs # rs) =
     (if covered regs a (length bs)
      then (let (m', out) = data_serve regs (write_bytes m a bs) rs in (m', 1 # out))
      else (let (m', out) = data_serve regs m rs in (m', 0 # out)))"

lemma pack_req_eq:
  "pack_req op a n = Inr f \<longleftrightarrow> a < 256 ^ 8 \<and> n < 256 ^ 8 \<and> f = op # to_be 8 a @ to_be 8 n"
  by (auto simp: pack_req_def)

lemma recv_header:
  assumes "clean cs" and "stream_bytes cs = (op # to_be 8 a @ to_be 8 n) @ rest"
  obtains cs' where "recv_exact cs 17 = (cs', Inr (Some (op # to_be 8 a @ to_be 8 n)))" and "clean cs'"
    and "stream_bytes cs' = rest"
proof -
  have "17 \<le> length (stream_bytes cs)" using assms(2) by simp
  from recv_exact_enough [OF assms(1) this] obtain cs' where
    "recv_exact cs 17 = (cs', Inr (Some (take 17 (stream_bytes cs))))" "clean cs'"
    "stream_bytes cs' = drop 17 (stream_bytes cs)" .
  with assms(2) that show thesis by simp
qed

lemma header_fields:
  assumes "a < 256 ^ 8" and "n < 256 ^ 8"
  shows "from_be (take 8 (drop 1 (op # to_be 8 a @ to_be 8 n))) = a"
    and "from_be (take 8 (drop 9 (op # to_be 8 a @ to_be 8 n))) = n"
proof -
  show "from_be (take 8 (drop 1 (op # to_be 8 a @ to_be 8 n))) = a"
    using from_be_to_be [OF assms(1)] by simp
  have "drop 9 (op # to_be 8 a @ to_be 8 n) = to_be 8 n" by simp
  then show "from_be (take 8 (drop 9 (op # to_be 8 a @ to_be 8 n))) = n"
    using from_be_to_be [OF assms(2)] by simp
qed

lemma ops_differ [simp]: "TCP_OP_WRITE \<noteq> TCP_OP_READ"
  by (simp add: TCP_OP_READ_def TCP_OP_WRITE_def)

lemma tcp_turn_read:
  assumes "clean cs" and "pack_req TCP_OP_READ a n = Inr f" and "stream_bytes cs = f @ rest"
  obtains cs' where "clean cs'" and "stream_bytes cs' = rest"
    and "tcp_turn regs False m cs = (cs', m, Inr (if covered regs a n then Some (string_at m a n) else None))"
proof -
  from assms(2) have b: "a < 256 ^ 8" "n < 256 ^ 8" "f = TCP_OP_READ # to_be 8 a @ to_be 8 n"
    unfolding pack_req_eq by blast+
  from recv_header [OF assms(1) assms(3) [unfolded b(3)]] obtain cs' where
    r: "recv_exact cs 17 = (cs', Inr (Some (TCP_OP_READ # to_be 8 a @ to_be 8 n)))" "clean cs'" "stream_bytes cs' = rest" .
  have "tcp_turn regs False m cs = (cs', m, Inr (if covered regs a n then Some (string_at m a n) else None))"
    unfolding tcp_turn_def r(1) by (simp only: prod.case sum.case option.case Let_def header_fields [OF b(1,2)] list.sel) simp
  with r that show thesis by blast
qed

lemma tcp_turn_write:
  assumes "clean cs" and "req_bytes (DataWrite a bs) = Inr f" and "stream_bytes cs = f @ rest"
  obtains cs' where "clean cs'" and "stream_bytes cs' = rest"
    and "tcp_turn regs False m cs =
           (cs', if covered regs a (length bs) then write_bytes m a bs else m,
            Inr (Some [if covered regs a (length bs) then 1 else 0]))"
proof -
  from assms(2) have b: "a < 256 ^ 8" "length bs < 256 ^ 8" "f = (TCP_OP_WRITE # to_be 8 a @ to_be 8 (length bs)) @ bs"
    unfolding req_bytes.simps fmap_result_eq_Inr pack_req_eq by blast+
  from assms(3) b(3) have "stream_bytes cs = (TCP_OP_WRITE # to_be 8 a @ to_be 8 (length bs)) @ (bs @ rest)" by simp
  from recv_header [OF assms(1) this] obtain cs1 where
    r: "recv_exact cs 17 = (cs1, Inr (Some (TCP_OP_WRITE # to_be 8 a @ to_be 8 (length bs))))" "clean cs1"
    "stream_bytes cs1 = bs @ rest" .
  have "length bs \<le> length (stream_bytes cs1)" using r(3) by simp
  from recv_exact_enough [OF r(2) this] obtain cs2 where
    r2: "recv_exact cs1 (length bs) = (cs2, Inr (Some (take (length bs) (stream_bytes cs1))))" "clean cs2"
    "stream_bytes cs2 = drop (length bs) (stream_bytes cs1)" .
  then have r3: "recv_exact cs1 (length bs) = (cs2, Inr (Some bs))" "stream_bytes cs2 = rest" using r(3) by simp_all
  have "tcp_turn regs False m cs =
           (cs2, if covered regs a (length bs) then write_bytes m a bs else m,
            Inr (Some [if covered regs a (length bs) then 1 else 0]))"
    unfolding tcp_turn_def r(1)
    by (simp only: prod.case sum.case option.case Let_def header_fields [OF b(1,2)] list.sel r3(1)) simp
  with r2(2) r3(2) that show thesis by blast
qed

lemma tcp_serve_stop: "clean cs \<Longrightarrow> stream_bytes cs = [] \<Longrightarrow> tcp_serve_conn regs broken m cs = (m, [], None)"
  by (rule recv_exact_short [of cs 17]) (simp_all add: tcp_serve_conn.simps [of _ _ _ cs] tcp_turn_def)

lemma tcp_serve_on:
  "tcp_turn regs broken m cs = (cs', m', Inr (Some out)) \<Longrightarrow> tcp_serve_conn regs broken m' cs' = (m2, rest, e) \<Longrightarrow>
   tcp_serve_conn regs broken m cs = (m2, out @ rest, e)"
  by (simp add: tcp_serve_conn.simps [of regs broken m cs])

lemma tcp_serves_requests:
  "clean cs \<Longrightarrow> map_result req_bytes rs = Inr fs \<Longrightarrow> stream_bytes cs = concat fs \<Longrightarrow>
   data_serve regs m rs = (m', out) \<Longrightarrow> tcp_serve_conn regs False m cs = (m', out, None)"
proof (induction regs m rs arbitrary: cs fs m' out rule: data_serve.induct)
  case (1 regs m)
  then show ?case by (simp add: tcp_serve_stop)
next
  case (2 regs m a n rs)
  from 2(3) obtain f gs where f: "pack_req TCP_OP_READ a n = Inr f" "map_result req_bytes rs = Inr gs" "fs = f # gs"
    unfolding map_result_Cons req_bytes.simps by blast
  with 2(4) have "stream_bytes cs = f @ concat gs" by simp
  from tcp_turn_read [OF 2(2) f(1) this] obtain cs1 where c: "clean cs1" "stream_bytes cs1 = concat gs"
    "tcp_turn regs False m cs = (cs1, m, Inr (if covered regs a n then Some (string_at m a n) else None))" .
  show ?case
  proof (cases "covered regs a n")
    case True
    obtain m1 o1 where d: "data_serve regs m rs = (m1, o1)" by fastforce
    from 2(1) [OF True c(1) f(2) c(2) d] tcp_serve_on c(3) True
    have "tcp_serve_conn regs False m cs = (m1, string_at m a n @ o1, None)" by simp
    with 2(5) True d show ?thesis by simp
  next
    case False
    with c(3) 2(5) show ?thesis by (simp add: tcp_serve_conn.simps [of _ _ _ cs])
  qed
next
  case (3 regs m a bs rs)
  from 3(4) obtain f gs where f: "req_bytes (DataWrite a bs) = Inr f" "map_result req_bytes rs = Inr gs" "fs = f # gs"
    unfolding map_result_Cons by blast
  with 3(5) have "stream_bytes cs = f @ concat gs" by simp
  from tcp_turn_write [OF 3(3) f(1) this] obtain cs1 where c: "clean cs1" "stream_bytes cs1 = concat gs"
    "tcp_turn regs False m cs =
       (cs1, if covered regs a (length bs) then write_bytes m a bs else m,
        Inr (Some [if covered regs a (length bs) then 1 else 0]))" .
  obtain m1 o1 where d: "data_serve regs (if covered regs a (length bs) then write_bytes m a bs else m) rs = (m1, o1)"
    by fastforce
  have "tcp_serve_conn regs False (if covered regs a (length bs) then write_bytes m a bs else m) cs1 = (m1, o1, None)"
    using 3(1) [OF _ c(1) f(2) c(2)] 3(2) [OF _ c(1) f(2) c(2)] d by (cases "covered regs a (length bs)") simp_all
  from tcp_serve_on [OF c(3) this] 3(6) d show ?case by (cases "covered regs a (length bs)") simp_all
qed

definition copy_in :: "mem \<Rightarrow> read_op \<Rightarrow> mem \<Rightarrow> mem" where
  "copy_in rm op m = write_bytes m (ro_local op) (string_at rm (ro_remote op) (ro_length op))"

definition read_req :: "read_op \<Rightarrow> data_req" where
  "read_req op = DataRead (ro_remote op) (ro_length op)"

lemma data_serve_reads:
  "\<forall>op \<in> set ops. covered regs (ro_remote op) (ro_length op) \<Longrightarrow>
   data_serve regs rm (map read_req ops) = (rm, concat (map (\<lambda>op. string_at rm (ro_remote op) (ro_length op)) ops))"
  by (induction ops) (simp_all add: read_req_def)

text \<open>A lone idle connection is leased, and put back.\<close>

lemma tcp_lease:
  assumes "map_of (tt_idle t) ep = Some [cn]" and "0 < tt_max_idle t"
  obtains t1 where "tcp_acquire conns t ep = (t1, conns, Inr cn)" and "tt_max_idle t1 = tt_max_idle t"
    and "\<And>cn'. map_of (tt_idle (tcp_release t1 ep cn')) ep = Some [cn'] \<and>
                  tt_max_idle (tcp_release t1 ep cn') = tt_max_idle t"
proof -
  let ?t1 = "t\<lparr>tt_idle := AList.update ep [] (tt_idle t)\<rparr>"
  have "tcp_acquire conns t ep = (?t1, conns, Inr cn)" using assms(1) by (simp add: tcp_acquire_def)
  moreover have "map_of (tt_idle (tcp_release ?t1 ep cn')) ep = Some [cn'] \<and>
      tt_max_idle (tcp_release ?t1 ep cn') = tt_max_idle t" for cn'
    using assms(2) by (simp add: tcp_release_def)
  ultimately show thesis using that by simp
qed

lemma tcp_read_reply:
  assumes "clean (cn_in cn)" and "stream_bytes (cn_in cn) = data @ rest" and "length data = ro_length op"
    and "pack_req TCP_OP_READ (ro_remote op) (ro_length op) = Inr f" and "\<not> cn_broken cn"
  obtains cs where "clean cs" and "stream_bytes cs = rest"
    and "tcp_read_on cn m op =
           (cn\<lparr>cn_in := cs, cn_out := cn_out cn @ f\<rparr>, write_bytes m (ro_local op) data, True)"
proof -
  have "ro_length op \<le> length (stream_bytes (cn_in cn))" using assms(2,3) by simp
  from recv_exact_enough [OF assms(1) this] obtain cs where
    "recv_exact (cn_in cn) (ro_length op) = (cs, Inr (Some (take (ro_length op) (stream_bytes (cn_in cn)))))"
    "clean cs" "stream_bytes cs = drop (ro_length op) (stream_bytes (cn_in cn))" .
  with assms that show thesis by (simp add: tcp_read_on_def)
qed

lemma tcp_batch_read_replies:
  assumes "map_result req_bytes (map read_req ops) = Inr fs" and "\<forall>op \<in> set ops. ro_endpoint op = ep"
    and "map_of (tt_idle t) ep = Some [cn]" and "0 < tt_max_idle t" and "\<not> cn_broken cn" and "clean (cn_in cn)"
    and "stream_bytes (cn_in cn) = concat (map (\<lambda>op. string_at rm (ro_remote op) (ro_length op)) ops)"
  shows "\<exists>t' cn'. tcp_batch_read conns t m ops = (t', fold (copy_in rm) ops m, replicate (length ops) True) \<and>
           map_of (tt_idle t') ep = Some [cn'] \<and> cn_out cn' = cn_out cn @ concat fs"
  using assms
proof (induction ops arbitrary: fs t cn m)
  case Nil
  then show ?case by simp
next
  case (Cons op ops)
  have ep: "ro_endpoint op = ep" using Cons.prems(2) by simp
  from Cons.prems(1) obtain f gs where
    f: "pack_req TCP_OP_READ (ro_remote op) (ro_length op) = Inr f" "map_result req_bytes (map read_req ops) = Inr gs"
    "fs = f # gs"
    unfolding list.map map_result_Cons read_req_def req_bytes.simps by blast
  let ?data = "string_at rm (ro_remote op) (ro_length op)"
  let ?rest = "concat (map (\<lambda>op. string_at rm (ro_remote op) (ro_length op)) ops)"
  have s: "stream_bytes (cn_in cn) = ?data @ ?rest" using Cons.prems(7) by simp
  from tcp_lease [OF Cons.prems(3,4), of conns] obtain t1 where
    l: "tcp_acquire conns t ep = (t1, conns, Inr cn)" "tt_max_idle t1 = tt_max_idle t"
    "\<And>cn'. map_of (tt_idle (tcp_release t1 ep cn')) ep = Some [cn'] \<and>
             tt_max_idle (tcp_release t1 ep cn') = tt_max_idle t" by metis
  from tcp_read_reply [OF Cons.prems(6) s length_string_at f(1) Cons.prems(5), of m] obtain cs where
    r: "clean cs" "stream_bytes cs = ?rest"
    "tcp_read_on cn m op = (cn\<lparr>cn_in := cs, cn_out := cn_out cn @ f\<rparr>, copy_in rm op m, True)"
    unfolding copy_in_def .
  let ?cn = "cn\<lparr>cn_in := cs, cn_out := cn_out cn @ f\<rparr>"
  have "\<exists>t' cn'. tcp_batch_read conns (tcp_release t1 ep ?cn) (copy_in rm op m) ops =
            (t', fold (copy_in rm) ops (copy_in rm op m), replicate (length ops) True) \<and>
          map_of (tt_idle t') ep = Some [cn'] \<and> cn_out cn' = cn_out ?cn @ concat gs"
    by (rule Cons.IH) (use Cons.prems l(3) r f(2) in simp_all)
  with l(1) r(3) ep f(3) show ?case by auto
qed

text \<open>
  C26. A batch of remote reads over TCP delivers the remote memory: when the pages asked for lie in
  regions the server registered, and the request and reply streams arrive complete (in whatever
  chunks), every read of the batch succeeds, the destination buffers receive the server's bytes in
  order, the server's memory is untouched, and the connection is back in the pool for the next batch.
\<close>

theorem tcp_batch_read_correct:
  assumes "map_result req_bytes (map read_req ops) = Inr fs"
    and "\<forall>op \<in> set ops. ro_endpoint op = ep \<and> covered regs (ro_remote op) (ro_length op)"
    and "clean cs" and "stream_bytes cs = concat fs" and "tcp_serve_conn regs False rm cs = (rm', out, e)"
    and "map_of (tt_idle t) ep = Some [cn]" and "0 < tt_max_idle t"
    and "\<not> cn_broken cn" and "clean (cn_in cn)" and "stream_bytes (cn_in cn) = out"
  shows "\<exists>t' cn'. tcp_batch_read conns t m ops = (t', fold (copy_in rm) ops m, replicate (length ops) True) \<and>
           map_of (tt_idle t') ep = Some [cn'] \<and> cn_out cn' = cn_out cn @ concat fs \<and> rm' = rm \<and> e = None"
proof -
  have d: "data_serve regs rm (map read_req ops) =
      (rm, concat (map (\<lambda>op. string_at rm (ro_remote op) (ro_length op)) ops))"
    using assms(2) by (simp add: data_serve_reads)
  from tcp_serves_requests [OF assms(3,1,4) d] assms(5)
  have o: "rm' = rm" "out = concat (map (\<lambda>op. string_at rm (ro_remote op) (ro_length op)) ops)" "e = None"
    by simp_all
  have ep: "\<forall>op \<in> set ops. ro_endpoint op = ep" using assms(2) by blast
  from tcp_batch_read_replies [OF assms(1) ep assms(6-9) assms(10) [unfolded o(2)]] o(1,3) show ?thesis by blast
qed

definition toy_read :: read_op where
  "toy_read = \<lparr>ro_endpoint = ''h:1'', ro_local = 100, ro_remote = 5, ro_rkey = 0, ro_length = 2\<rparr>"

definition toy_conn :: conn where
  "toy_conn = \<lparr>cn_in = [Chunk [5], Chunk [6]], cn_out = [], cn_broken = False\<rparr>"

definition toy_tcp :: tcp_transport where
  "toy_tcp = \<lparr>tt_regions = [], tt_idle = [(''h:1'', [toy_conn])], tt_max_idle = 1, tt_endpoints = [''g:2''],
     tt_running = True\<rparr>"

lemma toy_request: "map_result req_bytes (map read_req [toy_read]) = Inr [TCP_OP_READ # to_be 8 5 @ to_be 8 2]"
  by (simp add: toy_read_def read_req_def pack_req_def)

lemma toy_covered: "covered [(0, 16)] 5 2"
  by (simp add: covered_def)

lemma toy_serve:
  "tcp_serve_conn [(0, 16)] False of_nat [Chunk (TCP_OP_READ # to_be 8 5 @ to_be 8 2)] = (of_nat, [5, 6], None)"
proof (rule tcp_serves_requests [OF _ toy_request])
  show "data_serve [(0, 16)] of_nat (map read_req [toy_read]) = (of_nat, [5, 6])"
    by (simp add: toy_read_def read_req_def toy_covered string_at_def upt_rec)
qed simp_all

theorem tcp_batch_read_correct_witness:
  "\<exists>t' cn'. tcp_batch_read [] toy_tcp (\<lambda>_. 0) [toy_read] = (t', fold (copy_in of_nat) [toy_read] (\<lambda>_. 0), [True]) \<and>
     map_of (tt_idle t') ''h:1'' = Some [cn'] \<and>
     cn_out cn' = TCP_OP_READ # to_be 8 5 @ to_be 8 2"
proof -
  have "\<exists>t' cn'. tcp_batch_read [] toy_tcp (\<lambda>_. 0) [toy_read] =
            (t', fold (copy_in of_nat) [toy_read] (\<lambda>_. 0), replicate (length [toy_read]) True) \<and>
          map_of (tt_idle t') ''h:1'' = Some [cn'] \<and>
          cn_out cn' = cn_out toy_conn @ concat [TCP_OP_READ # to_be 8 5 @ to_be 8 2] \<and>
          (of_nat :: mem) = of_nat \<and> (None :: exn option) = None"
    by (rule tcp_batch_read_correct [OF toy_request _ _ _ toy_serve])
      (simp_all add: toy_tcp_def toy_conn_def toy_read_def toy_covered)
  then show ?thesis by (simp add: toy_conn_def)
qed

theorem tcp_server_safe_witness:
  "\<exists>m2'. tcp_serve_conn [(0, 16)] False (of_nat(99 := 7)) [Chunk (TCP_OP_READ # to_be 8 5 @ to_be 8 2)] =
           (m2', [5, 6], None) \<and> m2' 99 = 7"
proof -
  have v: "same_view [(0, 16)] of_nat (of_nat(99 := 7))" by (simp add: same_view_def registered_def)
  have "\<not> registered [(0, 16)] 99" by (simp add: registered_def)
  with tcp_server_safe [OF v toy_serve] show ?thesis by (fastforce simp: kept_def)
qed

end
