(* ===== verification/Config.thy ===== *)
theory Config
  imports Discovery
begin

text \<open>
  The configuration of a node (\<^verbatim>\<open>python/peercache/config.py\<close>).

  The dataclass does not check the types of its arguments, so an attribute is any value that can
  come out of the JSON of the extra configuration; \<open>__post_init__\<close> normalises and validates them.
  Durations are whole clock ticks. What the interpreter and the host provide is a parameter:
  \<open>str()\<close> of a value that is not a string, the double that \<open>float()\<close> reads, as a mantissa and an
  exponent of two, the random suffix of the node id, and the addresses of the host. \<open>strip\<close> and
  \<open>lower\<close> are those of ASCII text.
\<close>

section \<open>Parsing\<close>

record host =
  h_texts :: texts
  h_float :: "string \<Rightarrow> (int \<times> int) result"
  h_sockname :: "string \<Rightarrow> string result"
  h_own_ip :: "string result"
  h_uuid8 :: string

definition py_str_of :: "host \<Rightarrow> pyval \<Rightarrow> string" where
  "py_str_of H v = (case v of VStr s \<Rightarrow> s | _ \<Rightarrow> str_of (h_texts H) v)"

definition lower :: "string \<Rightarrow> string" where
  "lower s = map (\<lambda>c. if 65 \<le> (of_char c :: nat) \<and> (of_char c :: nat) \<le> 90 then char_of (of_char c + 32 :: nat) else c) s"

text \<open>\<open>str(v).strip().lower()\<close>, the normal form of every keyword.\<close>

definition norm :: "host \<Rightarrow> pyval \<Rightarrow> string" where
  "norm H v = lower (strip (py_str_of H v))"

text \<open>\<open>int(s)\<close>: an optional sign and decimal digits, with single underscores between them.\<close>

fun underscores_ok :: "string \<Rightarrow> bool" where
  "underscores_ok [] = True"
| "underscores_ok [c] = (c \<noteq> CHR ''_'')"
| "underscores_ok (c # d # s) = (\<not> (c = CHR ''_'' \<and> d = CHR ''_'') \<and> underscores_ok (d # s))"

definition int_digits :: "string \<Rightarrow> int result" where
  "int_digits s =
     (if s \<noteq> [] \<and> hd s \<noteq> CHR ''_'' \<and> underscores_ok s
      then fmap_result int (parse_nat (filter (\<lambda>c. c \<noteq> CHR ''_'') s)) else Inl ValueError)"

definition parse_int :: "string \<Rightarrow> int result" where
  "parse_int s =
     (case strip s of
        [] \<Rightarrow> Inl ValueError
      | c # t \<Rightarrow>
          if c = CHR ''-'' then fmap_result uminus (int_digits t)
          else if c = CHR ''+'' then int_digits t
          else int_digits (c # t))"

fun py_int :: "pyval \<Rightarrow> int result" where
  "py_int (VInt i) = Inr i"
| "py_int (VBool b) = Inr (if b then 1 else 0)"
| "py_int (VStr s) = parse_int s"
| "py_int (VBytes b) = parse_int (decode_utf8 b)"
| "py_int _ = Inl TypeError"

text \<open>\<open>int(x * factor)\<close> of a double \<open>m * 2^e\<close> and a power of two, rounded towards zero.\<close>

definition scaled :: "int \<times> int \<Rightarrow> int \<Rightarrow> int" where
  "scaled x factor =
     (let (m, e) = x; p = m * factor
      in if 0 \<le> e then p * 2 ^ nat e else sgn p * (\<bar>p\<bar> div 2 ^ nat (- e)))"

definition size_units :: "(string \<times> int) list" where
  "size_units = [(''kb'', 2 ^ 10), (''mb'', 2 ^ 20), (''gb'', 2 ^ 30), (''tb'', 2 ^ 40)]"

definition ends_in :: "string \<Rightarrow> string \<Rightarrow> bool" where
  "ends_in s suffix \<longleftrightarrow> length suffix \<le> length s \<and> drop (length s - length suffix) s = suffix"

fun try_units :: "host \<Rightarrow> string \<Rightarrow> (string \<times> int) list \<Rightarrow> int result" where
  "try_units H s [] = parse_int s"
| "try_units H s ((suffix, factor) # us) =
     (if ends_in s suffix
      then fmap_result (\<lambda>x. scaled x factor) (h_float H (strip (take (length s - length suffix) s)))
      else try_units H s us)"

text \<open>A \<open>bool\<close> is an \<open>int\<close> in Python, and comes back as it is.\<close>

definition parse_size :: "host \<Rightarrow> pyval \<Rightarrow> pyval result" where
  "parse_size H v =
     (case v of
        VInt i \<Rightarrow> Inr (VInt i)
      | VBool b \<Rightarrow> Inr (VBool b)
      | _ \<Rightarrow> fmap_result VInt (try_units H (norm H v) size_units))"

definition as_bool :: "host \<Rightarrow> pyval \<Rightarrow> bool" where
  "as_bool H v =
     (case v of
        VBool b \<Rightarrow> b
      | VInt i \<Rightarrow> i \<noteq> 0
      | _ \<Rightarrow> norm H v \<in> {''1'', ''true'', ''yes'', ''on''})"

section \<open>The configuration\<close>

record config =
  cf_discovery_addr :: pyval
  cf_mode :: pyval
  cf_write_policy :: pyval
  cf_role :: pyval
  cf_protocol :: pyval
  cf_device_name :: pyval
  cf_device_names :: pyval
  cf_ib_port :: pyval
  cf_gid_index :: pyval
  cf_max_channels_per_peer :: pyval
  cf_global_segment_size :: pyval
  cf_vnodes :: pyval
  cf_directory_replicas :: pyval
  cf_directory_read_cache_ttl :: pyval
  cf_local_hostname :: pyval
  cf_rdma_bind_host :: pyval
  cf_rdma_port :: pyval
  cf_control_bind_host :: pyval
  cf_control_port :: pyval
  cf_meta_bind_host :: pyval
  cf_disk_enabled :: pyval
  cf_disk_path :: pyval
  cf_disk_size :: pyval
  cf_metrics_enabled :: pyval
  cf_metrics_bind_host :: pyval
  cf_metrics_port :: pyval
  cf_metrics_dashboard :: pyval
  cf_node_id :: pyval
  cf_prefix :: pyval
  cf_interface_v1 :: pyval
  cf_slot_max_page_bytes :: pyval
  cf_slot_ways :: pyval
  cf_slot_num_buckets :: pyval
  cf_heartbeat_interval :: pyval
  cf_member_ttl :: pyval
  cf_max_masters :: pyval
  cf_rails :: "pyval list"

text \<open>
  The attributes the generated \<open>__init__\<close> assigns: the keyword arguments, and the defaults of the
  class body for the others. \<open>second\<close> is the number of clock ticks of a second.
\<close>

definition config_init :: "int \<Rightarrow> pyval \<Rightarrow> (string \<times> pyval) list \<Rightarrow> config" where
  "config_init second addr kw =
     \<lparr>cf_discovery_addr = addr,
      cf_mode = field_or kw ''mode'' (VStr ''p2p''),
      cf_write_policy = field_or kw ''write_policy'' (VStr ''local''),
      cf_role = field_or kw ''role'' (VStr ''auto''),
      cf_protocol = field_or kw ''protocol'' (VStr ''rdma''),
      cf_device_name = field_or kw ''device_name'' (VStr []),
      cf_device_names = field_or kw ''device_names'' (VStr []),
      cf_ib_port = field_or kw ''ib_port'' (VInt 1),
      cf_gid_index = field_or kw ''gid_index'' (VInt 3),
      cf_max_channels_per_peer = field_or kw ''max_channels_per_peer'' (VInt 16),
      cf_global_segment_size = field_or kw ''global_segment_size'' (VInt (4 * 2 ^ 30)),
      cf_vnodes = field_or kw ''vnodes'' (VInt 160),
      cf_directory_replicas = field_or kw ''directory_replicas'' (VInt 2),
      cf_directory_read_cache_ttl = field_or kw ''directory_read_cache_ttl'' (VInt 0),
      cf_local_hostname = field_or kw ''local_hostname'' (VStr []),
      cf_rdma_bind_host = field_or kw ''rdma_bind_host'' (VStr ''0.0.0.0''),
      cf_rdma_port = field_or kw ''rdma_port'' (VInt 0),
      cf_control_bind_host = field_or kw ''control_bind_host'' (VStr ''0.0.0.0''),
      cf_control_port = field_or kw ''control_port'' (VInt 0),
      cf_meta_bind_host = field_or kw ''meta_bind_host'' (VStr ''0.0.0.0''),
      cf_disk_enabled = field_or kw ''disk_enabled'' (VBool True),
      cf_disk_path = field_or kw ''disk_path'' (VStr ''/data/peercache/''),
      cf_disk_size = field_or kw ''disk_size'' (VInt (100 * 2 ^ 30)),
      cf_metrics_enabled = field_or kw ''metrics_enabled'' (VBool True),
      cf_metrics_bind_host = field_or kw ''metrics_bind_host'' (VStr ''0.0.0.0''),
      cf_metrics_port = field_or kw ''metrics_port'' (VInt 31997),
      cf_metrics_dashboard = field_or kw ''metrics_dashboard'' (VBool True),
      cf_node_id = field_or kw ''node_id'' (VStr []),
      cf_prefix = field_or kw ''prefix'' (VStr []),
      cf_interface_v1 = field_or kw ''interface_v1'' (VBool False),
      cf_slot_max_page_bytes = field_or kw ''slot_max_page_bytes'' (VInt 262144),
      cf_slot_ways = field_or kw ''slot_ways'' (VInt 4),
      cf_slot_num_buckets = field_or kw ''slot_num_buckets'' (VInt 0),
      cf_heartbeat_interval = field_or kw ''heartbeat_interval'' (VInt (2 * second)),
      cf_member_ttl = field_or kw ''member_ttl'' (VInt (6 * second)),
      cf_max_masters = field_or kw ''max_masters'' (VInt 3),
      cf_rails = []\<rparr>"

definition resolve_local_ip :: "host \<Rightarrow> pyval \<Rightarrow> string result" where
  "resolve_local_ip H peer_addr =
     (let ask = (\<lambda>h. case h_sockname H h of Inr ip \<Rightarrow> Inr ip | Inl _ \<Rightarrow> h_own_ip H)
      in if \<not> truthy peer_addr then ask ''8.8.8.8''
         else case peer_addr of
                VStr s \<Rightarrow> ask (hd (split_on (CHR '':'') s))
              | VBytes _ \<Rightarrow> Inl TypeError
              | _ \<Rightarrow> Inl AttributeError)"

section \<open>Predicates\<close>

definition is_centralized :: "host \<Rightarrow> config \<Rightarrow> bool" where
  "is_centralized H c \<longleftrightarrow> norm H (cf_mode c) = ''centralized''"

definition is_slotmap :: "host \<Rightarrow> config \<Rightarrow> bool" where
  "is_slotmap H c \<longleftrightarrow> norm H (cf_mode c) = ''slotmap''"

definition is_hybrid :: "host \<Rightarrow> config \<Rightarrow> bool" where
  "is_hybrid H c \<longleftrightarrow> norm H (cf_mode c) = ''hybrid''"

definition uses_storage_writes :: "host \<Rightarrow> config \<Rightarrow> bool" where
  "uses_storage_writes H c \<longleftrightarrow>
     (if is_centralized H c then True
      else if is_hybrid H c then cf_write_policy c \<in> {VStr ''storage'', VStr ''both''}
      else False)"

definition effective_role :: "host \<Rightarrow> config \<Rightarrow> bool \<Rightarrow> string" where
  "effective_role H c for_storage_server =
     (let r = norm H (cf_role c)
      in if r \<noteq> ''auto'' then r else if for_storage_server then ''storage'' else ''inference'')"

definition is_inference_client_only :: "host \<Rightarrow> config \<Rightarrow> bool" where
  "is_inference_client_only H c \<longleftrightarrow> is_centralized H c \<and> effective_role H c False = ''inference''"

definition writes_local_pool :: "host \<Rightarrow> config \<Rightarrow> bool" where
  "writes_local_pool H c \<longleftrightarrow>
     (if is_inference_client_only H c then False
      else if is_hybrid H c then cf_write_policy c \<in> {VStr ''local'', VStr ''both''}
      else True)"

definition device_rails :: "config \<Rightarrow> pyval list" where
  "device_rails c =
     (if cf_rails c \<noteq> [] then cf_rails c
      else [if truthy (cf_device_name c) then cf_device_name c else VStr []])"

definition discovery_seeds :: "host \<Rightarrow> config \<Rightarrow> string list" where
  "discovery_seeds H c =
     map strip (filter (\<lambda>s. strip s \<noteq> []) (split_on (CHR '','') (py_str_of H (cf_discovery_addr c))))"

definition meta_port :: "host \<Rightarrow> config \<Rightarrow> int result" where
  "meta_port H c =
     (case discovery_seeds H c of
        [] \<Rightarrow> Inl IndexError
      | s # _ \<Rightarrow> (case rsplit_colon s of None \<Rightarrow> Inl IndexError | Some (_, p) \<Rightarrow> parse_int p))"

section \<open>Construction\<close>

definition normal_rails :: "host \<Rightarrow> config \<Rightarrow> pyval list" where
  "normal_rails H c =
     (if truthy (cf_device_names c)
      then map (\<lambda>d. VStr (strip d))
             (filter (\<lambda>d. strip d \<noteq> []) (split_on (CHR '','') (py_str_of H (cf_device_names c))))
      else if truthy (cf_device_name c) then [cf_device_name c]
      else [VStr []])"

text \<open>\<open>if not cond: raise ValueError(...)\<close>.\<close>

definition require :: "bool \<Rightarrow> 'a result \<Rightarrow> 'a result" where
  "require b r = (if b then r else Inl ValueError)"

definition seeds_ok :: "string list \<Rightarrow> bool" where
  "seeds_ok seeds \<longleftrightarrow> seeds \<noteq> [] \<and> (\<forall>s \<in> set seeds. CHR '':'' \<in> set s)"

definition seed_ports :: "string list \<Rightarrow> string set" where
  "seed_ports seeds = (\<lambda>s. case rsplit_colon s of None \<Rightarrow> [] | Some (_, p) \<Rightarrow> p) ` set seeds"

definition named_rails :: "config \<Rightarrow> pyval list" where
  "named_rails c = filter truthy (cf_rails c)"

definition validate :: "host \<Rightarrow> config \<Rightarrow> config result" where
  "validate H c =
     (let mode = norm H (cf_mode c)
      in require (mode \<in> {''p2p'', ''hybrid'', ''centralized'', ''slotmap''})
     (let c = c\<lparr>cf_mode := VStr mode\<rparr>; role = norm H (cf_role c)
      in require (role \<in> {''auto'', ''inference'', ''storage''})
     (let c = c\<lparr>cf_role := VStr role\<rparr>; wp = norm H (cf_write_policy c)
      in require (wp \<in> {''local'', ''storage'', ''both''})
     (let c = c\<lparr>cf_write_policy := VStr wp\<rparr>
      in require (cf_protocol c \<in> {VStr ''rdma'', VStr ''tcp''})
     (let seeds = discovery_seeds H c
      in require (seeds_ok seeds)
     (require (card (seed_ports seeds) \<le> 1)
     (bind_result (py_int (cf_max_masters c)) (\<lambda>mm. require (1 \<le> mm)
     (bind_result (py_int (cf_ib_port c)) (\<lambda>ip. require (1 \<le> ip \<and> ip \<le> 255)
     (bind_result (py_int (cf_gid_index c)) (\<lambda>gi. require (- 1 \<le> gi)
     (bind_result (py_int (cf_global_segment_size c)) (\<lambda>gs. require (0 < gs)
     (bind_result (py_int (cf_max_channels_per_peer c)) (\<lambda>mc. require (1 \<le> mc)
     (require (distinct (named_rails c)) (Inr c))))))))))))))))))"

definition post_init :: "host \<Rightarrow> config \<Rightarrow> config result" where
  "post_init H c =
     bind_result
       (if truthy (cf_local_hostname c) then Inr c
        else fmap_result (\<lambda>ip. c\<lparr>cf_local_hostname := VStr ip\<rparr>) (resolve_local_ip H (cf_discovery_addr c))) (\<lambda>c.
     let c = (if truthy (cf_node_id c) then c
              else c\<lparr>cf_node_id := VStr (py_str_of H (cf_local_hostname c) @ ''-'' @ h_uuid8 H)\<rparr>)
     in bind_result (parse_size H (cf_global_segment_size c)) (\<lambda>v.
     let c = c\<lparr>cf_global_segment_size := v\<rparr>
     in bind_result (parse_size H (cf_slot_max_page_bytes c)) (\<lambda>v.
     let c = c\<lparr>cf_slot_max_page_bytes := v\<rparr>;
         c = c\<lparr>cf_rails := normal_rails H c\<rparr>
     in bind_result (parse_size H (cf_disk_size c)) (\<lambda>v.
     let c = c\<lparr>cf_disk_size := v\<rparr>;
         c = c\<lparr>cf_disk_enabled := VBool (as_bool H (cf_disk_enabled c))\<rparr>;
         c = c\<lparr>cf_metrics_enabled := VBool (as_bool H (cf_metrics_enabled c))\<rparr>;
         c = c\<lparr>cf_metrics_dashboard := VBool (as_bool H (cf_metrics_dashboard c))\<rparr>
     in validate H c))))"

definition known_keys :: "string list" where
  "known_keys =
     [''discovery_addr'', ''mode'', ''role'', ''write_policy'', ''protocol'', ''device_name'', ''device_names'',
      ''ib_port'', ''gid_index'', ''max_channels_per_peer'', ''global_segment_size'', ''vnodes'',
      ''directory_replicas'', ''directory_read_cache_ttl'', ''local_hostname'', ''rdma_bind_host'', ''rdma_port'',
      ''control_bind_host'', ''control_port'', ''meta_bind_host'', ''disk_enabled'', ''disk_path'', ''disk_size'',
      ''metrics_enabled'', ''metrics_bind_host'', ''metrics_port'', ''metrics_dashboard'', ''node_id'', ''prefix'',
      ''interface_v1'', ''heartbeat_interval'', ''member_ttl'', ''max_masters'', ''slot_max_page_bytes'',
      ''slot_ways'', ''slot_num_buckets'']"

definition from_extra_config :: "host \<Rightarrow> int \<Rightarrow> (string \<times> pyval) list \<Rightarrow> config result" where
  "from_extra_config H second extra =
     (case map_of extra ''discovery_addr'' of
        None \<Rightarrow> Inl ValueError
      | Some addr \<Rightarrow>
          (let kwargs = filter (\<lambda>(k, v). k \<in> set known_keys) extra;
               kwargs = (case map_of kwargs ''interface_v1'' of
                           None \<Rightarrow> kwargs
                         | Some v \<Rightarrow> AList.update ''interface_v1'' (VBool (truthy v)) kwargs)
           in post_init H (config_init second addr kwargs)))"

section \<open>What an accepted configuration is\<close>

fun is_int :: "pyval \<Rightarrow> bool" where
  "is_int (VInt _) = True"
| "is_int (VBool _) = True"
| "is_int _ = False"

fun is_bool :: "pyval \<Rightarrow> bool" where
  "is_bool (VBool _) = True"
| "is_bool _ = False"

definition int_in :: "int \<Rightarrow> int option \<Rightarrow> pyval \<Rightarrow> bool" where
  "int_in lo hi v \<longleftrightarrow>
     (case py_int v of Inl _ \<Rightarrow> False | Inr i \<Rightarrow> lo \<le> i \<and> (case hi of None \<Rightarrow> True | Some h \<Rightarrow> i \<le> h))"

text \<open>The keywords are in normal form and in range.\<close>

definition keywords_ok :: "config \<Rightarrow> bool" where
  "keywords_ok c \<longleftrightarrow>
     cf_mode c \<in> VStr ` {''p2p'', ''hybrid'', ''centralized'', ''slotmap''} \<and>
     cf_role c \<in> VStr ` {''auto'', ''inference'', ''storage''} \<and>
     cf_write_policy c \<in> VStr ` {''local'', ''storage'', ''both''} \<and>
     cf_protocol c \<in> VStr ` {''rdma'', ''tcp''}"

definition numbers_ok :: "config \<Rightarrow> bool" where
  "numbers_ok c \<longleftrightarrow>
     is_int (cf_global_segment_size c) \<and> int_in 1 None (cf_global_segment_size c) \<and>
     is_int (cf_slot_max_page_bytes c) \<and> is_int (cf_disk_size c) \<and>
     int_in 1 None (cf_max_masters c) \<and> int_in 1 (Some 255) (cf_ib_port c) \<and>
     int_in (- 1) None (cf_gid_index c) \<and> int_in 1 None (cf_max_channels_per_peer c)"

definition flags_ok :: "config \<Rightarrow> bool" where
  "flags_ok c \<longleftrightarrow>
     is_bool (cf_disk_enabled c) \<and> is_bool (cf_metrics_enabled c) \<and> is_bool (cf_metrics_dashboard c)"

definition rails_ok :: "config \<Rightarrow> bool" where
  "rails_ok c \<longleftrightarrow> device_rails c \<noteq> [] \<and> distinct (filter truthy (device_rails c))"

definition one_port :: "host \<Rightarrow> config \<Rightarrow> bool" where
  "one_port H c \<longleftrightarrow>
     discovery_seeds H c \<noteq> [] \<and>
     (\<exists>p. \<forall>s \<in> set (discovery_seeds H c). \<exists>h. rsplit_colon s = Some (h, p))"

lemma require_eq: "require b r = Inr x \<longleftrightarrow> b \<and> r = Inr x"
  by (simp add: require_def)

lemma validate_eq:
  "validate H c = Inr c' \<longleftrightarrow>
     norm H (cf_mode c) \<in> {''p2p'', ''hybrid'', ''centralized'', ''slotmap''} \<and>
     norm H (cf_role c) \<in> {''auto'', ''inference'', ''storage''} \<and>
     norm H (cf_write_policy c) \<in> {''local'', ''storage'', ''both''} \<and>
     cf_protocol c \<in> {VStr ''rdma'', VStr ''tcp''} \<and>
     seeds_ok (discovery_seeds H c) \<and> card (seed_ports (discovery_seeds H c)) \<le> 1 \<and>
     int_in 1 None (cf_max_masters c) \<and> int_in 1 (Some 255) (cf_ib_port c) \<and>
     int_in (- 1) None (cf_gid_index c) \<and> int_in 1 None (cf_global_segment_size c) \<and>
     int_in 1 None (cf_max_channels_per_peer c) \<and> distinct (named_rails c) \<and>
     c' = c\<lparr>cf_mode := VStr (norm H (cf_mode c)), cf_role := VStr (norm H (cf_role c)),
            cf_write_policy := VStr (norm H (cf_write_policy c))\<rparr>"
proof -
  have i: "(\<exists>i. py_int v = Inr i \<and> P i) \<longleftrightarrow> (case py_int v of Inl _ \<Rightarrow> False | Inr i \<Rightarrow> P i)" for v P
    by (cases "py_int v") simp_all
  have g: "(0 < i) = (1 \<le> i)" for i :: int by auto
  show ?thesis
    unfolding validate_def Let_def require_eq bind_result_eq_Inr g
    by (simp add: int_in_def discovery_seeds_def named_rails_def i) (auto split: sum.splits)
qed

lemma rails_ok_named: "distinct (named_rails c) \<Longrightarrow> rails_ok c"
  by (simp add: rails_ok_def device_rails_def named_rails_def)

lemma one_portI:
  assumes "seeds_ok (discovery_seeds H c)" and "card (seed_ports (discovery_seeds H c)) \<le> 1"
  shows "one_port H c"
proof -
  let ?port = "\<lambda>s. case rsplit_colon s of None \<Rightarrow> [] | Some (_, p) \<Rightarrow> p"
  have "finite (seed_ports (discovery_seeds H c))" by (simp add: seed_ports_def)
  with assms(2) have eq: "?port s = ?port t" if "s \<in> set (discovery_seeds H c)" "t \<in> set (discovery_seeds H c)" for s t
    using that unfolding seed_ports_def by (metis (no_types, lifting) One_nat_def card_le_Suc0_iff_eq imageI)
  from assms(1) obtain t where t: "t \<in> set (discovery_seeds H c)" by (metis seeds_ok_def last_in_set)
  have "\<exists>h. rsplit_colon s = Some (h, ?port t)" if s: "s \<in> set (discovery_seeds H c)" for s
  proof -
    have "CHR '':'' \<in> set s" using assms(1) s by (simp add: seeds_ok_def)
    then have "\<exists>h. rsplit_colon s = Some (h, ?port s)" by (simp add: rsplit_colon_def)
    with eq [OF s t] show ?thesis by simp
  qed
  moreover have "discovery_seeds H c \<noteq> []" using assms(1) by (simp add: seeds_ok_def)
  ultimately show ?thesis unfolding one_port_def by blast
qed

lemma validated:
  assumes "validate H c = Inr c'"
  shows "keywords_ok c' \<and> rails_ok c' \<and> one_port H c'"
    and "is_int (cf_global_segment_size c) \<and> is_int (cf_slot_max_page_bytes c) \<and> is_int (cf_disk_size c) \<Longrightarrow> numbers_ok c'"
    and "flags_ok c \<Longrightarrow> flags_ok c'"
proof -
  note v = assms [unfolded validate_eq]
  have rails: "rails_ok c'" using v by (intro rails_ok_named) (simp add: named_rails_def)
  have same: "discovery_seeds H c' = discovery_seeds H c" using v by (simp add: discovery_seeds_def)
  then have "one_port H c'" using v by (intro one_portI) simp_all
  with rails v show "keywords_ok c' \<and> rails_ok c' \<and> one_port H c'"
    unfolding keywords_ok_def by (elim conjE) simp
  show "numbers_ok c'"
    if "is_int (cf_global_segment_size c) \<and> is_int (cf_slot_max_page_bytes c) \<and> is_int (cf_disk_size c)"
    using v that unfolding numbers_ok_def by (elim conjE) simp
  show "flags_ok c'" if "flags_ok c" using v that by (simp add: flags_ok_def)
qed

lemma parse_size_int: "parse_size H v = Inr w \<Longrightarrow> is_int w"
  by (auto simp: parse_size_def fmap_result_eq_Inr split: pyval.splits)

lemma post_init_validates:
  assumes "post_init H c = Inr c'"
  obtains c1 where "validate H c1 = Inr c'" and "flags_ok c1"
    and "is_int (cf_global_segment_size c1) \<and> is_int (cf_slot_max_page_bytes c1) \<and> is_int (cf_disk_size c1)"
proof -
  from assms show thesis
    unfolding post_init_def Let_def bind_result_eq_Inr
    by (elim exE conjE) (rule that, assumption, auto simp: flags_ok_def dest: parse_size_int)
qed

lemma norm_keyword: "norm H (VStr s) = lower (strip s)"
  by (simp add: norm_def py_str_of_def)

lemma norm_modes [simp]:
  "lower (strip ''p2p'') = ''p2p''" "lower (strip ''hybrid'') = ''hybrid''"
  "lower (strip ''centralized'') = ''centralized''" "lower (strip ''slotmap'') = ''slotmap''"
  by code_simp+

lemma writes_somewhere: "keywords_ok c \<Longrightarrow> uses_storage_writes H c \<or> writes_local_pool H c"
  unfolding keywords_ok_def uses_storage_writes_def writes_local_pool_def is_inference_client_only_def
    is_centralized_def is_hybrid_def
  by (elim conjE imageE) (auto simp: norm_keyword)


definition toy_host :: host where
  "toy_host =
     \<lparr>h_texts = \<lparr>str_of = (\<lambda>_. ''?''), repr_of = (\<lambda>_. ''?'')\<rparr>, h_float = (\<lambda>_. Inr (3, - 1)),
      h_sockname = (\<lambda>_. Inr ''10.0.0.7''), h_own_ip = Inl OSError, h_uuid8 = ''0badf00d''\<rparr>"

definition toy_extra :: "(string \<times> pyval) list" where
  "toy_extra =
     [(''discovery_addr'', VStr ''a:31998, b:31998''), (''mode'', VStr '' Hybrid ''),
      (''global_segment_size'', VStr ''1.5 GB''), (''unknown'', VNone)]"

definition toy_config :: config where
  "toy_config = (config_init 1000 (VStr ''a:31998, b:31998'') [])
     \<lparr>cf_mode := VStr '' Hybrid '', cf_global_segment_size := VStr ''1.5 GB''\<rparr>"

lemma toy_parts:
  "lower (strip '' Hybrid '') = ''hybrid''" "lower (strip ''auto'') = ''auto''" "lower (strip ''local'') = ''local''"
  "parse_size toy_host (VStr ''1.5 GB'') = Inr (VInt 1610612736)"
  "resolve_local_ip toy_host (VStr ''a:31998, b:31998'') = Inr ''10.0.0.7''"
  "map strip (filter (\<lambda>s. strip s \<noteq> []) (split_on (CHR '','') ''a:31998, b:31998'')) = [''a:31998'', ''b:31998'']"
  "seeds_ok [''a:31998'', ''b:31998'']" "card (seed_ports [''a:31998'', ''b:31998'']) \<le> 1"
  "map_of toy_extra ''discovery_addr'' = Some (VStr ''a:31998, b:31998'')"
  "filter (\<lambda>(k, v). k \<in> set known_keys) toy_extra = butlast toy_extra" "map_of (butlast toy_extra) ''interface_v1'' = None"
  by code_simp+

lemma parse_size_VInt: "parse_size H (VInt i) = Inr (VInt i)"
  by (simp add: parse_size_def)

lemma toy_init: "config_init 1000 (VStr ''a:31998, b:31998'') (butlast toy_extra) = toy_config"
  by (simp add: toy_config_def config_init_def field_or_def toy_extra_def)

lemma toy_validates:
  assumes "cf_mode c = VStr '' Hybrid ''" and "cf_discovery_addr c = VStr ''a:31998, b:31998''"
    and "cf_global_segment_size c = VInt 1610612736" and "cf_rails c = [VStr []]"
    and "cf_role c = VStr ''auto''" and "cf_write_policy c = VStr ''local''" and "cf_protocol c = VStr ''rdma''"
    and "cf_max_masters c = VInt 3" and "cf_ib_port c = VInt 1" and "cf_gid_index c = VInt 3"
    and "cf_max_channels_per_peer c = VInt 16"
  shows "\<exists>c'. validate toy_host c = Inr c'"
proof -
  have "discovery_seeds toy_host c = [''a:31998'', ''b:31998'']"
    unfolding discovery_seeds_def assms(2) py_str_of_def pyval.case by (rule toy_parts(6))
  then show ?thesis
    unfolding validate_eq assms norm_keyword toy_parts(1-3) named_rails_def int_in_def
    using toy_parts(7,8) by simp
qed

lemma toy_config_accepted: "\<exists>c. from_extra_config toy_host 1000 toy_extra = Inr c"
proof -
  have "\<exists>c. post_init toy_host toy_config = Inr c"
    unfolding post_init_def Let_def
    by (simp add: toy_config_def config_init_def field_or_def toy_parts(4,5) parse_size_VInt normal_rails_def)
      (rule toy_validates; simp)
  then show ?thesis
    by (simp add: from_extra_config_def toy_parts(9-11) Let_def toy_init)
qed


end
