(* ===== verification/Metrics.thy ===== *)
theory Metrics
  imports Wire
begin

text \<open>
  Metrics (\<^verbatim>\<open>python/peercache/metrics.py\<close>): the counters, the bounded latency reservoirs, the
  snapshot, its rendering for Prometheus and the routing of the HTTP handler.

  Latencies and clocks are integers (nanoseconds). An average and a rate are kept as the two integers
  whose quotient Python computes. Rendering of floating-point numbers and the double product inside
  a quantile's index are parameters; the HTML of the dashboard is a constant this theory does not
  look into.
\<close>

section \<open>State\<close>

definition COUNTERS :: "string list" where
  "COUNTERS =
     [''read_requests'', ''read_hits'', ''read_misses'', ''read_local_hits'', ''read_remote_hits'', ''read_disk_hits'',
      ''write_requests'', ''bytes_read'', ''bytes_written'', ''evictions'', ''disk_writes'', ''disk_bytes_written'',
      ''disk_evictions'', ''promotes'', ''read_failures'', ''directory_republishes'', ''directory_lookups_saved'',
      ''exists_requests'', ''exists_pages_found'']"

text \<open>A \<open>deque(maxlen)\<close> is its bound and its items; gauges are the names of their providers.\<close>

record metrics =
  mx_node_id :: string
  mx_counters :: "(string, int) dict"
  mx_gauges :: "string list"
  mx_lat :: "(string, nat \<times> int list) dict"
  mx_start :: int

definition new_metrics :: "string \<Rightarrow> nat \<Rightarrow> int \<Rightarrow> metrics" where
  "new_metrics node_id reservoir now =
     \<lparr>mx_node_id = node_id, mx_counters = map (\<lambda>name. (name, 0)) COUNTERS, mx_gauges = [],
      mx_lat = [(''read'', (reservoir, [])), (''write'', (reservoir, []))], mx_start = now\<rparr>"

section \<open>Mutation\<close>

definition counter :: "metrics \<Rightarrow> string \<Rightarrow> int" where
  "counter mx name = (case map_of (mx_counters mx) name of None \<Rightarrow> 0 | Some v \<Rightarrow> v)"

definition inc :: "metrics \<Rightarrow> string \<Rightarrow> int \<Rightarrow> metrics" where
  "inc mx name n = mx\<lparr>mx_counters := AList.update name (counter mx name + n) (mx_counters mx)\<rparr>"

definition deque_append :: "nat \<times> int list \<Rightarrow> int \<Rightarrow> nat \<times> int list" where
  "deque_append d x = (let (maxlen, xs) = d; xs = xs @ [x] in (maxlen, drop (length xs - maxlen) xs))"

definition observe :: "metrics \<Rightarrow> string \<Rightarrow> int \<Rightarrow> metrics" where
  "observe mx op ns =
     mx\<lparr>mx_lat := AList.update op
          (deque_append (case map_of (mx_lat mx) op of None \<Rightarrow> (8192, []) | Some d \<Rightarrow> d) ns) (mx_lat mx)\<rparr>"

definition set_gauge_provider :: "metrics \<Rightarrow> string \<Rightarrow> metrics" where
  "set_gauge_provider mx name =
     mx\<lparr>mx_gauges := (if name \<in> set (mx_gauges mx) then mx_gauges mx else mx_gauges mx @ [name])\<rparr>"

text \<open>
  The two recorders. The counters and reservoirs they touch exist from the start and are never
  removed, so reading them with a default is reading them.
\<close>

definition record_read :: "metrics \<Rightarrow> bool \<Rightarrow> int \<Rightarrow> int \<Rightarrow> string option \<Rightarrow> metrics" where
  "record_read mx hit nbytes ns source =
     (let mx = inc mx ''read_requests'' 1;
          mx = (if hit then
                  (let mx = inc (inc mx ''read_hits'' 1) ''bytes_read'' nbytes
                   in case source of
                        None \<Rightarrow> mx
                      | Some s \<Rightarrow>
                          if s \<in> {''local'', ''remote'', ''disk''} then inc mx (''read_'' @ s @ ''_hits'') 1 else mx)
                else inc mx ''read_misses'' 1)
      in observe mx ''read'' ns)"

definition record_write :: "metrics \<Rightarrow> int \<Rightarrow> int \<Rightarrow> metrics" where
  "record_write mx nbytes ns =
     observe (inc (inc mx ''write_requests'' 1) ''bytes_written'' nbytes) ''write'' ns"

section \<open>Read-out\<close>

text \<open>\<open>rnd q k\<close> is \<open>int(round(q * k))\<close>, with the quantile in hundredths.\<close>

definition QUANTILES :: "nat list" where
  "QUANTILES = [50, 90, 99]"

definition quantile :: "(nat \<Rightarrow> nat \<Rightarrow> nat) \<Rightarrow> int list \<Rightarrow> nat \<Rightarrow> int" where
  "quantile rnd vals q =
     (if vals = [] then 0 else vals ! min (length vals - 1) (rnd q (length vals - 1)))"

record lat_stats =
  ls_sum :: int
  ls_count :: nat
  ls_quantiles :: "(nat \<times> int) list"

record snapshot_out =
  sn_counters :: "(string, int) dict"
  sn_gauges :: "(string, int) dict"
  sn_latency :: "(string, lat_stats) dict"
  sn_hit_rate :: "int \<times> int"
  sn_uptime :: int

text \<open>\<open>gauge\<close> gives what a provider returns, or that it raises; the rate of no reads is 0.\<close>

definition metrics_snapshot ::
  "(nat \<Rightarrow> nat \<Rightarrow> nat) \<Rightarrow> (string \<Rightarrow> int result) \<Rightarrow> int \<Rightarrow> metrics \<Rightarrow> snapshot_out" where
  "metrics_snapshot rnd gauge now mx =
     \<lparr>sn_counters = mx_counters mx,
      sn_gauges = map (\<lambda>name. (name, case gauge name of Inr v \<Rightarrow> v | Inl _ \<Rightarrow> 0)) (mx_gauges mx),
      sn_latency = map (\<lambda>(op, d). let vals = sort (snd d) in
          (op, \<lparr>ls_sum = sum_list vals, ls_count = length vals,
                ls_quantiles = map (\<lambda>q. (q, quantile rnd vals q)) QUANTILES\<rparr>)) (mx_lat mx),
      sn_hit_rate = (let reads = counter mx ''read_requests''
                     in if reads \<noteq> 0 then (counter mx ''read_hits'', reads) else (0, 1)),
      sn_uptime = now - mx_start mx\<rparr>"

text \<open>How Python writes the numbers: integers, gauges, quotients with six digits, the uptime.\<close>

record number_format =
  nf_int :: "int \<Rightarrow> string"
  nf_gauge :: "int \<Rightarrow> string"
  nf_quotient6 :: "int \<Rightarrow> int \<Rightarrow> string"
  nf_seconds1 :: "int \<Rightarrow> string"
  nf_quantile :: "nat \<Rightarrow> string"

definition quoted :: "string \<Rightarrow> string" where
  "quoted s = CHR 0x22 # s @ [CHR 0x22]"

definition emit :: "string \<Rightarrow> string \<Rightarrow> string \<Rightarrow> string \<Rightarrow> string \<Rightarrow> string list" where
  "emit lbl metric value mtype help_text =
     [''# HELP peercache_'' @ metric @ '' '' @ help_text,
      ''# TYPE peercache_'' @ metric @ '' '' @ mtype,
      ''peercache_'' @ metric @ lbl @ '' '' @ value]"

definition emit_latency :: "number_format \<Rightarrow> string \<Rightarrow> string \<times> lat_stats \<Rightarrow> string list" where
  "emit_latency F node_id e =
     (let (op, st) = e;
          base = ''{node='' @ quoted node_id @ '',op='' @ quoted op @ ''}''
      in concat (map (\<lambda>(q, v).
           [''# TYPE peercache_op_latency_seconds summary'',
            ''peercache_op_latency_seconds{node='' @ quoted node_id @ '',op='' @ quoted op @ '',quantile='' @
              quoted (nf_quantile F q) @ ''} '' @ nf_quotient6 F v 1000000000]) (ls_quantiles st)) @
         [''peercache_op_latency_seconds_avg'' @ base @ '' '' @
            (if ls_count st = 0 then nf_quotient6 F 0 1 else nf_quotient6 F (ls_sum st) (int (ls_count st) * 1000000000)),
          ''peercache_op_latency_seconds_count'' @ base @ '' '' @ nf_int F (int (ls_count st))])"

definition render_prometheus :: "number_format \<Rightarrow> string \<Rightarrow> snapshot_out \<Rightarrow> string" where
  "render_prometheus F node_id s =
     (let lbl = (if node_id \<noteq> [] then ''{node='' @ quoted node_id @ ''}'' else []);
          ls =
            concat (map (\<lambda>(name, v). emit lbl (name @ ''_total'') (nf_int F v) ''counter'' (''PeerCache '' @ name)) (sn_counters s)) @
            concat (map (\<lambda>(name, v). emit lbl name (nf_gauge F v) ''gauge'' (''PeerCache '' @ name)) (sn_gauges s)) @
            emit lbl ''read_hit_rate'' (nf_quotient6 F (fst (sn_hit_rate s)) (snd (sn_hit_rate s))) ''gauge''
              ''Read hit rate (hits / requests)'' @
            emit lbl ''uptime_seconds'' (nf_seconds1 F (sn_uptime s)) ''gauge'' ''Process uptime'' @
            concat (map (emit_latency F node_id) (sn_latency s))
      in concat (map (\<lambda>l. l @ [CHR 0x0A]) ls))"

section \<open>The HTTP handler\<close>

definition starts_with :: "string \<Rightarrow> string \<Rightarrow> bool" where
  "starts_with s pre \<longleftrightarrow> take (length pre) s = pre"

text \<open>\<open>do_GET\<close>: the status, the body and the content type.\<close>

definition do_GET :: "bool \<Rightarrow> string \<Rightarrow> string \<Rightarrow> string \<Rightarrow> nat \<times> string \<times> string" where
  "do_GET serve_dashboard rendered dashboard_html path =
     (if starts_with path ''/metrics'' then (200, rendered, ''text/plain; version=0.0.4; charset=utf-8'')
      else if starts_with path ''/healthz'' then (200, ''ok'', ''text/plain'')
      else if serve_dashboard \<and> path \<in> {''/'', ''/dashboard'', ''/index.html''}
      then (200, dashboard_html, ''text/html; charset=utf-8'')
      else (404, ''not found'', ''text/plain''))"

section \<open>Accounting\<close>

datatype metrics_op =
    MRead bool int int "string option"
  | MWrite int int
  | MInc string int

fun metrics_step :: "metrics \<Rightarrow> metrics_op \<Rightarrow> metrics" where
  "metrics_step mx (MRead hit n ns src) = record_read mx hit n ns src"
| "metrics_step mx (MWrite n ns) = record_write mx n ns"
| "metrics_step mx (MInc name n) = inc mx name n"

text \<open>The counters that only \<open>record_read\<close> writes.\<close>

definition read_counters :: "string set" where
  "read_counters =
     {''read_requests'', ''read_hits'', ''read_misses'', ''read_local_hits'', ''read_remote_hits'', ''read_disk_hits'',
      ''bytes_read''}"

fun op_reads :: "metrics_op \<Rightarrow> (bool \<times> int \<times> int) list" where
  "op_reads (MRead hit n ns src) = [(hit, n, ns)]"
| "op_reads _ = []"

definition reads_of :: "metrics_op list \<Rightarrow> (bool \<times> int \<times> int) list" where
  "reads_of ops = concat (map op_reads ops)"

lemma counter_inc [simp]: "counter (inc mx a n) b = counter mx b + (if b = a then n else 0)"
  by (simp add: counter_def inc_def)

lemma counter_observe [simp]: "counter (observe mx op ns) b = counter mx b"
  by (simp add: counter_def observe_def)

lemma mx_lat_inc [simp]: "mx_lat (inc mx a n) = mx_lat mx"
  by (simp add: inc_def)

text \<open>The effect of one step on what the accounts are made of.\<close>

definition source_hits :: "metrics \<Rightarrow> int" where
  "source_hits mx = counter mx ''read_local_hits'' + counter mx ''read_remote_hits'' + counter mx ''read_disk_hits''"

definition lat_of :: "metrics \<Rightarrow> string \<Rightarrow> nat \<times> int list" where
  "lat_of mx op = (case map_of (mx_lat mx) op of None \<Rightarrow> (8192, []) | Some d \<Rightarrow> d)"

lemma lat_of_observe: "lat_of (observe mx op ns) op' = (if op' = op then deque_append (lat_of mx op) ns else lat_of mx op')"
  by (simp add: lat_of_def observe_def)

lemma lat_of_inc [simp]: "lat_of (inc mx a n) op = lat_of mx op"
  by (simp add: lat_of_def)

lemma record_read_counts:
  "counter (record_read mx hit n ns src) ''read_requests'' = counter mx ''read_requests'' + 1"
  "counter (record_read mx hit n ns src) ''read_hits'' = counter mx ''read_hits'' + (if hit then 1 else 0)"
  "counter (record_read mx hit n ns src) ''read_misses'' = counter mx ''read_misses'' + (if hit then 0 else 1)"
  "counter (record_read mx hit n ns src) ''bytes_read'' = counter mx ''bytes_read'' + (if hit then n else 0)"
  "source_hits (record_read mx hit n ns src) \<le> source_hits mx + (if hit then 1 else 0)"
  "lat_of (record_read mx hit n ns src) ''read'' = deque_append (lat_of mx ''read'') ns"
proof -
  consider "\<not> hit" | "hit" "src = None" | "hit" "src = Some ''local''" | "hit" "src = Some ''remote''"
    | "hit" "src = Some ''disk''" | s where "hit" "src = Some s" "s \<notin> {''local'', ''remote'', ''disk''}"
    by (cases src) auto
  then show
    "counter (record_read mx hit n ns src) ''read_requests'' = counter mx ''read_requests'' + 1"
    "counter (record_read mx hit n ns src) ''read_hits'' = counter mx ''read_hits'' + (if hit then 1 else 0)"
    "counter (record_read mx hit n ns src) ''read_misses'' = counter mx ''read_misses'' + (if hit then 0 else 1)"
    "counter (record_read mx hit n ns src) ''bytes_read'' = counter mx ''bytes_read'' + (if hit then n else 0)"
    "source_hits (record_read mx hit n ns src) \<le> source_hits mx + (if hit then 1 else 0)"
    "lat_of (record_read mx hit n ns src) ''read'' = deque_append (lat_of mx ''read'') ns"
    by (cases; simp add: record_read_def Let_def source_hits_def lat_of_observe)+
qed

lemma record_write_counts:
  "name \<in> read_counters \<Longrightarrow> counter (record_write mx n ns) name = counter mx name"
  "lat_of (record_write mx n ns) ''read'' = lat_of mx ''read''"
  by (auto simp: record_write_def read_counters_def lat_of_observe)

text \<open>The last \<open>n\<close> items.\<close>

definition last_n :: "nat \<Rightarrow> 'a list \<Rightarrow> 'a list" where
  "last_n n xs = drop (length xs - n) xs"

lemma deque_append_last: "deque_append (n, last_n n xs) x = (n, last_n n (xs @ [x]))"
  by (cases "length xs < n") (auto simp: deque_append_def last_n_def Suc_diff_le)

text \<open>What the accounts say after the reads \<open>rs\<close>.\<close>

definition accounts :: "nat \<Rightarrow> (bool \<times> int \<times> int) list \<Rightarrow> metrics \<Rightarrow> bool" where
  "accounts reservoir rs mx \<longleftrightarrow>
     counter mx ''read_requests'' = int (length rs) \<and>
     counter mx ''read_hits'' = int (length (filter fst rs)) \<and>
     counter mx ''read_misses'' = int (length rs) - int (length (filter fst rs)) \<and>
     counter mx ''bytes_read'' = sum_list (map (\<lambda>(hit, n, ns). n) (filter fst rs)) \<and>
     source_hits mx \<le> int (length (filter fst rs)) \<and>
     lat_of mx ''read'' = (reservoir, last_n reservoir (map (\<lambda>(hit, n, ns). ns) rs))"

lemma accounts_read:
  assumes "accounts reservoir rs mx"
  shows "accounts reservoir (rs @ [(hit, n, ns)]) (record_read mx hit n ns src)"
  using assms record_read_counts(5) [of mx hit n ns src]
  unfolding accounts_def record_read_counts(1-4,6) by (cases hit) (auto simp: deque_append_last)

lemma accounts_same:
  assumes "accounts reservoir rs mx" and "\<And>name. name \<in> read_counters \<Longrightarrow> counter mx' name = counter mx name"
    and "lat_of mx' ''read'' = lat_of mx ''read''"
  shows "accounts reservoir rs mx'"
proof -
  have "counter mx' ''read_requests'' = counter mx ''read_requests''" "counter mx' ''read_hits'' = counter mx ''read_hits''"
    "counter mx' ''read_misses'' = counter mx ''read_misses''" "counter mx' ''bytes_read'' = counter mx ''bytes_read''"
    "source_hits mx' = source_hits mx"
    by (simp_all add: assms(2) read_counters_def source_hits_def)
  with assms(1,3) show ?thesis unfolding accounts_def by simp
qed

lemma accounts_new: "accounts reservoir [] (new_metrics node_id reservoir now)"
  by (simp add: accounts_def counter_def source_hits_def lat_of_def new_metrics_def COUNTERS_def last_n_def)

text \<open>
  C29. The read metrics are the truth: after any sequence of recorded reads, writes and increments of
  other counters, the request counter is the number of reads, hits plus misses make up the requests,
  the bytes are those of the hits, the hits attributed to a source never exceed the hits, and the
  latency reservoir holds exactly the most recent latencies, as many as fit its bound.
\<close>

theorem metrics_account:
  assumes "\<forall>name n. MInc name n \<in> set ops \<longrightarrow> name \<notin> read_counters"
  shows "accounts reservoir (reads_of ops) (foldl metrics_step (new_metrics node_id reservoir now) ops)"
  using assms
proof (induction ops rule: rev_induct)
  case Nil
  then show ?case by (simp add: reads_of_def accounts_new)
next
  case (snoc op ops)
  let ?mx = "foldl metrics_step (new_metrics node_id reservoir now) ops"
  have ih: "accounts reservoir (reads_of ops) ?mx" by (rule snoc.IH) (use snoc.prems in auto)
  show ?case
  proof (cases op)
    case (MRead hit n ns src)
    with accounts_read [OF ih] show ?thesis by (simp add: reads_of_def)
  next
    case (MWrite n ns)
    with accounts_same [OF ih, of "record_write ?mx n ns"] show ?thesis
      by (simp add: reads_of_def record_write_counts)
  next
    case (MInc name n)
    with snoc.prems have "name \<notin> read_counters" by simp
    then have "counter (inc ?mx name n) x = counter ?mx x" if "x \<in> read_counters" for x using that by auto
    from accounts_same [OF ih this] MInc show ?thesis by (simp add: reads_of_def)
  qed
qed

theorem metrics_account_witness:
  "accounts 1 [(True, 4, 7), (False, 0, 9)]
     (foldl metrics_step (new_metrics ''n'' 1 0) [MRead True 4 7 (Some ''disk''), MInc ''promotes'' 2, MRead False 0 9 None])"
proof -
  have "accounts 1 (reads_of [MRead True 4 7 (Some ''disk''), MInc ''promotes'' 2, MRead False 0 9 None])
     (foldl metrics_step (new_metrics ''n'' 1 0) [MRead True 4 7 (Some ''disk''), MInc ''promotes'' 2, MRead False 0 9 None])"
    by (rule metrics_account) (simp add: read_counters_def)
  then show ?thesis by (simp add: reads_of_def)
qed

end
