(* ===== verification/Runtime.thy ===== *)
theory Runtime
  imports Config Directory
begin

text \<open>
  The node runtime (\<^verbatim>\<open>python/peercache/server.py\<close>): it owns the rings, the discovery client and the
  directory client of a node, and keeps the rings in step with the membership.

  Name resolution, the ports the kernel assigns and whether the meta port is free are parameters.
  The listeners of a membership change belong to the stores; \<open>on_members_update\<close> says whether they are called.
\<close>

section \<open>Which hosts are this host\<close>

record resolution =
  rs_hostname :: "string result"
  rs_byname :: "string \<Rightarrow> string result"
  rs_addrinfo :: "string \<Rightarrow> string list result"

definition loopback :: "string set" where
  "loopback = {''127.0.0.1'', ''0.0.0.0'', ''::1'', ''localhost''}"

text \<open>What was added before an exception stays in the set.\<close>

definition local_ip_set :: "resolution \<Rightarrow> string \<Rightarrow> string set" where
  "local_ip_set R local_hostname =
     (let ips = insert local_hostname loopback
      in case rs_hostname R of
           Inl _ \<Rightarrow> ips
         | Inr hostname \<Rightarrow>
             (let ips = insert hostname ips
              in case rs_byname R hostname of
                   Inl _ \<Rightarrow> ips
                 | Inr ip \<Rightarrow>
                     (let ips = insert ip ips
                      in case rs_addrinfo R hostname of Inl _ \<Rightarrow> ips | Inr infos \<Rightarrow> ips \<union> set infos)))"

definition host_is_self :: "resolution \<Rightarrow> string \<Rightarrow> string \<Rightarrow> bool" where
  "host_is_self R hst local_hostname \<longleftrightarrow>
     (if hst \<in> loopback then True
      else let local = local_ip_set R local_hostname
           in if hst \<in> local then True
              else case rs_byname R hst of Inr ip \<Rightarrow> ip \<in> local | Inl _ \<Rightarrow> False)"

section \<open>The runtime\<close>

record runtime =
  rt_info :: node_info
  rt_ring :: hash_ring
  rt_data_ring :: hash_ring
  rt_disc :: disc_client
  rt_dir :: dir_client
  rt_is_meta :: bool
  rt_rpc_up :: bool
  rt_transport_up :: bool
  rt_stopped :: bool

definition NodeRuntime :: "host \<Rightarrow> config \<Rightarrow> bool \<Rightarrow> nat \<Rightarrow> string \<Rightarrow> runtime result" where
  "NodeRuntime H c meta_port_free cport local_endpoint =
     bind_result (meta_port H c) (\<lambda>mp.
     case rsplit_colon local_endpoint of
       None \<Rightarrow> Inl ValueError
     | Some (rhost, rport_text) \<Rightarrow>
     bind_result (parse_nat rport_text) (\<lambda>rport.
     bind_result (as_str (cf_node_id c)) (\<lambda>node_id.
     bind_result (as_str (cf_local_hostname c)) (\<lambda>hostname.
     bind_result (as_nat (cf_vnodes c)) (\<lambda>vnodes.
     bind_result (py_int (cf_max_masters c)) (\<lambda>max_masters.
     bind_result (py_int (cf_directory_replicas c)) (\<lambda>replicas.
     let info = \<lparr>ni_node_id = node_id, control_host = hostname, control_port = cport,
                 rdma_host = rhost, rdma_port = rport, ni_role = effective_role H c False\<rparr>
     in fmap_result (\<lambda>disc.
          \<lparr>rt_info = info, rt_ring = ring_init vnodes, rt_data_ring = ring_init vnodes, rt_disc = disc,
           rt_dir = DirectoryClient (ring_init vnodes) replicas, rt_is_meta = meta_port_free,
           rt_rpc_up = True, rt_transport_up = True, rt_stopped = False\<rparr>)
          (DiscoveryClient (py_str_of H (cf_discovery_addr c)) info (Some (nat mp)) max_masters))))))))"

definition storage_ids :: "node_info list \<Rightarrow> string list" where
  "storage_ids members = map ni_node_id (filter (\<lambda>m. ni_role m = ''storage'') members)"

text \<open>\<open>_on_members\<close>: the new runtime and whether the listeners are called.\<close>

definition on_members_update ::
  "digest \<Rightarrow> (string set \<Rightarrow> string list) \<Rightarrow> runtime \<Rightarrow> node_info list \<Rightarrow> runtime \<times> bool" where
  "on_members_update B enum rt members =
     (let all_ids = map ni_node_id members;
          changed = (set all_ids \<noteq> set (nodes (rt_ring rt)) \<or>
                     set (storage_ids members) \<noteq> set (nodes (rt_data_ring rt)));
          ring = set_nodes B enum (rt_ring rt) all_ids;
          data_ring = set_nodes B enum (rt_data_ring rt) (storage_ids members)
      in (rt\<lparr>rt_ring := ring, rt_data_ring := data_ring, rt_dir := set_ring (rt_dir rt) ring\<rparr>, changed))"

definition data_owner :: "digest \<Rightarrow> runtime \<Rightarrow> string \<Rightarrow> string option" where
  "data_owner B rt key = (if nodes (rt_data_ring rt) = [] then None else get_node B (rt_data_ring rt) key)"

definition data_owner_all :: "digest \<Rightarrow> runtime \<Rightarrow> string \<Rightarrow> string option" where
  "data_owner_all B rt key = (if nodes (rt_ring rt) = [] then None else get_node B (rt_ring rt) key)"

definition storage_nodes :: "runtime \<Rightarrow> string list" where
  "storage_nodes rt = nodes (rt_data_ring rt)"

text \<open>\<open>start\<close>: register, and take the membership that comes back.\<close>

definition runtime_start ::
  "digest \<Rightarrow> (string set \<Rightarrow> string list) \<Rightarrow> disc_env list \<Rightarrow> runtime \<Rightarrow> masters \<Rightarrow> masters \<times> (runtime \<times> bool) option" where
  "runtime_start B enum envs rt ms =
     (case disc_start envs (rt_disc rt) ms of
        (ms, None) \<Rightarrow> (ms, None)
      | (ms, Some (disc, members)) \<Rightarrow> (ms, Some (on_members_update B enum (rt\<lparr>rt_disc := disc\<rparr>) members)))"

text \<open>\<open>stop\<close>: leave the membership first, then close the endpoints; a second call does nothing.\<close>

definition runtime_stop :: "disc_env \<Rightarrow> runtime \<Rightarrow> masters \<Rightarrow> masters \<times> runtime" where
  "runtime_stop env rt ms =
     (if rt_stopped rt then (ms, rt)
      else let (ms, disc) = disc_stop env (rt_disc rt) ms
           in (ms, rt\<lparr>rt_stopped := True, rt_disc := disc, rt_rpc_up := False, rt_transport_up := False,
                      rt_is_meta := False\<rparr>))"

section \<open>Rings follow the membership\<close>

text \<open>What a runtime that only ever heard of the nodes of \<open>N\<close> looks like.\<close>

definition rt_ok :: "digest \<Rightarrow> nat \<Rightarrow> runtime \<Rightarrow> bool" where
  "rt_ok B v rt \<longleftrightarrow>
     ring_inv B (rt_ring rt) \<and> exact_ring B (rt_ring rt) \<and> hr_vnodes (rt_ring rt) = v \<and>
     ring_inv B (rt_data_ring rt) \<and> exact_ring B (rt_data_ring rt) \<and> hr_vnodes (rt_data_ring rt) = v \<and>
     dc_ring (rt_dir rt) = rt_ring rt"

definition hear :: "digest \<Rightarrow> (string set \<Rightarrow> string list) \<Rightarrow> runtime \<Rightarrow> node_info list \<Rightarrow> runtime" where
  "hear B enum rt members = fst (on_members_update B enum rt members)"

lemma set_nodes_nodes [simp]: "hr_nodes (set_nodes B enum r ids) = set ids"
  by (auto simp: set_nodes_def rebuild_def Let_def)

lemma set_nodes_vnodes [simp]: "hr_vnodes (set_nodes B enum r ids) = hr_vnodes r"
  by (simp add: set_nodes_def rebuild_def Let_def)

lemma nodes_hear:
  "hr_nodes (rt_ring (hear B enum rt members)) = ni_node_id ` set members"
  "hr_nodes (rt_data_ring (hear B enum rt members)) = set (storage_ids members)"
  by (simp_all add: hear_def on_members_update_def Let_def)

lemma storage_ids_subset: "set (storage_ids members) \<subseteq> ni_node_id ` set members"
  by (auto simp: storage_ids_def)

lemma replicas_hear [simp]: "dc_replicas (rt_dir (hear B enum rt members)) = dc_replicas (rt_dir rt)"
  by (simp add: hear_def on_members_update_def Let_def set_ring_def)

definition rt_fresh :: "nat \<Rightarrow> runtime \<Rightarrow> bool" where
  "rt_fresh v rt \<longleftrightarrow>
     rt_ring rt = ring_init v \<and> rt_data_ring rt = ring_init v \<and> dc_ring (rt_dir rt) = ring_init v"

lemma NodeRuntime_fresh:
  assumes "NodeRuntime H c free cport ep = Inr rt"
  shows "\<exists>v. as_nat (cf_vnodes c) = Inr v \<and> rt_fresh v rt"
  using assms unfolding NodeRuntime_def Let_def
  by (auto simp: bind_result_eq_Inr fmap_result_eq_Inr rt_fresh_def DirectoryClient_def split: option.splits)

lemma rt_fresh_ok: "rt_fresh v rt \<Longrightarrow> rt_ok B v rt"
  by (simp add: rt_fresh_def rt_ok_def exact_ring_def) (simp add: ring_init_def)

lemma hear_ok:
  assumes "collision_free B v N" and "ni_node_id ` set members \<subseteq> N" and "enumerates enum" and "rt_ok B v rt"
  shows "rt_ok B v (hear B enum rt members)"
proof -
  have e: "finite S \<Longrightarrow> set (enum S) = S" for S using assms(3) by (simp add: enumerates_def)
  have st: "set (storage_ids members) \<subseteq> N" using storage_ids_subset assms(2) by blast
  have "ring_inv B (set_nodes B enum (rt_ring rt) (map ni_node_id members))"
    "ring_inv B (set_nodes B enum (rt_data_ring rt) (storage_ids members))"
    using assms(4) e by (auto simp: rt_ok_def intro!: set_nodes_inv)
  moreover have "exact_ring B (set_nodes B enum (rt_ring rt) (map ni_node_id members))"
    by (rule exact_ring_set_nodes [where N = N]) (use assms e in \<open>simp_all add: rt_ok_def\<close>)
  moreover have "exact_ring B (set_nodes B enum (rt_data_ring rt) (storage_ids members))"
    by (rule exact_ring_set_nodes [where N = N]) (use assms e st in \<open>simp_all add: rt_ok_def\<close>)
  ultimately show ?thesis
    using assms(4) by (simp add: rt_ok_def hear_def on_members_update_def Let_def set_ring_def)
qed

lemma heard_ok:
  assumes "collision_free B v N" and "enumerates enum" and "rt_ok B v rt"
  shows "\<forall>members \<in> set hist. ni_node_id ` set members \<subseteq> N \<Longrightarrow> rt_ok B v (foldl (hear B enum) rt hist)"
  using assms(3)
proof (induction hist arbitrary: rt)
  case Nil
  then show ?case by simp
next
  case (Cons members hist)
  with hear_ok [OF assms(1) _ assms(2)] show ?case by simp
qed

lemma heard_replicas [simp]: "dc_replicas (rt_dir (foldl (hear B enum) rt hist)) = dc_replicas (rt_dir rt)"
  by (induction hist arbitrary: rt) simp_all

lemma same_owners:
  assumes "rt_ok B v rt" and "rt_ok B v rt'" and "hr_nodes (rt_ring rt) = hr_nodes (rt_ring rt')"
    and "dc_replicas (rt_dir rt) = dc_replicas (rt_dir rt')"
  shows "owners B (rt_dir rt) = owners B (rt_dir rt')"
proof
  fix k
  have "get_node B (rt_ring rt) key = get_node B (rt_ring rt') key \<and>
      get_nodes B (rt_ring rt) key n = get_nodes B (rt_ring rt') key n" for key n
    using assms by (intro same_routing) (simp_all add: rt_ok_def)
  then show "owners B (rt_dir rt) k = owners B (rt_dir rt') k"
    using assms by (simp add: owners_def rt_ok_def)
qed

text \<open>
  C24. What one node publishes, another finds: two nodes that went through different membership
  histories and now see the same members route every key alike, so that a location one of them puts
  into the directory is what the other's lookup returns, over whatever the shards held before, as long
  as the owners of the key answer. They also agree on the storage server of every key.
\<close>

theorem published_is_found:
  assumes free: "collision_free B v N" and "enumerates enum" and "enumerates enum'"
    and "rt_fresh v rt0" and "rt_fresh v rt0'" and "dc_replicas (rt_dir rt0) = dc_replicas (rt_dir rt0')"
    and "\<forall>ms \<in> set (hist @ hist' @ [members, members']). ni_node_id ` set ms \<subseteq> N"
    and "set members = set members'"
    and "rt = foldl (hear B enum) rt0 (hist @ [members])" and "rt' = foldl (hear B enum') rt0' (hist' @ [members'])"
    and "dir_history B ops sh" and "dict_ok entries" and "map_of entries k = Some l"
    and "all_owners_up B (rt_dir rt') resolve up k"
  shows "dir_get B (rt_dir rt') resolve up (dir_put B (rt_dir rt) resolve up sh entries) [k] = [Some l] \<and>
         data_owner B rt key = data_owner B rt' key \<and> data_owner_all B rt key = data_owner_all B rt' key"
proof -
  have ok: "rt_ok B v rt" "rt_ok B v rt'"
    using heard_ok [OF free assms(2) rt_fresh_ok [OF assms(4)], of "hist @ [members]"]
      heard_ok [OF free assms(3) rt_fresh_ok [OF assms(5)], of "hist' @ [members']"] assms(7,9,10) by simp_all
  have st: "set (storage_ids members) = set (storage_ids members')" using assms(8) by (simp add: storage_ids_def)
  have nd: "hr_nodes (rt_ring rt) = hr_nodes (rt_ring rt')" "hr_nodes (rt_data_ring rt) = hr_nodes (rt_data_ring rt')"
    using assms(8-10) st by (simp_all add: nodes_hear)
  have ow: "owners B (rt_dir rt) = owners B (rt_dir rt')"
    using same_owners [OF ok nd(1)] assms(6,9,10) by simp
  from assms(14) obtain p ns ep where p: "owners B (rt_dir rt') k = p # ns" "resolve p = Some ep" "reaches B (rt_dir rt') resolve up k ep"
    by (rule all_owners_up_first)
  have sf: "shard_from (dir_puts ops \<union> set entries) (dir_put B (rt_dir rt) resolve up sh entries)"
    by (rule dir_put_from [OF dir_history_from [OF assms(11)] assms(12)])
  have "reaches B (rt_dir rt) resolve up k ep" using p(3) ow by (simp add: reaches_def)
  then have "dir_get B (rt_dir rt') resolve up (dir_put B (rt_dir rt) resolve up sh entries) [k] = [Some l]"
    using dir_get_up [OF sf, of "[k]"] assms(12-14) p by (simp add: loc_at_put)
  moreover have "get_node B (rt_ring rt) key = get_node B (rt_ring rt') key"
    using ok nd same_routing [of B "rt_ring rt" "rt_ring rt'" key] by (simp add: rt_ok_def)
  moreover have "get_node B (rt_data_ring rt) key = get_node B (rt_data_ring rt') key"
    using ok nd same_routing [of B "rt_data_ring rt" "rt_data_ring rt'" key] by (simp add: rt_ok_def)
  moreover have "nodes (rt_ring rt) = nodes (rt_ring rt')" "nodes (rt_data_ring rt) = nodes (rt_data_ring rt')"
    using nd by (simp_all add: nodes_def)
  ultimately show ?thesis by (simp add: data_owner_def data_owner_all_def)
qed

definition toy_member :: "string \<Rightarrow> node_info" where
  "toy_member n = \<lparr>ni_node_id = n, control_host = n, control_port = 1, rdma_host = n, rdma_port = 2, ni_role = ''inference''\<rparr>"

definition toy_runtime :: "hash_ring \<Rightarrow> runtime" where
  "toy_runtime r =
     \<lparr>rt_info = toy_member ''a'', rt_ring = r, rt_data_ring = ring_init 2, rt_disc = toy_client,
      rt_dir = DirectoryClient r 2, rt_is_meta = False, rt_rpc_up = True, rt_transport_up = True, rt_stopped = False\<rparr>"

lemma toy_runtime_fresh: "rt_fresh 2 (toy_runtime (ring_init 2))"
  by (simp add: rt_fresh_def toy_runtime_def DirectoryClient_def)

lemma toy_runtime_ok: "rt_ok toy_digest 2 (toy_runtime (dc_ring toy_dir))"
proof -
  have f: "rt_ok toy_digest 2 (toy_runtime (ring_init 2))" by (rule rt_fresh_ok [OF toy_runtime_fresh])
  have v: "hr_vnodes (ring_init 2) = 2" "hr_vnodes (add_node toy_digest (ring_init 2) ''a'') = 2"
    "hr_nodes (add_node toy_digest (ring_init 2) ''a'') = {''a''}" "hr_nodes (ring_init 2) = {}"
    by (simp_all add: add_node_def ring_init_def rebuild_def)
  have i: "ring_inv toy_digest (ring_init 2)" "exact_ring toy_digest (ring_init 2)"
    using f by (simp_all add: rt_ok_def toy_runtime_def)
  have a: "exact_ring toy_digest (add_node toy_digest (ring_init 2) ''a'')"
    by (rule exact_ring_add [where N = "{''a'', ''b''}"]) (simp_all add: v toy_free i)
  have "exact_ring toy_digest (add_node toy_digest (add_node toy_digest (ring_init 2) ''a'') ''b'')"
    by (rule exact_ring_add [where N = "{''a'', ''b''}"]) (simp_all add: v toy_free a)
  then show ?thesis
    using i add_node_inv v
    by (simp add: rt_ok_def toy_runtime_def toy_dir_def DirectoryClient_def) (simp add: add_node_def rebuild_def)
qed

lemma toy_heard_owners:
  "owners toy_digest (rt_dir (foldl (hear toy_digest sorted_list_of_set) (toy_runtime (ring_init 2))
      [[toy_member ''a''], [toy_member ''b'', toy_member ''a'']])) ''key'' = [''a'', ''b'']"
proof -
  let ?rt = "foldl (hear toy_digest sorted_list_of_set) (toy_runtime (ring_init 2))
      [[toy_member ''a''], [toy_member ''b'', toy_member ''a'']]"
  have "rt_ok toy_digest 2 ?rt"
    by (rule heard_ok [OF toy_free enumerates_sorted rt_fresh_ok [OF toy_runtime_fresh]]) (simp add: toy_member_def)
  moreover have "hr_nodes (rt_ring ?rt) = hr_nodes (rt_ring (toy_runtime (dc_ring toy_dir)))"
    by (simp add: nodes_hear toy_runtime_def toy_dir_def DirectoryClient_def toy_ring_ab) (auto simp: toy_member_def)
  moreover have "dc_replicas (rt_dir ?rt) = dc_replicas (rt_dir (toy_runtime (dc_ring toy_dir)))"
    by (simp add: toy_runtime_def DirectoryClient_def)
  ultimately have "owners toy_digest (rt_dir ?rt) = owners toy_digest (rt_dir (toy_runtime (dc_ring toy_dir)))"
    by (rule same_owners [OF _ toy_runtime_ok])
  moreover have "rt_dir (toy_runtime (dc_ring toy_dir)) = toy_dir"
    by (simp add: toy_runtime_def toy_dir_def DirectoryClient_def)
  ultimately show ?thesis by (simp add: toy_owners)
qed

theorem published_is_found_witness:
  "dir_get toy_digest (rt_dir (foldl (hear toy_digest sorted_list_of_set) (toy_runtime (ring_init 2))
       ([[toy_member ''a'']] @ [[toy_member ''b'', toy_member ''a'']]))) Some (\<lambda>_. True)
     (dir_put toy_digest (rt_dir (foldl (hear toy_digest (rev \<circ> sorted_list_of_set)) (toy_runtime (ring_init 2))
       ([] @ [[toy_member ''a'', toy_member ''b'']]))) Some (\<lambda>_. True) (\<lambda>_. []) [(''key'', toy_loc)]) [''key''] = [Some toy_loc]"
proof (rule published_is_found [OF toy_free _ enumerates_sorted toy_runtime_fresh toy_runtime_fresh refl _ _ refl refl, THEN conjunct1])
  show "enumerates (rev \<circ> sorted_list_of_set)" by (simp add: enumerates_def)
  show "\<forall>ms \<in> set ([] @ [[toy_member ''a'']] @ [[toy_member ''a'', toy_member ''b''], [toy_member ''b'', toy_member ''a'']]).
      ni_node_id ` set ms \<subseteq> {''a'', ''b''}" by (simp add: toy_member_def)
  show "set [toy_member ''a'', toy_member ''b''] = set [toy_member ''b'', toy_member ''a'']" by auto
  show "dir_history toy_digest [] (\<lambda>_. [])" by (simp add: dir_history_def)
  show "all_owners_up toy_digest (rt_dir (foldl (hear toy_digest sorted_list_of_set) (toy_runtime (ring_init 2))
       ([[toy_member ''a'']] @ [[toy_member ''b'', toy_member ''a'']]))) Some (\<lambda>_. True) ''key''"
    using toy_heard_owners by (simp add: all_owners_up_def)
qed simp_all

end
