(* ===== verification/Node.thy ===== *)
theory Node
  imports Runtime Transport Metrics Disk Pool Slotmap
begin

text \<open>
  The state of a node and what its store does with its own pool, disk tier and directory entries
  (\<^verbatim>\<open>python/peercache/store.py\<close>, the methods from \<open>_resident_location\<close> to \<open>_component_keys\<close>).

  A node is its configuration and identity, its runtime, pool, disk tier, memory, caches and metrics.
  The shards of the directory are a separate component of the state, since any node may host any of
  them. The pool and the disk tier call back into the store when they evict; here the operations that
  evict return the keys and the callback is applied to them. Operations are atomic: the model does not
  interleave two of them on one node.
\<close>

section \<open>State\<close>

text \<open>A peer's slot region as a node caches it (the dictionary \<open>slot_layout\<close> returns, with its geometry).\<close>

record slot_layout =
  sl_base :: nat
  sl_rkeys :: "nat list"
  sl_endpoints :: "string list"
  sl_geom :: slot_geometry

record node =
  nd_id :: string
  nd_mode :: string
  nd_write_policy :: string
  nd_prefix :: string
  nd_client_only :: bool
  nd_endpoint :: string
  nd_rails :: "string list"
  nd_n_rails :: int
  nd_is_mla :: bool
  nd_mha_suffix :: string
  nd_mla_suffix :: string
  nd_runtime :: runtime
  nd_pool :: "pool option"
  nd_disk :: "disk_store option"
  nd_key_len :: "(string, nat) dict"
  nd_mem :: mem
  nd_regions :: regions
  nd_metrics :: metrics
  nd_cache_ttl :: int
  nd_dir_cache :: "(string, data_location \<times> int) dict"
  nd_primed_ttl :: int
  nd_primed_cap :: nat
  nd_primed :: "(string, data_location \<times> int) dict"
  nd_raw_keys :: bool
  nd_keyspace_detected :: bool
  nd_storage :: bool
  nd_slot :: "slot_region option"
  nd_slot_rkeys :: "nat list"
  nd_layouts :: "(string, slot_layout) dict"

text \<open>
  What an operation meets: the digest of the ring and of the disk tier, the control endpoints that
  answer, the clock, the time the operation takes, where \<open>ctypes\<close> puts its temporary buffers, and the
  process a data-plane endpoint leads to (its control endpoint), if it can be reached.
\<close>

record env =
  e_digest :: digest
  e_sha :: "bytes \<Rightarrow> bytes"
  e_up :: "string \<Rightarrow> bool"
  e_now :: int
  e_dt :: int
  e_buf :: nat
  e_scratch :: "nat \<Rightarrow> nat"
  e_rdma :: "string \<Rightarrow> string option"

definition nd_dir :: "node \<Rightarrow> dir_client" where
  "nd_dir nd = rt_dir (nd_runtime nd)"

definition nd_control_of :: "node \<Rightarrow> resolver" where
  "nd_control_of nd = control_of (rt_disc (nd_runtime nd))"

text \<open>\<open>self.runtime.directory\<close> of the node.\<close>

definition node_dir_put :: "env \<Rightarrow> node \<Rightarrow> shards \<Rightarrow> (string, data_location) dict \<Rightarrow> shards" where
  "node_dir_put e nd sh entries = dir_put (e_digest e) (nd_dir nd) (nd_control_of nd) (e_up e) sh entries"

definition node_dir_delete :: "env \<Rightarrow> node \<Rightarrow> shards \<Rightarrow> string list \<Rightarrow> shards" where
  "node_dir_delete e nd sh keys = dir_delete (e_digest e) (nd_dir nd) (nd_control_of nd) (e_up e) sh keys"

definition node_dir_get :: "env \<Rightarrow> node \<Rightarrow> shards \<Rightarrow> string list \<Rightarrow> data_location option list" where
  "node_dir_get e nd sh keys = dir_get (e_digest e) (nd_dir nd) (nd_control_of nd) (e_up e) sh keys"

definition node_dir_exists :: "env \<Rightarrow> node \<Rightarrow> shards \<Rightarrow> string list \<Rightarrow> bool list" where
  "node_dir_exists e nd sh keys = dir_exists (e_digest e) (nd_dir nd) (nd_control_of nd) (e_up e) sh keys"

definition nd_inc :: "node \<Rightarrow> string \<Rightarrow> int \<Rightarrow> node" where
  "nd_inc nd name n = nd\<lparr>nd_metrics := inc (nd_metrics nd) name n\<rparr>"

section \<open>Locations\<close>

definition resident_location :: "node \<Rightarrow> pool \<Rightarrow> nat \<Rightarrow> nat \<Rightarrow> data_location" where
  "resident_location nd p addr len =
     \<lparr>loc_node_id = nd_id nd, loc_rdma_endpoint = nd_endpoint nd, remote_addr = addr, loc_rkey = pl_rkey p,
      loc_length = len, resident = True, rail_endpoints = nd_rails nd, rail_rkeys = pl_rkeys p\<rparr>"

text \<open>The entry of a page that is on disk only.\<close>

definition disk_location :: "node \<Rightarrow> nat \<Rightarrow> data_location" where
  "disk_location nd len =
     \<lparr>loc_node_id = nd_id nd, loc_rdma_endpoint = nd_endpoint nd, remote_addr = 0, loc_rkey = 0,
      loc_length = len, resident = False, rail_endpoints = [], rail_rkeys = []\<rparr>"

section \<open>Eviction callbacks\<close>

definition evicted_entries :: "node \<Rightarrow> string list \<Rightarrow> (string, data_location) dict" where
  "evicted_entries nd evicted =
     fold (\<lambda>k entries. case map_of (nd_key_len nd) k of
             None \<Rightarrow> entries
           | Some len \<Rightarrow> AList.update k (disk_location nd len) entries) evicted []"

definition on_pool_evict :: "env \<Rightarrow> node \<times> shards \<Rightarrow> string list \<Rightarrow> node \<times> shards" where
  "on_pool_evict e s evicted =
     (let (nd, sh) = s;
          nd = nd_inc nd ''evictions'' (int (length evicted))
      in case nd_disk nd of
           None \<Rightarrow> (nd, node_dir_delete e nd sh evicted)
         | Some _ \<Rightarrow>
             (let entries = evicted_entries nd evicted
              in (nd, if entries \<noteq> [] then node_dir_put e nd sh entries else sh)))"

definition on_disk_evict :: "env \<Rightarrow> node \<times> shards \<Rightarrow> string list \<Rightarrow> node \<times> shards" where
  "on_disk_evict e s evicted =
     (let (nd, sh) = s;
          nd = nd_inc nd ''disk_evictions'' (int (length evicted));
          nd = nd\<lparr>nd_key_len := fold AList.delete evicted (nd_key_len nd)\<rparr>
      in (nd, node_dir_delete e nd sh evicted))"

text \<open>\<open>self._pool.publish\<close>, the callback included.\<close>

definition pool_publish :: "env \<Rightarrow> pool \<Rightarrow> node \<times> shards \<Rightarrow> string \<Rightarrow> nat \<Rightarrow> nat \<Rightarrow> (node \<times> shards) \<times> nat option" where
  "pool_publish e p s key src len =
     (let (nd, sh) = s;
          (p', m, addr, evicted) = publish p (nd_mem nd) key src len;
          s = (nd\<lparr>nd_pool := Some p', nd_mem := m\<rparr>, sh)
      in (if evicted \<noteq> [] then on_pool_evict e s evicted else s, addr))"

text \<open>One turn of the disk tier's writer thread: \<open>ok\<close> and \<open>flush\<close> are the outcomes of its file operations.\<close>

definition disk_work :: "env \<Rightarrow> bool \<Rightarrow> bool \<Rightarrow> node \<times> shards \<Rightarrow> node \<times> shards" where
  "disk_work e io io_flush s =
     (let (nd, sh) = s
      in case nd_disk nd of
           None \<Rightarrow> s
         | Some d \<Rightarrow>
             (case disk_run_one (e_sha e) io io_flush d of
                None \<Rightarrow> s
              | Some (d', evicted) \<Rightarrow>
                  (let s = (nd\<lparr>nd_disk := Some d'\<rparr>, sh)
                   in if evicted \<noteq> [] then on_disk_evict e s evicted else s)))"

section \<open>Promotion from disk\<close>

text \<open>
  One key of \<open>_ensure_resident\<close>: the state, the answer for the key and the dictionary of promoted
  keys. The page read from disk is copied into a temporary buffer first.
\<close>

definition ensure_one ::
  "env \<Rightarrow> node \<times> shards \<Rightarrow> string \<Rightarrow> (string, data_location) dict \<Rightarrow>
   (node \<times> shards) \<times> data_location option \<times> (string, data_location) dict" where
  "ensure_one e s k promoted =
     (let (nd, sh) = s
      in case nd_pool nd of
           None \<Rightarrow> (s, None, promoted)
         | Some p \<Rightarrow>
             (case address_of p k of
                (p', Some (addr, len)) \<Rightarrow>
                  ((nd\<lparr>nd_pool := Some p'\<rparr>, sh), Some (resident_location nd p' addr len), promoted)
              | (p', None) \<Rightarrow>
                  (case nd_disk nd of
                     None \<Rightarrow> (s, None, promoted)
                   | Some d \<Rightarrow>
                       (case disk_get d k of
                          (d', None) \<Rightarrow> ((nd\<lparr>nd_disk := Some d'\<rparr>, sh), None, promoted)
                        | (d', Some data) \<Rightarrow>
                            (let nd = nd\<lparr>nd_disk := Some d', nd_mem := write_bytes (nd_mem nd) (e_buf e) data\<rparr>
                             in case pool_publish e p (nd, sh) k (e_buf e) (length data) of
                                  (s, None) \<Rightarrow> (s, None, promoted)
                                | ((nd, sh), Some addr) \<Rightarrow>
                                    (let loc = resident_location nd p addr (length data);
                                         nd = nd\<lparr>nd_key_len := AList.update k (length data) (nd_key_len nd)\<rparr>;
                                         nd = nd_inc nd ''promotes'' 1
                                     in ((nd, sh), Some loc, AList.update k loc promoted)))))))"

fun ensure_loop ::
  "env \<Rightarrow> node \<times> shards \<Rightarrow> string list \<Rightarrow> (string, data_location) dict \<Rightarrow>
   (node \<times> shards) \<times> data_location option list \<times> (string, data_location) dict" where
  "ensure_loop e s [] promoted = (s, [], promoted)"
| "ensure_loop e s (k # ks) promoted =
     (let (s, loc, promoted) = ensure_one e s k promoted;
          (s, locs, promoted) = ensure_loop e s ks promoted
      in (s, loc # locs, promoted))"

definition ensure_resident ::
  "env \<Rightarrow> node \<times> shards \<Rightarrow> string list \<Rightarrow> (node \<times> shards) \<times> data_location option list" where
  "ensure_resident e s keys =
     (let ((nd, sh), locs, promoted) = ensure_loop e s keys []
      in ((nd, if promoted \<noteq> [] then node_dir_put e nd sh promoted else sh), locs))"

text \<open>The handler of \<open>data_promote\<close>.\<close>

definition location_value :: "data_location option \<Rightarrow> pyval" where
  "location_value l = (case l of None \<Rightarrow> VNone | Some l \<Rightarrow> VDict (loc_to_dict l))"

definition on_data_promote :: "env \<Rightarrow> node \<times> shards \<Rightarrow> pyval \<Rightarrow> (node \<times> shards) \<times> pyval result" where
  "on_data_promote e s args =
     (case bind_result (bind_result (item_or args ''keys'' (VList [])) as_list) (map_result as_str) of
        Inl ex \<Rightarrow> (s, Inl ex)
      | Inr keys \<Rightarrow>
          (let ((nd, sh), locs) = ensure_resident e s keys;
               misses = map fst (filter (\<lambda>(k, l). l = None) (zip keys locs))
           in ((nd, if misses \<noteq> [] then node_dir_delete e nd sh misses else sh),
               Inr (VDict [(''locations'', VList (map location_value locs))]))))"

section \<open>Re-publishing after a membership change\<close>

definition republish_entries :: "node \<Rightarrow> pool \<Rightarrow> (string, data_location) dict" where
  "republish_entries nd p =
     (let entries = fold (\<lambda>(key, addr, len). AList.update key (resident_location nd p addr len)) (snapshot p) []
      in case nd_disk nd of
           None \<Rightarrow> entries
         | Some _ \<Rightarrow>
             fold (\<lambda>(key, len). AList.update key (disk_location nd len))
               (filter (\<lambda>(k, l). \<not> has_key entries k) (nd_key_len nd)) entries)"

fun chunks_of :: "nat \<Rightarrow> 'a list \<Rightarrow> 'a list list" where
  "chunks_of n xs = (if xs = [] \<or> n = 0 then [] else take n xs # chunks_of n (drop n xs))"

declare chunks_of.simps [simp del]

definition republish_directory :: "env \<Rightarrow> node \<times> shards \<Rightarrow> node \<times> shards" where
  "republish_directory e s =
     (let (nd, sh) = s
      in case nd_pool nd of
           None \<Rightarrow> s
         | Some p \<Rightarrow>
             (let entries = republish_entries nd p
              in if entries = [] then s
                 else (nd_inc nd ''directory_republishes'' 1,
                       fold (\<lambda>chunk sh. node_dir_put e nd sh chunk) (chunks_of 512 entries) sh)))"

section \<open>Keys\<close>

definition tag_keys :: "node \<Rightarrow> string list \<Rightarrow> string list" where
  "tag_keys nd keys = (if nd_prefix nd = [] then keys else map (\<lambda>k. nd_prefix nd @ ''_'' @ k) keys)"

definition component_keys :: "node \<Rightarrow> string list \<Rightarrow> string list \<times> nat" where
  "component_keys nd keys =
     (let keys = tag_keys nd keys
      in if nd_is_mla nd then (map (\<lambda>k. k @ ''_'' @ nd_mla_suffix nd @ ''_k'') keys, 1)
         else (concat (map (\<lambda>k. [k @ ''_'' @ nd_mha_suffix nd @ ''_k'', k @ ''_'' @ nd_mha_suffix nd @ ''_v'']) keys), 2))"

text \<open>The key suffixes of \<open>__init__\<close>.\<close>

definition key_suffixes :: "nat \<Rightarrow> nat \<Rightarrow> nat \<Rightarrow> string \<times> string" where
  "key_suffixes tp_rank pp_rank pp_size =
     (if pp_size > 1 then (str_nat tp_rank @ ''_'' @ str_nat pp_rank, str_nat pp_rank) else (str_nat tp_rank, []))"

text \<open>\<open>[all(comp_results[i : i + multiplier]) for i in range(0, len(comp_results), multiplier)]\<close>.\<close>

definition page_results :: "bool list \<Rightarrow> nat \<Rightarrow> bool list" where
  "page_results comp_results multiplier = map (list_all (\<lambda>b. b)) (chunks_of multiplier comp_results)"

definition lookup_keys :: "node \<Rightarrow> string list \<Rightarrow> string list \<times> nat" where
  "lookup_keys nd keys = (if nd_raw_keys nd then (keys, 1) else component_keys nd keys)"

definition hit_prefix :: "data_location option list \<Rightarrow> nat \<Rightarrow> nat" where
  "hit_prefix locs multiplier =
     (if None \<in> set locs then length (takeWhile (\<lambda>l. l \<noteq> None) locs) div multiplier
      else length locs div multiplier)"

end
