(* ===== verification/Storage.thy ===== *)
theory Storage
  imports Node
begin

text \<open>
  The dedicated storage server (\<^verbatim>\<open>python/peercache/storage_server.py\<close>): the handlers through which
  inference nodes write pages into its pool, reserve-then-commit for pages written over the data plane
  and \<open>data_ingest\<close> for pages sent inside the call.

  The server shares its state with the store (a \<open>node\<close>), and its private methods
  \<open>_resident_location\<close>, \<open>_on_pool_evict\<close>, \<open>_on_disk_evict\<close>, \<open>_ensure_resident\<close>, \<open>_on_data_promote\<close> and
  \<open>_republish_directory\<close> are those of the store line for line, once it has its pool.
\<close>

section \<open>Construction\<close>

text \<open>The role check of \<open>__init__\<close>.\<close>

definition storage_role :: "host \<Rightarrow> config \<Rightarrow> config result" where
  "storage_role H c =
     (if cf_role c = VStr ''auto'' then Inr (c\<lparr>cf_role := VStr ''storage''\<rparr>)
      else if effective_role H c False \<noteq> ''storage'' then Inl ValueError
      else Inr c)"

text \<open>\<open>_ensure_pool\<close>: \<open>base\<close> is the address of the allocated buffer, \<open>mr\<close> its registration.\<close>

definition ss_ensure_pool :: "int \<Rightarrow> nat \<Rightarrow> mr \<Rightarrow> string list \<Rightarrow> node \<Rightarrow> node" where
  "ss_ensure_pool global_segment_size base m endpoints nd =
     (case nd_pool nd of
        Some _ \<Rightarrow> nd
      | None \<Rightarrow>
          (let cap = nat (max 1 global_segment_size)
           in nd\<lparr>nd_pool := Some (pool_init base cap (mr_rkey m) (mr_rkeys m)),
                 nd_regions := nd_regions nd @ [(base, cap)], nd_rails := endpoints\<rparr>))"

definition ss_resident_location :: "node \<Rightarrow> pool \<Rightarrow> nat \<Rightarrow> nat \<Rightarrow> data_location" where
  "ss_resident_location = resident_location"

definition ss_on_pool_evict :: "env \<Rightarrow> node \<times> shards \<Rightarrow> string list \<Rightarrow> node \<times> shards" where
  "ss_on_pool_evict = on_pool_evict"

definition ss_on_disk_evict :: "env \<Rightarrow> node \<times> shards \<Rightarrow> string list \<Rightarrow> node \<times> shards" where
  "ss_on_disk_evict = on_disk_evict"

definition ss_ensure_resident :: "env \<Rightarrow> node \<times> shards \<Rightarrow> string list \<Rightarrow> (node \<times> shards) \<times> data_location option list" where
  "ss_ensure_resident = ensure_resident"

definition ss_on_data_promote :: "env \<Rightarrow> node \<times> shards \<Rightarrow> pyval \<Rightarrow> (node \<times> shards) \<times> pyval result" where
  "ss_on_data_promote = on_data_promote"

definition ss_republish_directory :: "env \<Rightarrow> node \<times> shards \<Rightarrow> node \<times> shards" where
  "ss_republish_directory = republish_directory"

definition ss_on_membership_change :: "env \<Rightarrow> node \<times> shards \<Rightarrow> node \<times> shards" where
  "ss_on_membership_change e s = ss_republish_directory e s"

section \<open>Reserving slots\<close>

text \<open>\<open>p.get("key")\<close> of a page of the request, \<open>None\<close> where it is missing or empty.\<close>

definition page_key :: "pyval \<Rightarrow> string option result" where
  "page_key p =
     bind_result (case p of VDict d \<Rightarrow> Inr (field_or d ''key'' VNone) | _ \<Rightarrow> Inl AttributeError) (\<lambda>v.
       if truthy v then fmap_result Some (as_str v) else Inr None)"

text \<open>\<open>int(p.get("length") or 0)\<close>.\<close>

definition page_length :: "pyval \<Rightarrow> int result" where
  "page_length p =
     bind_result (case p of VDict d \<Rightarrow> Inr (field_or d ''length'' VNone) | _ \<Rightarrow> Inl AttributeError) (\<lambda>v.
       if truthy v then as_int v else Inr 0)"

definition request_pages :: "pyval \<Rightarrow> pyval list result" where
  "request_pages args = bind_result (as_dict args) (\<lambda>d. list_field d ''pages'')"

definition request_keys :: "pyval list \<Rightarrow> string list result" where
  "request_keys ps =
     fmap_result (\<lambda>ks. map the (filter (\<lambda>k. k \<noteq> None) ks)) (map_result page_key ps)"

text \<open>\<open>dict(zip(keys, directory.exists(keys)))\<close>.\<close>

definition exist_map :: "env \<Rightarrow> node \<times> shards \<Rightarrow> string list \<Rightarrow> (string, bool) dict" where
  "exist_map e s keys =
     (let (nd, sh) = s
      in dict_update [] (zip keys (if keys = [] then [] else node_dir_exists e nd sh keys)))"

definition slot_dict :: "node \<Rightarrow> pool \<Rightarrow> string \<Rightarrow> nat \<Rightarrow> nat \<Rightarrow> pyval" where
  "slot_dict nd p key addr len =
     VDict [(''key'', VStr key), (''node_id'', VStr (nd_id nd)), (''rdma_endpoint'', VStr (nd_endpoint nd)),
            (''remote_addr'', VInt (int addr)), (''rkey'', VInt (int (pl_rkey p))),
            (''rail_endpoints'', VList (map VStr (nd_rails nd))),
            (''rail_rkeys'', VList (map (\<lambda>k. VInt (int k)) (pl_rkeys p))), (''length'', VInt (int len))]"

text \<open>\<open>self._pool.reserve\<close>, the callback included.\<close>

definition pool_reserve :: "env \<Rightarrow> pool \<Rightarrow> node \<times> shards \<Rightarrow> string \<Rightarrow> nat \<Rightarrow> (node \<times> shards) \<times> nat option" where
  "pool_reserve e p s key len =
     (let (nd, sh) = s;
          (p', addr, evicted) = reserve p key len;
          s = (nd\<lparr>nd_pool := Some p'\<rparr>, sh)
      in (if evicted \<noteq> [] then ss_on_pool_evict e s evicted else s, addr))"

text \<open>One page of the request.\<close>

definition prepare_one ::
  "env \<Rightarrow> (string, bool) dict \<Rightarrow> pool \<Rightarrow> node \<times> shards \<Rightarrow> string option \<Rightarrow> int \<Rightarrow> (node \<times> shards) \<times> pyval" where
  "prepare_one e exs p s key len =
     (case key of
        None \<Rightarrow> (s, VNone)
      | Some key \<Rightarrow>
          if len \<le> 0 then (s, VNone)
          else
            let (p1, al) = (if map_of exs key = Some True then address_of p key else (p, None));
                s = ((fst s)\<lparr>nd_pool := Some p1\<rparr>, snd s)
            in case al of
                 Some (addr, ln) \<Rightarrow> (s, slot_dict (fst s) p1 key addr ln)
               | None \<Rightarrow>
                   (case pool_reserve e p1 s key (nat len) of
                      (s, None) \<Rightarrow> (s, VNone)
                    | (s, Some addr) \<Rightarrow> (s, slot_dict (fst s) p1 key addr (nat len))))"

fun prepare_loop ::
  "env \<Rightarrow> (string, bool) dict \<Rightarrow> node \<times> shards \<Rightarrow> pyval list \<Rightarrow> (node \<times> shards) \<times> pyval list result" where
  "prepare_loop e exs s [] = (s, Inr [])"
| "prepare_loop e exs s (p # ps) =
     (case nd_pool (fst s) of
        None \<Rightarrow> (s, Inl AttributeError)
      | Some pl \<Rightarrow>
          (case bind_result (page_key p) (\<lambda>k. fmap_result (Pair k) (page_length p)) of
             Inl ex \<Rightarrow> (s, Inl ex)
           | Inr (key, len) \<Rightarrow>
               (let (s, slot) = prepare_one e exs pl s key len;
                    (s, r) = prepare_loop e exs s ps
                in (s, fmap_result ((#) slot) r))))"

definition on_data_prepare_writes :: "env \<Rightarrow> node \<times> shards \<Rightarrow> pyval \<Rightarrow> (node \<times> shards) \<times> pyval result" where
  "on_data_prepare_writes e s args =
     (case bind_result (request_pages args) (\<lambda>pages. fmap_result (Pair pages) (request_keys pages)) of
        Inl ex \<Rightarrow> (s, Inl ex)
      | Inr (ps, keys) \<Rightarrow>
          (let (s, r) = prepare_loop e (exist_map e s keys) s ps
           in (s, fmap_result (\<lambda>slots. VDict [(''slots'', VList slots)]) r)))"

section \<open>Committing written pages\<close>

text \<open>Write-through to the disk tier.\<close>

definition write_through :: "node \<Rightarrow> string \<Rightarrow> bytes \<Rightarrow> node" where
  "write_through nd key data =
     (case nd_disk nd of
        None \<Rightarrow> nd
      | Some d \<Rightarrow>
          nd_inc (nd_inc (nd\<lparr>nd_disk := Some (disk_put d key data)\<rparr>) ''disk_writes'' 1)
            ''disk_bytes_written'' (int (length data)))"

definition commit_one ::
  "node \<Rightarrow> pool \<Rightarrow> string \<Rightarrow> (string, data_location) dict \<Rightarrow> node \<times> bool \<times> (string, data_location) dict" where
  "commit_one nd p key entries =
     (case address_of p key of
        (p', None) \<Rightarrow> (nd, False, entries)
      | (p', Some (addr, len)) \<Rightarrow>
          (let nd = nd\<lparr>nd_pool := Some p', nd_key_len := AList.update key len (nd_key_len nd)\<rparr>;
               entries = AList.update key (ss_resident_location nd p' addr len) entries
           in (write_through nd key (string_at (nd_mem nd) addr len), True, entries)))"

fun commit_loop ::
  "node \<Rightarrow> string list \<Rightarrow> (string, data_location) dict \<Rightarrow> (node \<times> bool list \<times> (string, data_location) dict) result" where
  "commit_loop nd [] entries = Inr (nd, [], entries)"
| "commit_loop nd (key # keys) entries =
     (case nd_pool nd of
        None \<Rightarrow> Inl AttributeError
      | Some p \<Rightarrow>
          (let (nd, ok, entries) = commit_one nd p key entries
           in fmap_result (\<lambda>(nd, oks, entries). (nd, ok # oks, entries)) (commit_loop nd keys entries)))"

definition on_data_commit_writes :: "env \<Rightarrow> node \<times> shards \<Rightarrow> pyval \<Rightarrow> (node \<times> shards) \<times> pyval result" where
  "on_data_commit_writes e s args =
     (let (nd, sh) = s
      in case bind_result (bind_result (as_dict args) (\<lambda>d. list_field d ''keys'')) (map_result as_str) of
           Inl ex \<Rightarrow> (s, Inl ex)
         | Inr keys \<Rightarrow>
             (case commit_loop nd keys [] of
                Inl ex \<Rightarrow> (s, Inl ex)
              | Inr (nd, oks, entries) \<Rightarrow>
                  (let (nd, sh) =
                         (if entries = [] then (nd, sh)
                          else (nd\<lparr>nd_metrics := record_write (nd_metrics nd)
                                     (sum_list (map (\<lambda>(k, l). int (loc_length l)) entries)) 0\<rparr>,
                                node_dir_put e nd sh entries))
                   in ((nd, sh), Inr (VDict [(''ok'', VList (map VBool oks))])))))"

section \<open>Pages sent inside the call\<close>

fun byte_of :: "pyval \<Rightarrow> byte result" where
  "byte_of (VInt i) = (if 0 \<le> i \<and> i < 256 then Inr (word_of_int i) else Inl ValueError)"
| "byte_of (VBool b) = Inr (if b then 1 else 0)"
| "byte_of _ = Inl TypeError"

text \<open>The bytes of \<open>p.get("data")\<close>; \<open>None\<close> where the page is refused.\<close>

fun page_data :: "pyval \<Rightarrow> bytes option result" where
  "page_data (VBytes b) = Inr (Some b)"
| "page_data (VList l) = fmap_result Some (map_result byte_of l)"
| "page_data _ = Inr None"

definition ingest_one ::
  "env \<Rightarrow> (string, bool) dict \<Rightarrow> pool \<Rightarrow> node \<times> shards \<Rightarrow> string option \<Rightarrow> pyval \<Rightarrow>
   (string, data_location) dict \<Rightarrow> nat \<Rightarrow> ((node \<times> shards) \<times> bool \<times> (string, data_location) dict \<times> nat) result" where
  "ingest_one e exs p s key v entries published =
     (case key of
        None \<Rightarrow> Inr (s, False, entries, published)
      | Some key \<Rightarrow>
          if v = VNone then Inr (s, False, entries, published)
          else if map_of exs key = Some True then Inr (s, True, entries, published)
          else bind_result (page_data v) (\<lambda>dat. case dat of
                 None \<Rightarrow> Inr (s, False, entries, published)
               | Some data \<Rightarrow>
                   (let (nd, sh) = s;
                        nd = nd\<lparr>nd_mem := write_bytes (nd_mem nd) (e_buf e) data\<rparr>
                    in case pool_publish e p (nd, sh) key (e_buf e) (length data) of
                         (s, None) \<Rightarrow> Inr (s, False, entries, published)
                       | ((nd, sh), Some addr) \<Rightarrow>
                           (let nd = write_through nd key data;
                                nd = nd\<lparr>nd_key_len := AList.update key (length data) (nd_key_len nd)\<rparr>;
                                entries = AList.update key (ss_resident_location nd p addr (length data)) entries
                            in Inr ((nd, sh), True, entries, published + length data)))))"

fun ingest_loop ::
  "env \<Rightarrow> (string, bool) dict \<Rightarrow> node \<times> shards \<Rightarrow> pyval list \<Rightarrow> (string, data_location) dict \<Rightarrow> nat \<Rightarrow>
   (node \<times> shards) \<times> (bool list \<times> (string, data_location) dict \<times> nat) result" where
  "ingest_loop e exs s [] entries published = (s, Inr ([], entries, published))"
| "ingest_loop e exs s (p # ps) entries published =
     (case nd_pool (fst s) of
        None \<Rightarrow> (s, Inl AttributeError)
      | Some pl \<Rightarrow>
          (case bind_result (page_key p) (\<lambda>key. bind_result (item_or p ''data'' VNone) (\<lambda>v.
                  ingest_one e exs pl s key v entries published)) of
             Inl ex \<Rightarrow> (s, Inl ex)
           | Inr (s, ok, entries, published) \<Rightarrow>
               (let (s, r) = ingest_loop e exs s ps entries published
                in (s, fmap_result (\<lambda>(oks, entries, n). (ok # oks, entries, n)) r))))"

text \<open>
  The reconciliation after a batch: a page published earlier in the batch may have been evicted by a
  later one.
\<close>

definition reconcile_one :: "string \<Rightarrow> node \<times> (string, data_location) dict \<Rightarrow> node \<times> (string, data_location) dict" where
  "reconcile_one key s =
     (let (nd, entries) = s
      in case (nd_pool nd, map_of entries key) of
           (Some p, Some l) \<Rightarrow>
             (case address_of p key of
                (p', None) \<Rightarrow>
                  (nd, AList.update key
                         (disk_location nd (case map_of (nd_key_len nd) key of Some n \<Rightarrow> n | None \<Rightarrow> loc_length l)) entries)
              | (p', Some (addr, len)) \<Rightarrow>
                  (nd\<lparr>nd_pool := Some p'\<rparr>, AList.update key (l\<lparr>remote_addr := addr\<rparr>) entries))
         | _ \<Rightarrow> s)"

definition reconcile :: "node \<times> (string, data_location) dict \<Rightarrow> node \<times> (string, data_location) dict" where
  "reconcile s = fold reconcile_one (map fst (snd s)) s"

definition on_data_ingest :: "env \<Rightarrow> node \<times> shards \<Rightarrow> pyval \<Rightarrow> (node \<times> shards) \<times> pyval result" where
  "on_data_ingest e s args =
     (case bind_result (request_pages args) (\<lambda>pages. fmap_result (Pair pages) (request_keys pages)) of
        Inl ex \<Rightarrow> (s, Inl ex)
      | Inr (ps, keys) \<Rightarrow>
          (case ingest_loop e (exist_map e s keys) s ps [] 0 of
             (s, Inl ex) \<Rightarrow> (s, Inl ex)
           | ((nd, sh), Inr (oks, entries, published)) \<Rightarrow>
               (let (nd, entries) = reconcile (nd, entries);
                    sh = (if entries \<noteq> [] then node_dir_put e nd sh entries else sh);
                    nd = nd\<lparr>nd_metrics := record_write (nd_metrics nd) (int published) (e_dt e)\<rparr>
                in ((nd, sh), Inr (VDict [(''ok'', VList (map VBool oks))])))))"

definition ss_handlers :: "env \<Rightarrow> (node \<times> shards) handlers" where
  "ss_handlers e =
     [(''data_prepare_writes'', on_data_prepare_writes e), (''data_commit_writes'', on_data_commit_writes e),
      (''data_ingest'', on_data_ingest e), (''data_promote'', ss_on_data_promote e)]"

text \<open>\<open>stop\<close>; \<open>n\<close> bounds the turns the disk writer still gets.\<close>

definition ss_stop :: "env \<Rightarrow> disc_env \<Rightarrow> bool \<Rightarrow> nat \<Rightarrow> node \<Rightarrow> masters \<Rightarrow> masters \<times> node" where
  "ss_stop e de io n nd ms =
     (if rt_stopped (nd_runtime nd) then (ms, nd)
      else let nd = nd\<lparr>nd_disk := map_option (disk_close (e_sha e) io n) (nd_disk nd)\<rparr>;
               (ms, rt) = runtime_stop de (nd_runtime nd) ms
           in (ms, nd\<lparr>nd_runtime := rt\<rparr>))"

end
