(* ===== verification/SlotClient.thy ===== *)
theory SlotClient
  imports Storage
begin

text \<open>
  A node among its peers, and the directory-free mode of the store (\<open>mode=slotmap\<close>,
  \<^verbatim>\<open>python/peercache/store.py\<close>, from \<open>_ensure_slot_region\<close> to \<open>_exists_slotmap\<close>).

  \<open>store_state\<close> is the acting node, the shards of the directory and the other processes by the control
  endpoint they listen on. A call to one of them runs its handler, or fails when it does not answer.
  The data plane reads and writes the registered memory of the process an endpoint leads to; that the
  TCP transport implements this is shown in \<open>Transport\<close>.
\<close>

section \<open>A node and its peers\<close>

record store_state =
  st_me :: node
  st_shards :: shards
  st_peers :: "string \<Rightarrow> node option"

text \<open>The remote process behind a data-plane endpoint.\<close>

definition peer_at :: "env \<Rightarrow> store_state \<Rightarrow> string \<Rightarrow> node option" where
  "peer_at e st ep = (case e_rdma e ep of None \<Rightarrow> None | Some c \<Rightarrow> st_peers st c)"

definition remote_read :: "env \<Rightarrow> store_state \<Rightarrow> read_op \<Rightarrow> mem \<Rightarrow> mem \<times> bool" where
  "remote_read e st op m =
     (case peer_at e st (ro_endpoint op) of
        None \<Rightarrow> (m, False)
      | Some nd \<Rightarrow>
          if covered (nd_regions nd) (ro_remote op) (ro_length op)
          then (copy_in (nd_mem nd) op m, True) else (m, False))"

fun remote_reads :: "env \<Rightarrow> store_state \<Rightarrow> mem \<Rightarrow> read_op list \<Rightarrow> mem \<times> bool list" where
  "remote_reads e st m [] = (m, [])"
| "remote_reads e st m (op # ops) =
     (let (m, ok) = remote_read e st op m; (m, oks) = remote_reads e st m ops in (m, ok # oks))"

definition ops_apart :: "read_op list \<Rightarrow> bool" where
  "ops_apart ops \<longleftrightarrow> sorted_wrt (\<lambda>a b. disjoint_range (ro_local a) (ro_length a) (ro_local b) (ro_length b)) ops"

text \<open>
  The contract of one-sided reads: a read that succeeds leaves what \<open>source\<close> says at its destination
  and nowhere else, one that fails changes nothing. A batch with disjoint destinations then delivers
  each of its reads, and touches no other memory.
\<close>

locale one_sided_reads =
  fixes source :: "read_op \<Rightarrow> bytes option"
    and read :: "read_op \<Rightarrow> mem \<Rightarrow> mem \<times> bool"
    and reads :: "mem \<Rightarrow> read_op list \<Rightarrow> mem \<times> bool list"
  assumes read_hit: "read op m = (m', True) \<Longrightarrow>
      \<exists>bs. source op = Some bs \<and> length bs = ro_length op \<and> m' = write_bytes m (ro_local op) bs"
    and read_miss: "read op m = (m', False) \<Longrightarrow> m' = m"
    and reads_Nil: "reads m [] = (m, [])"
    and reads_Cons: "reads m (op # ops) = (let (m, ok) = read op m; (m, oks) = reads m ops in (m, ok # oks))"
begin

lemma read_frame: "read op m = (m', ok) \<Longrightarrow> disjoint_range (ro_local op) (ro_length op) a n \<Longrightarrow> string_at m' a n = string_at m a n"
  using read_hit [of op m m'] read_miss [of op m m'] by (cases ok) (auto simp: string_at_write_disjoint)

lemma reads_frame:
  assumes "reads m ops = (m', oks)" and "\<forall>op \<in> set ops. disjoint_range (ro_local op) (ro_length op) a n"
  shows "string_at m' a n = string_at m a n"
  using assms
proof (induction ops arbitrary: m oks)
  case (Cons op ops)
  obtain m1 ok where one: "read op m = (m1, ok)" by fastforce
  have "string_at m1 a n = string_at m a n" using read_frame [OF one] Cons.prems(2) by simp
  with Cons.IH [of m1] Cons.prems one show ?case by (auto simp: reads_Cons split: prod.splits)
qed (simp add: reads_Nil)

lemma reads_deliver:
  assumes "reads m ops = (m', oks)" and "ops_apart ops"
  shows "length oks = length ops \<and> (\<forall>j < length ops. oks ! j \<longrightarrow>
    source (ops ! j) = Some (string_at m' (ro_local (ops ! j)) (ro_length (ops ! j))))"
  using assms
proof (induction ops arbitrary: m oks)
  case (Cons op ops)
  obtain m1 ok where one: "read op m = (m1, ok)" by fastforce
  obtain oks' where rest: "reads m1 ops = (m', oks')" and oks: "oks = ok # oks'"
    using Cons.prems(1) one by (auto simp: reads_Cons split: prod.splits)
  have apart: "ops_apart ops" "\<forall>b \<in> set ops. disjoint_range (ro_local b) (ro_length b) (ro_local op) (ro_length op)"
    using Cons.prems(2) by (auto simp: ops_apart_def intro: disjoint_range_sym)
  have "source op = Some (string_at m' (ro_local op) (ro_length op))" if hit: ok
  proof -
    obtain bs where bs: "source op = Some bs" "length bs = ro_length op" "m1 = write_bytes m (ro_local op) bs"
      using read_hit [of op m m1] one hit by auto
    have "string_at m1 (ro_local op) (ro_length op) = bs" using string_at_write_same [of m "ro_local op" bs] by (simp add: bs)
    with bs(1) reads_frame [OF rest apart(2)] show ?thesis by simp
  qed
  with Cons.IH [OF rest apart(1)] show ?case by (auto simp: oks nth_Cons split: nat.splits)
qed (simp add: reads_Nil)

end

text \<open>The reads of a node keep it; what they fetch is the memory of the peer.\<close>

interpretation peer_reads: one_sided_reads
  "\<lambda>op. map_option (\<lambda>nd. string_at (nd_mem nd) (ro_remote op) (ro_length op)) (peer_at e st (ro_endpoint op))"
  "remote_read e st" "remote_reads e st" for e st
  by unfold_locales (auto simp: remote_read_def copy_in_def split: option.splits if_splits)

definition st_batch_read ::
  "env \<Rightarrow> store_state \<Rightarrow> string list \<Rightarrow> nat list \<Rightarrow> nat list \<Rightarrow> nat list \<Rightarrow> (string, string list) dict \<Rightarrow>
   (string, nat list) dict \<Rightarrow> (store_state \<times> bool list) result" where
  "st_batch_read e st nds la ra lens eps rks =
     fmap_result (\<lambda>(m, oks). (st\<lparr>st_me := (st_me st)\<lparr>nd_mem := m\<rparr>\<rparr>, oks))
       (batch_read_multi (batch_read_v (remote_reads e st (nd_mem (st_me st)))) (nd_n_rails (st_me st))
          nds la ra lens eps rks)"

definition remote_write :: "env \<Rightarrow> store_state \<Rightarrow> string \<Rightarrow> nat \<Rightarrow> nat \<Rightarrow> nat \<Rightarrow> store_state \<times> bool" where
  "remote_write e st ep la ra len =
     (case (e_rdma e ep, peer_at e st ep) of
        (Some c, Some nd) \<Rightarrow>
          if covered (nd_regions nd) ra len
          then (st\<lparr>st_peers := (st_peers st)
                   (c \<mapsto> nd\<lparr>nd_mem := write_bytes (nd_mem nd) ra (string_at (nd_mem (st_me st)) la len)\<rparr>)\<rparr>, True)
          else (st, False)
      | _ \<Rightarrow> (st, False))"

fun remote_writes ::
  "env \<Rightarrow> store_state \<Rightarrow> (string \<times> nat \<times> nat \<times> nat) list \<Rightarrow> store_state \<times> bool list" where
  "remote_writes e st [] = (st, [])"
| "remote_writes e st ((ep, la, ra, len) # ws) =
     (let (st, ok) = remote_write e st ep la ra len; (st, oks) = remote_writes e st ws in (st, ok # oks))"

definition st_batch_write ::
  "env \<Rightarrow> store_state \<Rightarrow> string list \<Rightarrow> nat list \<Rightarrow> nat list \<Rightarrow> nat list \<Rightarrow> (string, string list) dict \<Rightarrow>
   (string, nat list) dict \<Rightarrow> store_state \<times> bool list" where
  "st_batch_write e st nds la ra lens eps rks =
     batch_write_multi (\<lambda>nds la ra rks lens. remote_writes e st (zip nds (zip la (zip ra lens))))
       (nd_n_rails (st_me st)) nds la ra lens eps rks"

section \<open>The slot region of this node\<close>

text \<open>\<open>_ensure_slot_region\<close>; \<open>base\<close> and \<open>m\<close> are the allocated buffer and its registration.\<close>

definition slot_geom_of :: "nat \<Rightarrow> nat \<Rightarrow> int \<Rightarrow> nat \<Rightarrow> nat \<Rightarrow> slot_geometry" where
  "slot_geom_of max_page_bytes slot_ways slot_num_buckets global_segment_size tp_size =
     (let ws = max 1 slot_ways;
          stride = slot_stride (SlotGeometry max_page_bytes 1 ws);
          nb = (if slot_num_buckets \<le> 0
                then max 1 (max 1 (global_segment_size div tp_size) div (stride * ws))
                else nat slot_num_buckets)
      in SlotGeometry max_page_bytes nb ws)"

definition ensure_slot_region :: "slot_geometry \<Rightarrow> nat \<Rightarrow> mr \<Rightarrow> string list \<Rightarrow> node \<Rightarrow> node" where
  "ensure_slot_region geom base m endpoints nd =
     (case nd_slot nd of
        Some _ \<Rightarrow> nd
      | None \<Rightarrow>
          nd\<lparr>nd_slot := Some (SlotRegion base geom), nd_slot_rkeys := mr_rkeys m,
             nd_regions := nd_regions nd @ [(base, capacity geom)], nd_rails := endpoints\<rparr>)"

text \<open>\<open>_ensure_published_pool\<close>, likewise.\<close>

definition ensure_published_pool :: "nat \<Rightarrow> nat \<Rightarrow> nat \<Rightarrow> mr \<Rightarrow> string list \<Rightarrow> slot_geometry \<Rightarrow> node \<Rightarrow> node" where
  "ensure_published_pool global_segment_size tp_size base m endpoints geom nd =
     (if nd_client_only nd then nd
      else if nd_mode nd = ''slotmap'' then ensure_slot_region geom base m endpoints nd
      else case nd_pool nd of
             Some _ \<Rightarrow> nd
           | None \<Rightarrow>
               (let cap = max 1 (global_segment_size div tp_size)
                in nd\<lparr>nd_pool := Some (pool_init base cap (mr_rkey m) (mr_rkeys m)),
                      nd_regions := nd_regions nd @ [(base, cap)], nd_rails := endpoints\<rparr>))"

text \<open>The reply to \<open>slot_layout\<close>; \<open>None\<close> stands for \<open>ok = False\<close>.\<close>

definition on_slot_layout :: "node \<Rightarrow> slot_layout option" where
  "on_slot_layout nd =
     map_option (\<lambda>rg. \<lparr>sl_base = sr_base rg, sl_rkeys = nd_slot_rkeys nd, sl_endpoints = nd_rails nd,
                        sl_geom = SlotGeometry (max_payload (sr_geom rg)) (num_buckets (sr_geom rg)) (ways (sr_geom rg))\<rparr>)
       (nd_slot nd)"

definition cache_layout :: "store_state \<Rightarrow> string \<Rightarrow> slot_layout \<Rightarrow> store_state" where
  "cache_layout st node_id lay =
     st\<lparr>st_me := (st_me st)\<lparr>nd_layouts := AList.update node_id lay (nd_layouts (st_me st))\<rparr>\<rparr>"

definition peer_layout :: "env \<Rightarrow> store_state \<Rightarrow> string \<Rightarrow> store_state \<times> slot_layout option" where
  "peer_layout e st node_id =
     (case map_of (nd_layouts (st_me st)) node_id of
        Some lay \<Rightarrow> (st, Some lay)
      | None \<Rightarrow>
          (if node_id = nd_id (st_me st) \<and> nd_slot (st_me st) \<noteq> None
           then case on_slot_layout (st_me st) of
                  None \<Rightarrow> (st, None)
                | Some lay \<Rightarrow> (cache_layout st node_id lay, Some lay)
           else case nd_control_of (st_me st) node_id of
                  None \<Rightarrow> (st, None)
                | Some ep \<Rightarrow>
                    (if \<not> e_up e ep then (st, None)
                     else case st_peers st ep of
                            None \<Rightarrow> (st, None)
                          | Some nd \<Rightarrow>
                              (case on_slot_layout nd of
                                 None \<Rightarrow> (st, None)
                               | Some lay \<Rightarrow> (cache_layout st node_id lay, Some lay)))))"

definition invalidate_peer_layouts :: "node \<Rightarrow> node" where
  "invalidate_peer_layouts nd = nd\<lparr>nd_layouts := []\<rparr>"

text \<open>\<open>geom.bucket_index(key)\<close> of a geometry with at least one bucket, as every region has.\<close>

definition bucket_no :: "env \<Rightarrow> slot_geometry \<Rightarrow> string \<Rightarrow> nat" where
  "bucket_no e g key = bucket_hash (e_digest e) key mod num_buckets g"

section \<open>Writing\<close>

text \<open>A key for a remote owner: index, key, source address, length, owner and its layout.\<close>

type_synonym remote_page = "nat \<times> string \<times> nat \<times> nat \<times> string \<times> slot_layout"

text \<open>One key of the loop of \<open>_publish_slotmap\<close>; the results of the batch are indexed.\<close>

definition slot_publish_one ::
  "env \<Rightarrow> nat \<times> string \<times> nat \<times> nat \<Rightarrow> store_state \<times> bool list \<times> nat \<times> remote_page list \<Rightarrow>
   (store_state \<times> bool list \<times> nat \<times> remote_page list) result" where
  "slot_publish_one e page acc =
     (let (i, key, ptr, len) = page; (st, results, published, remote) = acc
      in case data_owner_all (e_digest e) (nd_runtime (st_me st)) key of
           None \<Rightarrow> Inr acc
         | Some owner \<Rightarrow>
             if owner = nd_id (st_me st)
             then case nd_slot (st_me st) of
                    None \<Rightarrow> Inr acc
                  | Some rg \<Rightarrow>
                      fmap_result (\<lambda>(rg, m, off).
                        let st = st\<lparr>st_me := (st_me st)\<lparr>nd_slot := Some rg, nd_mem := m\<rparr>\<rparr>
                        in if off = None then (st, results, published, remote)
                           else (st, results[i := True], published + len, remote))
                        (write_local (e_digest e) rg (nd_mem (st_me st)) key ptr len)
             else case peer_layout e st owner of
                    (st, None) \<Rightarrow> Inr (st, results, published, remote)
                  | (st, Some lay) \<Rightarrow>
                      Inr (st, results, published,
                           if len > max_payload (sl_geom lay) then remote else remote @ [(i, key, ptr, len, owner, lay)]))"

fun fold_result :: "('a \<Rightarrow> 's \<Rightarrow> 's result) \<Rightarrow> 'a list \<Rightarrow> 's \<Rightarrow> 's result" where
  "fold_result f [] s = Inr s"
| "fold_result f (x # xs) s = bind_result (f x s) (fold_result f xs)"

text \<open>The rail maps of a batch: the first layout seen for a node counts.\<close>

definition rail_maps ::
  "slot_layout list \<Rightarrow> (string, string list) dict \<times> (string, nat list) dict" where
  "rail_maps lays =
     fold (\<lambda>lay (eps, rks).
             let nk = hd (sl_endpoints lay)
             in if has_key eps nk then (eps, rks)
                else (AList.update nk (sl_endpoints lay) eps, AList.update nk (sl_rkeys lay) rks)) lays ([], [])"

text \<open>The layouts used here name at least one rail; \<open>lay["rail_endpoints"][0]\<close> is their first.\<close>

definition bucket_addr :: "env \<Rightarrow> slot_layout \<Rightarrow> string \<Rightarrow> nat" where
  "bucket_addr e lay key = sl_base lay + bucket_no e (sl_geom lay) key * bucket_stride (sl_geom lay)"

text \<open>
  One batched read of the bucket of each key into its own scratch buffer. The even scratch buffers of
  an operation receive buckets, the odd ones hold the slots to be written.
\<close>

definition read_buckets :: "env \<Rightarrow> store_state \<Rightarrow> (string \<times> slot_layout) list \<Rightarrow> store_state \<times> bool list" where
  "read_buckets e st kls =
     (let (eps, rks) = rail_maps (map snd kls)
      in case st_batch_read e st (map (\<lambda>(k, lay). hd (sl_endpoints lay)) kls)
                (map (\<lambda>j. e_scratch e (2 * j)) [0..<length kls]) (map (\<lambda>(k, lay). bucket_addr e lay k) kls)
                (map (\<lambda>(k, lay). bucket_stride (sl_geom lay)) kls) eps rks of
           Inl _ \<Rightarrow> (st, replicate (length kls) False)
         | Inr r \<Rightarrow> r)"

text \<open>
  Phase B for one key: fold in the ways this batch has claimed in the same bucket, pick a way, and
  build the slot's bytes in a scratch buffer.
\<close>

type_synonym claims = "(string \<times> nat, (nat, bytes) dict) dict"

definition splice :: "bytes \<Rightarrow> nat \<Rightarrow> bytes \<Rightarrow> bytes" where
  "splice snap off hdr = take off snap @ hdr @ drop (off + HEADER_SIZE) snap"

definition pack_slot :: "env \<Rightarrow> mem \<Rightarrow> nat \<Rightarrow> string \<Rightarrow> nat \<Rightarrow> nat \<Rightarrow> nat \<Rightarrow> mem result" where
  "pack_slot e m buf key src_ptr len seq =
     fmap_result (\<lambda>hdr. memmove (write_bytes m buf hdr) (buf + HEADER_SIZE) src_ptr len)
       (encode_header (e_digest e) key len seq)"

definition slot_write_one ::
  "env \<Rightarrow> nat \<times> bool \<times> remote_page \<Rightarrow>
   mem \<times> claims \<times> (string \<times> nat \<times> nat \<times> nat) list \<Rightarrow>
   (mem \<times> claims \<times> (string \<times> nat \<times> nat \<times> nat) list) result" where
  "slot_write_one e x acc =
     (let (j, ok, (i, key, ptr, len, owner, lay)) = x; (m, claimed, ws) = acc;
          geom = sl_geom lay;
          bucket = bucket_no e geom key;
          snap = (if ok then string_at m (e_scratch e (2 * j)) (bucket_stride geom) else replicate (bucket_stride geom) 0);
          mine = (case map_of claimed (owner, bucket) of None \<Rightarrow> [] | Some c \<Rightarrow> c);
          snap = fold (\<lambda>(w, hdr) snap. splice snap (w * slot_stride geom) hdr) mine snap;
          (way, new_seq) = pick_way_from_bucket (e_digest e) snap geom key;
          buf = e_scratch e (2 * length ws + 1)
      in bind_result (encode_header (e_digest e) key len new_seq) (\<lambda>hdr.
         fmap_result (\<lambda>m.
           (m, AList.update (owner, bucket) (AList.update way hdr mine) claimed,
            ws @ [(hd (sl_endpoints lay), buf, sl_base lay + slot_offset geom bucket way, HEADER_SIZE + len)]))
           (pack_slot e m buf key ptr len new_seq)))"

text \<open>\<open>_publish_slotmap_remote\<close>: the state, the results and the bytes published.\<close>

definition publish_slotmap_remote ::
  "env \<Rightarrow> store_state \<Rightarrow> remote_page list \<Rightarrow> bool list \<Rightarrow> (store_state \<times> bool list \<times> nat) result" where
  "publish_slotmap_remote e st remote results =
     (if remote = [] then Inr (st, results, 0)
      else
        let (st, rd_ok) = read_buckets e st (map (\<lambda>(i, key, ptr, len, owner, lay). (key, lay)) remote);
            (eps, rks) = rail_maps (map (\<lambda>(i, key, ptr, len, owner, lay). lay) remote)
        in bind_result
             (fold_result (slot_write_one e) (zip [0..<length remote] (zip rd_ok remote)) (nd_mem (st_me st), [], []))
             (\<lambda>(m, claimed, ws).
               let st = st\<lparr>st_me := (st_me st)\<lparr>nd_mem := m\<rparr>\<rparr>;
                   (st, oks) = st_batch_write e st (map (\<lambda>(n, la, ra, len). n) ws) (map (\<lambda>(n, la, ra, len). la) ws)
                     (map (\<lambda>(n, la, ra, len). ra) ws) (map (\<lambda>(n, la, ra, len). len) ws) eps rks;
                   done = map snd (filter fst (zip oks (zip (map fst remote) ws)))
               in Inr (st, fold (\<lambda>(i, w) results. results[i := True]) done results,
                       sum_list (map (\<lambda>(i, n, la, ra, len). len - HEADER_SIZE) done))))"

definition publish_slotmap ::
  "env \<Rightarrow> store_state \<Rightarrow> string list \<Rightarrow> nat list \<Rightarrow> nat list \<Rightarrow> (store_state \<times> bool list) result" where
  "publish_slotmap e st comp_keys ptrs sizes =
     bind_result
       (fold_result (slot_publish_one e) (zip [0..<length comp_keys] (zip comp_keys (zip ptrs sizes)))
          (st, replicate (length comp_keys) False, 0, []))
       (\<lambda>(st, results, published, remote).
         fmap_result (\<lambda>(st, results, n).
           (st\<lparr>st_me := (st_me st)\<lparr>nd_metrics := record_write (nd_metrics (st_me st)) (int (published + n)) (e_dt e)\<rparr>\<rparr>,
            results)) (publish_slotmap_remote e st remote results))"

section \<open>Reading\<close>

text \<open>
  One key of the loop of \<open>_fetch_slotmap\<close>: own keys are read locally, the others are collected with
  their layout.
\<close>

definition slot_fetch_one ::
  "env \<Rightarrow> nat \<times> string \<times> nat \<times> nat \<Rightarrow> store_state \<times> bool list \<times> remote_page list \<Rightarrow>
   (store_state \<times> bool list \<times> remote_page list) result" where
  "slot_fetch_one e page acc =
     (let (i, key, ptr, len) = page; (st, results, remote) = acc
      in case data_owner_all (e_digest e) (nd_runtime (st_me st)) key of
           None \<Rightarrow> Inr acc
         | Some owner \<Rightarrow>
             if owner = nd_id (st_me st)
             then case nd_slot (st_me st) of
                    None \<Rightarrow> Inr acc
                  | Some rg \<Rightarrow>
                      fmap_result (\<lambda>(m, hit).
                        (st\<lparr>st_me := (st_me st)\<lparr>nd_mem := m\<rparr>\<rparr>, if hit then results[i := True] else results, remote))
                        (read_local (e_digest e) rg (nd_mem (st_me st)) key ptr len)
             else case peer_layout e st owner of
                    (st, None) \<Rightarrow> Inr (st, results, remote)
                  | (st, Some lay) \<Rightarrow>
                      Inr (st, results,
                           if len > max_payload (sl_geom lay) then remote else remote @ [(i, key, ptr, len, owner, lay)]))"

text \<open>The first way of the bucket in scratch buffer \<open>j\<close> whose header passes the gate.\<close>

definition matching_way :: "env \<Rightarrow> store_state \<Rightarrow> nat \<Rightarrow> slot_layout \<Rightarrow> (bytes \<Rightarrow> bool) \<Rightarrow> nat option" where
  "matching_way e st j lay gate =
     find (\<lambda>w. gate (string_at (nd_mem (st_me st)) (e_scratch e (2 * j) + w * slot_stride (sl_geom lay)) HEADER_SIZE))
       [0..<ways (sl_geom lay)]"

definition slot_copy_out :: "env \<Rightarrow> nat \<times> bool \<times> remote_page \<Rightarrow> store_state \<times> bool list \<Rightarrow> store_state \<times> bool list" where
  "slot_copy_out e x acc =
     (let (j, ok, (i, key, ptr, len, owner, lay)) = x; (st, results) = acc
      in if \<not> ok then acc
         else case matching_way e st j lay (\<lambda>hdr. slot_matches (e_digest e) hdr key len) of
                None \<Rightarrow> acc
              | Some w \<Rightarrow>
                  (st\<lparr>st_me := (st_me st)\<lparr>nd_mem :=
                       memmove (nd_mem (st_me st)) ptr
                         (e_scratch e (2 * j) + w * slot_stride (sl_geom lay) + HEADER_SIZE) len\<rparr>\<rparr>,
                   results[i := True]))"

text \<open>The source it records for a hit is always \<open>"local"\<close>: \<open>i < len(comp_keys)\<close> holds for every \<open>i\<close>.\<close>

definition record_slot_reads :: "env \<Rightarrow> store_state \<Rightarrow> bool list \<Rightarrow> nat list \<Rightarrow> store_state" where
  "record_slot_reads e st results sizes =
     st\<lparr>st_me := (st_me st)\<lparr>nd_metrics :=
       fold (\<lambda>(hit, size) mx. record_read mx hit (if hit then int size else 0) (e_dt e)
                                (Some (if hit then ''local'' else ''remote'')))
         (zip results sizes) (nd_metrics (st_me st))\<rparr>\<rparr>"

definition fetch_slotmap ::
  "env \<Rightarrow> store_state \<Rightarrow> string list \<Rightarrow> nat list \<Rightarrow> nat list \<Rightarrow> (store_state \<times> bool list) result" where
  "fetch_slotmap e st comp_keys ptrs sizes =
     fmap_result (\<lambda>(st, results, remote).
         let (st, results) =
               (if remote = [] then (st, results)
                else let (st, oks) = read_buckets e st (map (\<lambda>(i, key, ptr, len, owner, lay). (key, lay)) remote)
                     in fold (slot_copy_out e) (zip [0..<length remote] (zip oks remote)) (st, results))
         in (record_slot_reads e st results sizes, results))
       (fold_result (slot_fetch_one e) (zip [0..<length comp_keys] (zip comp_keys (zip ptrs sizes)))
          (st, replicate (length comp_keys) False, []))"

section \<open>Probing\<close>

definition slot_exists_one ::
  "env \<Rightarrow> nat \<times> string \<Rightarrow> store_state \<times> bool list \<times> remote_page list \<Rightarrow>
   (store_state \<times> bool list \<times> remote_page list) result" where
  "slot_exists_one e page acc =
     (let (i, key) = page; (st, present, remote) = acc
      in case data_owner_all (e_digest e) (nd_runtime (st_me st)) key of
           None \<Rightarrow> Inr acc
         | Some owner \<Rightarrow>
             if owner = nd_id (st_me st)
             then case nd_slot (st_me st) of
                    None \<Rightarrow> Inr acc
                  | Some rg \<Rightarrow>
                      fmap_result (\<lambda>r. (st, if r \<noteq> None then present[i := True] else present, remote))
                        (exists_local (e_digest e) rg (nd_mem (st_me st)) key)
             else case peer_layout e st owner of
                    (st, None) \<Rightarrow> Inr (st, present, remote)
                  | (st, Some lay) \<Rightarrow> Inr (st, present, remote @ [(i, key, 0, 0, owner, lay)]))"

definition exists_slotmap :: "env \<Rightarrow> store_state \<Rightarrow> string list \<Rightarrow> (store_state \<times> bool list) result" where
  "exists_slotmap e st comp_keys =
     fmap_result (\<lambda>(st, present, remote).
         if remote = [] then (st, present)
         else let (st, oks) = read_buckets e st (map (\<lambda>(i, key, ptr, len, owner, lay). (key, lay)) remote)
              in (st, fold (\<lambda>(j, ok, (i, key, ptr, len, owner, lay)) present.
                        if ok \<and> matching_way e st j lay (\<lambda>hdr. slot_present (e_digest e) hdr key \<noteq> None) \<noteq> None
                        then present[i := True] else present)
                     (zip [0..<length remote] (zip oks remote)) present))
       (fold_result (slot_exists_one e) (zip [0..<length comp_keys] comp_keys)
          (st, replicate (length comp_keys) False, []))"

end
