(* ===== verification/Store.thy ===== *)
theory Store
  imports SlotClient
begin

text \<open>
  The store (\<^verbatim>\<open>python/peercache/store.py\<close>): publishing into the local pool and to storage servers,
  the directory caches, fetching with promotion from disk, and the interfaces SGLang calls.

  The lists of one operation (keys, addresses, sizes) have the same length: the \<open>v1\<close> entry points
  check it, the others build them together.
\<close>

section \<open>Calls to a peer\<close>

definition node_handlers :: "env \<Rightarrow> node \<Rightarrow> (node \<times> shards) handlers" where
  "node_handlers e nd = (if nd_storage nd then ss_handlers e else [(''data_promote'', on_data_promote e)])"

text \<open>\<open>self._data_rpc.call(endpoint, name, args)\<close>.\<close>

definition data_call :: "env \<Rightarrow> store_state \<Rightarrow> string \<Rightarrow> string \<Rightarrow> pyval \<Rightarrow> store_state \<times> pyval result" where
  "data_call e st ep name args =
     (if \<not> e_up e ep then (st, Inl ConnectionError)
      else case st_peers st ep of
             None \<Rightarrow> (st, Inl ConnectionError)
           | Some nd \<Rightarrow>
               (let ((nd', sh), r) = rpc_call (node_handlers e nd) (nd, st_shards st) name args
                in (st\<lparr>st_peers := (st_peers st)(ep \<mapsto> nd'), st_shards := sh\<rparr>, r)))"

section \<open>Publishing into the local pool\<close>

text \<open>One page of \<open>_publish_p2p\<close>: state, new entries, results, bytes.\<close>

definition publish_one ::
  "env \<Rightarrow> (string \<times> nat \<times> nat) \<times> bool \<Rightarrow>
   (node \<times> shards) \<times> (string, data_location) dict \<times> bool list \<times> nat \<Rightarrow>
   (node \<times> shards) \<times> (string, data_location) dict \<times> bool list \<times> nat" where
  "publish_one e page acc =
     (let ((key, ptr, size), existing) = page; ((nd, sh), entries, results, published) = acc
      in if existing then ((nd, sh), entries, results @ [True], published)
         else case nd_pool nd of
                None \<Rightarrow> acc
              | Some p \<Rightarrow>
                  (case pool_publish e p (nd, sh) key ptr size of
                     (s, None) \<Rightarrow> (s, entries, results @ [False], published)
                   | ((nd, sh), Some addr) \<Rightarrow>
                       (let nd = write_through nd key (string_at (nd_mem nd) ptr size);
                            nd = nd\<lparr>nd_key_len := AList.update key size (nd_key_len nd)\<rparr>;
                            entries = AList.update key (resident_location nd p addr size) entries
                        in ((nd, sh), entries, results @ [True], published + size))))"

text \<open>
  A node without a pool raises at the first page that is not in the directory already, before
  anything changed.
\<close>

definition publish_p2p ::
  "env \<Rightarrow> bool \<Rightarrow> node \<times> shards \<Rightarrow> string list \<Rightarrow> nat list \<Rightarrow> nat list \<Rightarrow> (node \<times> shards) \<times> bool list result" where
  "publish_p2p e update_directory s comp_keys ptrs sizes =
     (let (nd, sh) = s;
          existing = node_dir_exists e nd sh comp_keys
      in if nd_pool nd = None \<and> False \<in> set existing then (s, Inl AttributeError)
         else
           let ((nd, sh), entries, results, published) =
                 fold (publish_one e) (zip (zip comp_keys (zip ptrs sizes)) existing) (s, [], [], 0);
               (nd, entries) = reconcile (nd, entries);
               sh = (if entries \<noteq> [] \<and> update_directory then node_dir_put e nd sh entries else sh);
               nd = nd\<lparr>nd_metrics := record_write (nd_metrics nd) (int published) (e_dt e)\<rparr>
           in ((nd, sh), Inr results))"

section \<open>Publishing to storage servers\<close>

type_synonym pending_page = "string \<times> nat \<times> nat \<times> nat"

text \<open>The pages still to be written, by their storage owner.\<close>

definition pending_pages ::
  "env \<Rightarrow> node \<Rightarrow> ((nat \<times> string \<times> nat \<times> nat) \<times> bool) list \<Rightarrow> (string, pending_page list) dict" where
  "pending_pages e nd items =
     fold (\<lambda>((i, key, ptr, size), ex) pending.
             if ex then pending
             else case data_owner (e_digest e) (nd_runtime nd) key of
                    None \<Rightarrow> pending
                  | Some owner \<Rightarrow> append_at owner (key, size, ptr, i) pending) items []"

type_synonym write_target = "string \<times> nat \<times> nat \<times> nat \<times> string"

text \<open>
  The write to one reserved slot (rail-0 endpoint, local address, remote address, length, key) and the
  rail maps; a slot that is \<open>None\<close> is skipped.
\<close>

definition slot_target ::
  "pending_page \<times> pyval \<Rightarrow> write_target list \<times> (string, string list) dict \<times> (string, nat list) dict \<Rightarrow>
   (write_target list \<times> (string, string list) dict \<times> (string, nat list) dict) result" where
  "slot_target x acc =
     (let ((key, size, ptr, i), slot) = x; (ts, eps, rks) = acc
      in if \<not> truthy slot then Inr acc
         else bind_result (as_dict slot) (\<lambda>d.
              bind_result (bind_result (field d ''rdma_endpoint'') as_str) (\<lambda>nk.
              bind_result
                (if has_key eps nk then Inr (eps, rks)
                 else bind_result (bind_result (list_field d ''rail_endpoints'') (map_result as_str)) (\<lambda>ep.
                      bind_result (list_field d ''rail_rkeys'') (\<lambda>rk.
                      bind_result (if rk = [] then fmap_result (\<lambda>v. [v]) (field d ''rkey'') else Inr rk) (\<lambda>rk.
                      fmap_result (\<lambda>rk. (AList.update nk (if ep = [] then [nk] else ep) eps, AList.update nk rk rks))
                        (map_result as_nat rk))))) (\<lambda>(eps, rks).
              bind_result (bind_result (field d ''remote_addr'') as_nat) (\<lambda>ra.
              bind_result (bind_result (field d ''length'') as_nat) (\<lambda>len.
                Inr (ts @ [(nk, ptr, ra, len, key)], eps, rks)))))))"

text \<open>
  The commit of the pages written: the keys the server confirms, none when the call or its reply
  fails.
\<close>

definition commit_pages :: "env \<Rightarrow> store_state \<Rightarrow> string \<Rightarrow> string list \<Rightarrow> store_state \<times> string list" where
  "commit_pages e st ep keys =
     (if keys = [] then (st, [])
      else let (st, r) = data_call e st ep ''data_commit_writes'' (VDict [(''keys'', VList (map VStr keys))])
           in (st, case bind_result (bind_result r as_dict) (\<lambda>d. list_field d ''ok'') of
                     Inl _ \<Rightarrow> []
                   | Inr oks \<Rightarrow> map fst (filter (\<lambda>(k, v). truthy v) (zip keys oks))))"

definition mark_done :: "pending_page \<Rightarrow> bool list \<times> nat \<Rightarrow> bool list \<times> nat" where
  "mark_done page acc =
     (let (key, size, ptr, i) = page; (results, published) = acc in (results[i := True], published + size))"

text \<open>The copy of the remaining pages inside a call.\<close>

definition ingest_pages ::
  "env \<Rightarrow> store_state \<Rightarrow> string \<Rightarrow> pending_page list \<Rightarrow> bool list \<times> nat \<Rightarrow> store_state \<times> bool list \<times> nat" where
  "ingest_pages e st ep todo acc =
     (if todo = [] then (st, acc)
      else let (st, r) = data_call e st ep ''data_ingest''
                 (VDict [(''pages'', VList (map (\<lambda>(key, size, ptr, i).
                    VDict [(''key'', VStr key), (''data'', VBytes (string_at (nd_mem (st_me st)) ptr size))]) todo))])
           in (st, case bind_result (bind_result r as_dict) (\<lambda>d. list_field d ''ok'') of
                     Inl _ \<Rightarrow> acc
                   | Inr oks \<Rightarrow> fold (mark_done \<circ> fst) (filter (\<lambda>(p, v). truthy v) (zip todo oks)) acc))"

text \<open>
  All pages of one owner. A key that occurs twice in the batch is marked at its last index, as
  \<open>key_to_idx\<close> has it.
\<close>

definition write_to_owner ::
  "env \<Rightarrow> (string, nat) dict \<Rightarrow> nat list \<Rightarrow> string \<times> pending_page list \<Rightarrow> store_state \<times> bool list \<times> nat \<Rightarrow>
   (store_state \<times> bool list \<times> nat) result" where
  "write_to_owner e key_to_idx sizes x acc =
     (let (owner, todo) = x; (st, results, published) = acc
      in case nd_control_of (st_me st) owner of
           None \<Rightarrow> Inr acc
         | Some ep \<Rightarrow>
             (case data_call e st ep ''data_prepare_writes''
                     (VDict [(''pages'', VList (map (\<lambda>(key, size, ptr, i).
                        VDict [(''key'', VStr key), (''length'', VInt (int size))]) todo))]) of
                (st, r) \<Rightarrow>
                  (case bind_result (bind_result r as_dict) (\<lambda>d. list_field d ''slots'') of
                     Inl _ \<Rightarrow> Inr (st, results, published)
                   | Inr slots \<Rightarrow>
                       bind_result (fold_result slot_target (zip todo slots) ([], [], [])) (\<lambda>(ts, eps, rks).
                         let keys = map (\<lambda>(nk, la, ra, len, key). key) ts;
                             (st, oks) =
                               (if ts = [] then (st, [])
                                else st_batch_write e st (map (\<lambda>(nk, la, ra, len, key). nk) ts)
                                       (map (\<lambda>(nk, la, ra, len, key). la) ts) (map (\<lambda>(nk, la, ra, len, key). ra) ts)
                                       (map (\<lambda>(nk, la, ra, len, key). len) ts) eps rks);
                             write_ok = dict_update [] (zip keys oks);
                             (st, committed) = commit_pages e st ep (map fst (filter snd (zip keys oks)));
                             (results, published) =
                               fold (\<lambda>(key, ok) (results, published).
                                       case map_of key_to_idx key of
                                         Some i \<Rightarrow> if ok \<and> key \<in> set committed
                                                   then (results[i := True], published + sizes ! i)
                                                   else (results, published)
                                       | None \<Rightarrow> (results, published)) write_ok (results, published)
                         in Inr (ingest_pages e st ep
                                   (filter (\<lambda>(key, size, ptr, i). \<not> results ! i) todo) (results, published))))))"

definition publish_storage ::
  "env \<Rightarrow> store_state \<Rightarrow> string list \<Rightarrow> nat list \<Rightarrow> nat list \<Rightarrow> (store_state \<times> bool list) result" where
  "publish_storage e st comp_keys ptrs sizes =
     (if storage_nodes (nd_runtime (st_me st)) = [] then Inr (st, replicate (length comp_keys) False)
      else
        let existing = node_dir_exists e (st_me st) (st_shards st) comp_keys;
            key_to_idx = dict_update [] (zip comp_keys [0..<length comp_keys]);
            pending = pending_pages e (st_me st)
                        (zip (zip [0..<length comp_keys] (zip comp_keys (zip ptrs sizes))) existing)
        in fmap_result (\<lambda>(st, results, published).
             (st\<lparr>st_me := (st_me st)\<lparr>nd_metrics := record_write (nd_metrics (st_me st)) (int published) (e_dt e)\<rparr>\<rparr>,
              results))
             (fold_result (write_to_owner e key_to_idx sizes) pending (st, existing, 0)))"

section \<open>Publishing\<close>

definition st_publish_p2p ::
  "env \<Rightarrow> bool \<Rightarrow> store_state \<Rightarrow> string list \<Rightarrow> nat list \<Rightarrow> nat list \<Rightarrow> (store_state \<times> bool list) result" where
  "st_publish_p2p e update_directory st comp_keys ptrs sizes =
     (let ((nd, sh), r) = publish_p2p e update_directory (st_me st, st_shards st) comp_keys ptrs sizes
      in fmap_result (\<lambda>results. (st\<lparr>st_me := nd, st_shards := sh\<rparr>, results)) r)"

definition st_publish ::
  "env \<Rightarrow> store_state \<Rightarrow> string list \<Rightarrow> nat list \<Rightarrow> nat list \<Rightarrow> (store_state \<times> bool list) result" where
  "st_publish e st comp_keys ptrs sizes =
     (let nd = st_me st; mode = nd_mode nd; policy = nd_write_policy nd
      in if mode = ''slotmap'' then publish_slotmap e st comp_keys ptrs sizes
         else if mode = ''p2p'' then st_publish_p2p e True st comp_keys ptrs sizes
         else if mode = ''centralized'' then publish_storage e st comp_keys ptrs sizes
         else if policy = ''local'' \<or> storage_nodes (nd_runtime nd) = []
         then st_publish_p2p e True st comp_keys ptrs sizes
         else if policy = ''storage'' then publish_storage e st comp_keys ptrs sizes
         else bind_result (publish_storage e st comp_keys ptrs sizes) (\<lambda>(st, storage_res).
              fmap_result (\<lambda>(st, local_res). (st, map (\<lambda>(s, l). s \<or> l) (zip storage_res local_res)))
                (st_publish_p2p e False st comp_keys ptrs sizes)))"

section \<open>Where a page is\<close>

text \<open>
  The answers of a cache, with the places left \<open>None\<close> filled from the directory's answers for them.
\<close>

fun fill_misses :: "'a option list \<Rightarrow> 'a option list \<Rightarrow> 'a option list" where
  "fill_misses [] fresh = []"
| "fill_misses (Some x # out) fresh = Some x # fill_misses out fresh"
| "fill_misses (None # out) [] = None # fill_misses out []"
| "fill_misses (None # out) (f # fresh) = f # fill_misses out fresh"

definition missing :: "string list \<Rightarrow> 'a option list \<Rightarrow> string list" where
  "missing keys out = map fst (filter (\<lambda>(k, x). x = None) (zip keys out))"

definition unexpired :: "int \<Rightarrow> (string, data_location \<times> int) dict \<Rightarrow> string \<Rightarrow> data_location option" where
  "unexpired now cache k =
     (case map_of cache k of None \<Rightarrow> None | Some (loc, expiry) \<Rightarrow> if expiry > now then Some loc else None)"

text \<open>Only resident locations are remembered.\<close>

definition remember ::
  "int \<Rightarrow> (string \<times> data_location option) list \<Rightarrow> (string, data_location \<times> int) dict \<Rightarrow> (string, data_location \<times> int) dict" where
  "remember expiry found cache =
     fold (\<lambda>(k, l) cache. case l of
             None \<Rightarrow> cache
           | Some loc \<Rightarrow> if resident loc then AList.update k (loc, expiry) cache else cache) found cache"

text \<open>\<open>_dir_get\<close>.\<close>

definition cached_get :: "env \<Rightarrow> node \<Rightarrow> shards \<Rightarrow> string list \<Rightarrow> node \<times> data_location option list" where
  "cached_get e nd sh comp_keys =
     (if nd_cache_ttl nd \<le> 0 then (nd, node_dir_get e nd sh comp_keys)
      else
        let out = map (unexpired (e_now e) (nd_dir_cache nd)) comp_keys;
            miss_keys = missing comp_keys out
        in if miss_keys = [] then (nd, out)
           else
             let fresh = node_dir_get e nd sh miss_keys
             in (nd\<lparr>nd_dir_cache := remember (e_now e + nd_cache_ttl nd) (zip miss_keys fresh) (nd_dir_cache nd)\<rparr>,
                 fill_misses out fresh))"

definition dir_cache_invalidate :: "node \<Rightarrow> string list \<Rightarrow> node" where
  "dir_cache_invalidate nd keys =
     (if nd_cache_ttl nd \<le> 0 \<or> keys = [] then nd
      else nd\<lparr>nd_dir_cache := fold AList.delete keys (nd_dir_cache nd)\<rparr>)"

definition prime :: "env \<Rightarrow> node \<Rightarrow> string list \<Rightarrow> data_location option list \<Rightarrow> node" where
  "prime e nd comp_keys locs =
     (let primed = (if length (nd_primed nd) > nd_primed_cap nd
                    then filter (\<lambda>(k, loc, expiry). expiry > e_now e) (nd_primed nd) else nd_primed nd)
      in nd\<lparr>nd_primed := remember (e_now e + nd_primed_ttl nd) (zip comp_keys locs) primed\<rparr>)"

fun pop_primed ::
  "int \<Rightarrow> (string, data_location \<times> int) dict \<Rightarrow> string list \<Rightarrow>
   (string, data_location \<times> int) dict \<times> data_location option list" where
  "pop_primed now primed [] = (primed, [])"
| "pop_primed now primed (k # ks) =
     (let (primed', out) = pop_primed now (AList.delete k primed) ks in (primed', unexpired now primed k # out))"

definition take_primed :: "env \<Rightarrow> node \<Rightarrow> shards \<Rightarrow> string list \<Rightarrow> node \<times> data_location option list" where
  "take_primed e nd sh comp_keys =
     (let (primed, out) = pop_primed (e_now e) (nd_primed nd) comp_keys;
          saved = length (filter (\<lambda>l. l \<noteq> None) out);
          nd = nd\<lparr>nd_primed := primed\<rparr>;
          nd = (if saved > 0 then nd_inc nd ''directory_lookups_saved'' (int saved) else nd);
          miss_keys = missing comp_keys out
      in if miss_keys = [] then (nd, out)
         else let (nd, fresh) = cached_get e nd sh miss_keys in (nd, fill_misses out fresh))"

section \<open>Promotion before a read\<close>

definition promote_local ::
  "env \<Rightarrow> nat \<times> string \<Rightarrow> store_state \<times> data_location option list \<times> nat list \<Rightarrow>
   store_state \<times> data_location option list \<times> nat list" where
  "promote_local e x acc =
     (let (i, key) = x; (st, locs, promoted) = acc;
          ((nd, sh), new) = ensure_resident e (st_me st, st_shards st) [key];
          st = st\<lparr>st_me := nd, st_shards := sh\<rparr>
      in (st, locs[i := hd new], if hd new \<noteq> None then promoted @ [i] else promoted))"

text \<open>
  The locations a peer answered, until the first that does not parse; the last component says that
  all of them did.
\<close>

fun take_locations ::
  "(nat \<times> pyval) list \<Rightarrow> data_location option list \<Rightarrow> nat list \<Rightarrow> data_location option list \<times> nat list \<times> bool" where
  "take_locations [] locs promoted = (locs, promoted, True)"
| "take_locations ((i, v) # xs) locs promoted =
     (if \<not> truthy v then take_locations xs (locs[i := None]) promoted
      else case bind_result (as_dict v) loc_from_dict of
             Inl _ \<Rightarrow> (locs, promoted, False)
           | Inr loc \<Rightarrow> take_locations xs (locs[i := Some loc]) (promoted @ [i]))"

definition forget :: "nat list \<Rightarrow> 'a option list \<Rightarrow> 'a option list" where
  "forget idxs locs = fold (\<lambda>i locs. locs[i := None]) idxs locs"

definition promote_remote ::
  "env \<Rightarrow> string list \<Rightarrow> string \<times> nat list \<Rightarrow> store_state \<times> data_location option list \<times> nat list \<Rightarrow>
   store_state \<times> data_location option list \<times> nat list" where
  "promote_remote e comp_keys x acc =
     (let (owner, idxs) = x; (st, locs, promoted) = acc
      in case nd_control_of (st_me st) owner of
           None \<Rightarrow> (st, forget idxs locs, promoted)
         | Some ep \<Rightarrow>
             (let (st, r) = data_call e st ep ''data_promote''
                    (VDict [(''keys'', VList (map (\<lambda>i. VStr (comp_keys ! i)) idxs))])
              in case bind_result (bind_result r (\<lambda>resp. item_or resp ''locations'' (VList []))) as_list of
                   Inl _ \<Rightarrow> (st, forget idxs locs, promoted)
                 | Inr newlocs \<Rightarrow>
                     (let (locs, promoted, ok) = take_locations (zip idxs newlocs) locs promoted
                      in (st, if ok then locs else forget idxs locs, promoted))))"

definition non_resident :: "data_location option list \<Rightarrow> (nat \<times> data_location) list" where
  "non_resident locs =
     concat (map (\<lambda>(i, l). case l of None \<Rightarrow> [] | Some loc \<Rightarrow> if resident loc then [] else [(i, loc)])
       (zip [0..<length locs] locs))"

definition resolve_non_resident ::
  "env \<Rightarrow> store_state \<Rightarrow> string list \<Rightarrow> data_location option list \<Rightarrow> store_state \<times> data_location option list \<times> nat list" where
  "resolve_non_resident e st comp_keys locs =
     (let me = nd_id (st_me st);
          local_idx = map fst (filter (\<lambda>(i, loc). loc_node_id loc = me) (non_resident locs));
          remote_by_owner =
            fold (\<lambda>(i, loc) d. if loc_node_id loc = me then d else append_at (loc_node_id loc) i d) (non_resident locs) []
      in fold (promote_remote e comp_keys) remote_by_owner
           (fold (promote_local e) (map (\<lambda>i. (i, comp_keys ! i)) local_idx) (st, locs, [])))"

text \<open>The task \<open>_prefetch_async\<close> hands to its thread pool.\<close>

definition prefetch :: "env \<Rightarrow> store_state \<Rightarrow> string list \<Rightarrow> store_state" where
  "prefetch e st comp_keys =
     fst (resolve_non_resident e st comp_keys (node_dir_get e (st_me st) (st_shards st) comp_keys))"

section \<open>Fetching\<close>

text \<open>The reads still to be issued: index, rail-0 endpoint, destination, source, length.\<close>

record fetch_acc =
  fa_node :: node
  fa_results :: "bool list"
  fa_sources :: "string option list"
  fa_reads :: "(nat \<times> string \<times> nat \<times> nat \<times> nat) list"
  fa_eps :: "(string, string list) dict"
  fa_rks :: "(string, nat list) dict"

definition local_copy :: "fetch_acc \<Rightarrow> nat \<Rightarrow> nat \<Rightarrow> nat \<Rightarrow> nat \<Rightarrow> string \<Rightarrow> fetch_acc" where
  "local_copy a i ptr addr len source =
     a\<lparr>fa_node := (fa_node a)\<lparr>nd_mem := memmove (nd_mem (fa_node a)) ptr addr len\<rparr>,
       fa_results := (fa_results a)[i := True], fa_sources := (fa_sources a)[i := Some source]\<rparr>"

text \<open>
  The local copy a node with \<open>write_policy = "both"\<close> prefers. Asking for it moves the page to the end
  of the pool's recency order, also when its length is another one.
\<close>

definition own_copy :: "node \<Rightarrow> string \<Rightarrow> nat \<Rightarrow> node \<times> nat option" where
  "own_copy nd key len =
     (case nd_pool nd of
        None \<Rightarrow> (nd, None)
      | Some p \<Rightarrow>
          if nd_mode nd = ''hybrid'' \<and> nd_write_policy nd = ''both''
          then case address_of p key of
                 (p', None) \<Rightarrow> (nd\<lparr>nd_pool := Some p'\<rparr>, None)
               | (p', Some (addr, n)) \<Rightarrow> (nd\<lparr>nd_pool := Some p'\<rparr>, if n = len then Some addr else None)
          else (nd, None))"

definition fetch_one ::
  "nat list \<Rightarrow> (nat \<times> data_location option) \<times> string \<times> nat \<times> nat \<Rightarrow> fetch_acc \<Rightarrow> fetch_acc" where
  "fetch_one promoted x a =
     (let ((i, l), key, ptr, size) = x
      in case l of
           None \<Rightarrow> a
         | Some loc \<Rightarrow>
             if \<not> resident loc \<or> loc_length loc \<noteq> size then a
             else case own_copy (fa_node a) key size of
                    (nd, Some addr) \<Rightarrow> local_copy (a\<lparr>fa_node := nd\<rparr>) i ptr addr size ''local''
                  | (nd, None) \<Rightarrow>
                      (let a = a\<lparr>fa_node := nd\<rparr>; nk = loc_rdma_endpoint loc
                       in if loc_node_id loc = nd_id nd
                          then local_copy a i ptr (remote_addr loc) (loc_length loc)
                                 (if i \<in> set promoted then ''disk'' else ''local'')
                          else a\<lparr>fa_reads := fa_reads a @ [(i, nk, ptr, remote_addr loc, loc_length loc)],
                                 fa_eps := (if has_key (fa_eps a) nk then fa_eps a
                                            else AList.update nk (loc_endpoints loc) (fa_eps a)),
                                 fa_rks := (if has_key (fa_eps a) nk then fa_rks a
                                            else AList.update nk (loc_rkeys loc) (fa_rks a))\<rparr>))"

text \<open>What the replies of the reads change: results, sources and the count of failures.\<close>

definition read_reply ::
  "nat list \<Rightarrow> nat \<times> bool \<Rightarrow> bool list \<times> string option list \<times> nat \<Rightarrow> bool list \<times> string option list \<times> nat" where
  "read_reply promoted x acc =
     (let (i, ok) = x; (results, sources, failed) = acc
      in if ok then (results[i := True], sources[i := Some (if i \<in> set promoted then ''disk'' else ''remote'')], failed)
         else (results[i := False], sources, failed + 1))"

definition remote_fetch ::
  "env \<Rightarrow> store_state \<Rightarrow> nat list \<Rightarrow> fetch_acc \<Rightarrow> (store_state \<times> bool list \<times> string option list) result" where
  "remote_fetch e st promoted a =
     (let st = st\<lparr>st_me := fa_node a\<rparr>; rs = fa_reads a
      in if rs = [] then Inr (st, fa_results a, fa_sources a)
         else fmap_result (\<lambda>(st, oks).
                let (results, sources, failed) =
                      fold (read_reply promoted) (zip (map fst rs) oks) (fa_results a, fa_sources a, 0)
                in (if failed > 0 then st\<lparr>st_me := nd_inc (st_me st) ''read_failures'' (int failed)\<rparr> else st,
                    results, sources))
              (st_batch_read e st (map (\<lambda>(i, nk, la, ra, len). nk) rs) (map (\<lambda>(i, nk, la, ra, len). la) rs)
                 (map (\<lambda>(i, nk, la, ra, len). ra) rs) (map (\<lambda>(i, nk, la, ra, len). len) rs) (fa_eps a) (fa_rks a)))"

definition record_reads :: "env \<Rightarrow> bool list \<Rightarrow> nat list \<Rightarrow> string option list \<Rightarrow> node \<Rightarrow> node" where
  "record_reads e results sizes sources nd =
     nd\<lparr>nd_metrics :=
       fold (\<lambda>(hit, size, source) mx. record_read mx hit (if hit then int size else 0) (e_dt e) source)
         (zip results (zip sizes sources)) (nd_metrics nd)\<rparr>"

definition st_fetch ::
  "env \<Rightarrow> store_state \<Rightarrow> string list \<Rightarrow> nat list \<Rightarrow> nat list \<Rightarrow> (store_state \<times> bool list) result" where
  "st_fetch e st comp_keys ptrs sizes =
     (if nd_mode (st_me st) = ''slotmap'' then fetch_slotmap e st comp_keys ptrs sizes
      else
        let n = length comp_keys;
            (nd, locs) = take_primed e (st_me st) (st_shards st) comp_keys;
            (st, locs, promoted) = resolve_non_resident e (st\<lparr>st_me := nd\<rparr>) comp_keys locs;
            a = fold (fetch_one promoted) (zip (zip [0..<n] locs) (zip comp_keys (zip ptrs sizes)))
                  \<lparr>fa_node = st_me st, fa_results = replicate n False, fa_sources = replicate n None,
                   fa_reads = [], fa_eps = [], fa_rks = []\<rparr>
        in fmap_result (\<lambda>(st, results, sources).
             let nd = record_reads e results sizes sources (st_me st);
                 nd = (if nd_cache_ttl nd > 0
                       then dir_cache_invalidate nd (map fst (filter (\<lambda>(k, ok). \<not> ok) (zip comp_keys results))) else nd)
             in (st\<lparr>st_me := nd\<rparr>, results)) (remote_fetch e st promoted a))"

end
