(* ===== verification/Coherence.thy ===== *)
theory Coherence
  imports Store
begin

text \<open>
  The directory and the pools agree: what a resident entry says is true, whatever the nodes of a
  cluster do with publishing, promotion and their disk tiers while the membership stands.
\<close>

section \<open>What a node promises\<close>

definition nd_reaches :: "env \<Rightarrow> node \<Rightarrow> string \<Rightarrow> string \<Rightarrow> bool" where
  "nd_reaches e nd k ep \<longleftrightarrow> reaches (e_digest e) (nd_dir nd) (nd_control_of nd) (e_up e) k ep"

definition region_of :: "node \<Rightarrow> (nat \<times> nat) option" where
  "region_of nd = map_option (\<lambda>p. (pl_base p, pl_capacity p)) (nd_pool nd)"

definition outside_pool :: "node \<Rightarrow> nat \<Rightarrow> nat \<Rightarrow> bool" where
  "outside_pool nd a n \<longleftrightarrow> (case region_of nd of None \<Rightarrow> True | Some (b, c) \<Rightarrow> disjoint_range a n b c)"

text \<open>The parts of a node that none of its operations changes.\<close>

definition same_node :: "node \<Rightarrow> node \<Rightarrow> bool" where
  "same_node nd nd' \<longleftrightarrow>
     nd_id nd' = nd_id nd \<and> nd_runtime nd' = nd_runtime nd \<and> nd_regions nd' = nd_regions nd \<and>
     region_of nd' = region_of nd \<and> (nd_disk nd' = None \<longleftrightarrow> nd_disk nd = None)"

text \<open>The pages of the pool have the length of their key and were published under it (\<open>P\<close>).\<close>

definition pool_ok :: "(string \<Rightarrow> nat) \<Rightarrow> (string \<times> bytes) set \<Rightarrow> node \<Rightarrow> bool" where
  "pool_ok sz P nd \<longleftrightarrow>
     (\<exists>p. nd_pool nd = Some p \<and> pool_inv p \<and>
        (\<forall>k off len. map_of (pl_entries p) k = Some (off, len) \<longrightarrow> len = sz k) \<and>
        (\<forall>k b. pages p (nd_mem nd) k = Some b \<longrightarrow> (k, b) \<in> P))"

definition disk_ok :: "env \<Rightarrow> string set \<Rightarrow> (string \<times> bytes) set \<Rightarrow> node \<Rightarrow> bool" where
  "disk_ok e K P nd \<longleftrightarrow> (case nd_disk nd of None \<Rightarrow> True | Some d \<Rightarrow> disk_inv (e_sha e) K P d)"

text \<open>A location that names the address and the length of the page its node holds.\<close>

definition points_to :: "node \<Rightarrow> string \<Rightarrow> data_location \<Rightarrow> bool" where
  "points_to nd k l \<longleftrightarrow>
     (\<exists>p off. nd_pool nd = Some p \<and> map_of (pl_entries p) k = Some (off, loc_length l) \<and>
        remote_addr l = pl_base p + off)"

definition own_entry :: "node \<Rightarrow> shards \<Rightarrow> string \<Rightarrow> string \<Rightarrow> data_location \<Rightarrow> bool" where
  "own_entry nd sh ep k l \<longleftrightarrow> loc_at (sh ep) k = Some l \<and> loc_node_id l = nd_id nd \<and> resident l"

definition dir_ok :: "env \<Rightarrow> node \<Rightarrow> shards \<Rightarrow> bool" where
  "dir_ok e nd sh \<longleftrightarrow>
     (\<forall>ep k l. own_entry nd sh ep k l \<longrightarrow>
        nd_reaches e nd k ep \<and> (nd_disk nd \<noteq> None \<longrightarrow> has_key (nd_key_len nd) k) \<and> points_to nd k l)"

lemma same_node_refl [simp]: "same_node nd nd"
  by (simp add: same_node_def)

lemma same_node_trans: "same_node a b \<Longrightarrow> same_node b c \<Longrightarrow> same_node a c"
  by (simp add: same_node_def)

lemma same_node_reaches: "same_node nd nd' \<Longrightarrow> nd_reaches e nd' = nd_reaches e nd"
  by (simp add: same_node_def nd_reaches_def nd_dir_def nd_control_of_def fun_eq_iff)

lemma same_node_outside: "same_node nd nd' \<Longrightarrow> outside_pool nd' = outside_pool nd"
  by (simp add: same_node_def outside_pool_def fun_eq_iff)

lemma dir_okI:
  assumes "\<And>ep k l. own_entry nd sh ep k l \<Longrightarrow>
    nd_reaches e nd k ep \<and> (nd_disk nd \<noteq> None \<longrightarrow> has_key (nd_key_len nd) k) \<and> points_to nd k l"
  shows "dir_ok e nd sh"
  using assms by (simp add: dir_ok_def)

lemma dir_okD:
  assumes "dir_ok e nd sh" and "own_entry nd sh ep k l"
  shows "nd_reaches e nd k ep" and "nd_disk nd \<noteq> None \<Longrightarrow> has_key (nd_key_len nd) k" and "points_to nd k l"
  using assms by (auto simp: dir_ok_def)

section \<open>Eviction\<close>

lemma evicted_entries_dict:
  "map_of (evicted_entries nd ev) k = (if k \<in> set ev then map_option (disk_location nd) (map_of (nd_key_len nd) k) else None)"
  "dict_ok (evicted_entries nd ev)"
proof -
  have "map_of (evicted_entries nd ev) k = (if k \<in> set ev then map_option (disk_location nd) (map_of (nd_key_len nd) k) else None) \<and>
    dict_ok (evicted_entries nd ev)"
    unfolding evicted_entries_def
    by (induction ev rule: rev_induct) (auto simp: update_conv' split: option.splits)
  then show "map_of (evicted_entries nd ev) k = (if k \<in> set ev then map_option (disk_location nd) (map_of (nd_key_len nd) k) else None)"
    and "dict_ok (evicted_entries nd ev)" by blast+
qed

lemma nd_inc_simps [simp]:
  "nd_id (nd_inc nd c n) = nd_id nd" "nd_runtime (nd_inc nd c n) = nd_runtime nd" "nd_pool (nd_inc nd c n) = nd_pool nd"
  "nd_disk (nd_inc nd c n) = nd_disk nd" "nd_key_len (nd_inc nd c n) = nd_key_len nd" "nd_mem (nd_inc nd c n) = nd_mem nd"
  "nd_regions (nd_inc nd c n) = nd_regions nd" "nd_endpoint (nd_inc nd c n) = nd_endpoint nd"
  "nd_rails (nd_inc nd c n) = nd_rails nd" "nd_dir (nd_inc nd c n) = nd_dir nd"
  "nd_control_of (nd_inc nd c n) = nd_control_of nd"
  by (simp_all add: nd_inc_def nd_dir_def nd_control_of_def)

lemma disk_location_inc [simp]: "disk_location (nd_inc nd c n) = disk_location nd"
  by (simp add: disk_location_def fun_eq_iff)

lemma evicted_entries_inc [simp]: "evicted_entries (nd_inc nd c n) ev = evicted_entries nd ev"
  unfolding evicted_entries_def disk_location_inc nd_inc_simps ..

lemma disk_location_not_resident [simp]: "\<not> resident (disk_location nd len)"
  by (simp add: disk_location_def)

text \<open>After the callback no resident entry of an evicted page is left.\<close>

lemma on_pool_evict_node:
  "on_pool_evict e (nd, sh) ev = (nd', sh') \<Longrightarrow> nd' = nd_inc nd ''evictions'' (int (length ev))"
  by (auto simp: on_pool_evict_def Let_def split: option.splits)

lemma on_pool_evict_entry:
  assumes run: "on_pool_evict e (nd, sh) ev = (nd', sh')" and own: "own_entry nd sh' ep k l"
    and key: "\<And>ep k l. own_entry nd sh ep k l \<Longrightarrow>
      nd_reaches e nd k ep \<and> (nd_disk nd \<noteq> None \<longrightarrow> has_key (nd_key_len nd) k)"
  shows "own_entry nd sh ep k l \<and> k \<notin> set ev"
proof (cases "nd_disk nd")
  case None
  with run have sh': "sh' = node_dir_delete e nd sh ev"
    by (auto simp: on_pool_evict_def Let_def node_dir_delete_def)
  with own key [of ep k l] show ?thesis
    by (auto simp: own_entry_def node_dir_delete_def loc_at_delete nd_reaches_def split: if_splits)
next
  case (Some d)
  with run have sh': "sh' = (if evicted_entries nd ev \<noteq> [] then node_dir_put e nd sh (evicted_entries nd ev) else sh)"
    by (auto simp: on_pool_evict_def Let_def node_dir_put_def)
  have at: "loc_at (sh' ep) k =
      (case map_of (evicted_entries nd ev) k of
         Some l \<Rightarrow> if nd_reaches e nd k ep then Some l else loc_at (sh ep) k | None \<Rightarrow> loc_at (sh ep) k)"
    by (simp add: sh' node_dir_put_def loc_at_put [OF evicted_entries_dict(2)] nd_reaches_def split: option.split)
  show ?thesis
  proof (cases "map_of (evicted_entries nd ev) k")
    case None
    with at own key [of ep k l] Some show ?thesis
      by (auto simp: own_entry_def evicted_entries_dict(1) has_key_def split: if_splits)
  next
    case (Some l')
    then have "\<not> resident l'" by (auto simp: evicted_entries_dict(1) split: if_splits)
    with Some at own key [of ep k l] show ?thesis by (auto simp: own_entry_def split: if_splits)
  qed
qed

section \<open>Publishing into the pool\<close>

text \<open>What is outside the pool's region stays as it is.\<close>

definition keeps_outside :: "node \<Rightarrow> node \<Rightarrow> bool" where
  "keeps_outside nd nd' \<longleftrightarrow> (\<forall>a n. outside_pool nd a n \<longrightarrow> string_at (nd_mem nd') a n = string_at (nd_mem nd) a n)"

text \<open>What \<open>publish\<close> does to the entries of the pool and to the memory outside it.\<close>

definition publish_post :: "pool \<Rightarrow> mem \<Rightarrow> string \<Rightarrow> nat \<Rightarrow> pool \<times> mem \<times> nat option \<times> string list \<Rightarrow> bool" where
  "publish_post p m key len res = (case res of (p', m', r, ev) \<Rightarrow>
     pl_base p' = pl_base p \<and> pl_capacity p' = pl_capacity p \<and> pl_rkey p' = pl_rkey p \<and> pl_rkeys p' = pl_rkeys p \<and>
     key \<notin> set ev \<and>
     (\<forall>k. k \<noteq> key \<longrightarrow> map_of (pl_entries p') k = (if k \<in> set ev then None else map_of (pl_entries p) k)) \<and>
     map_of (pl_entries p') key =
       (case r of None \<Rightarrow> None
        | Some addr \<Rightarrow> Some (addr - pl_base p, case map_of (pl_entries p) key of None \<Rightarrow> len | Some (off, n) \<Rightarrow> n)) \<and>
     (\<forall>addr. r = Some addr \<longrightarrow> pl_base p \<le> addr) \<and>
     (\<forall>a n. disjoint_range a n (pl_base p) (pl_capacity p) \<longrightarrow> string_at m' a n = string_at m a n))"

lemma alloc_post_entries:
  assumes "pool_inv p" and "alloc_post p len (p', r, ev)"
  shows "map_of (pl_entries p') k = (if k \<in> set ev then None else map_of (pl_entries p) k)"
    and "map_of (pl_entries p) k = None \<Longrightarrow> k \<notin> set ev"
proof -
  have ev: "set ev = set (map fst (take (length ev) (pl_entries p)))" using assms(2) by (auto simp: alloc_post_def)
  show "map_of (pl_entries p') k = (if k \<in> set ev then None else map_of (pl_entries p) k)"
    unfolding ev using assms map_of_drop [of "pl_entries p" "length ev" k] by (simp add: alloc_post_def pool_inv_def)
  show "k \<notin> set ev" if "map_of (pl_entries p) k = None"
    unfolding ev using that by (auto simp: map_of_eq_None_iff dest: in_set_takeD)
qed

lemma map_of_insert_entry: "map_of (pl_entries (insert_entry p key off len)) k = (if k = key then Some (off, len) else map_of (pl_entries p) k)"
  by (simp add: insert_entry_def update_conv')

lemma publish_publish_post:
  assumes inv: "pool_inv p"
  shows "publish_post p m key len (publish p m key src len)"
proof -
  obtain p' m' r ev where pub: "publish p m key src len = (p', m', r, ev)" by (cases "publish p m key src len") auto
  from inv pub show ?thesis
  proof (cases rule: publish_cases)
    case (resident off ln)
    then show ?thesis by (simp add: publish_post_def pub)
  next
    case full
    note post = full(2)
    have "\<And>k. map_of (pl_entries p') k = (if k \<in> set ev then None else map_of (pl_entries p) k)"
      using alloc_post_entries(1) [OF inv post] .
    then show ?thesis using full alloc_post_entries(2) [OF inv post full(1)] post
      by (simp add: publish_post_def pub alloc_post_def)
  next
    case (stored p1 off)
    note post = stored(2)
    have "pool_inv p'" using publish_inv [OF inv, of m key src len] pub by simp
    moreover have "map_of (pl_entries p') key = Some (off, len)" by (simp add: stored map_of_insert_entry)
    ultimately have "off + len \<le> pl_capacity p'" by (rule pool_inv_bounds)
    moreover have fx: "pl_base p' = pl_base p" "pl_capacity p' = pl_capacity p" "pl_rkey p' = pl_rkey p" "pl_rkeys p' = pl_rkeys p"
      using post by (simp_all add: stored alloc_post_def insert_entry_def)
    ultimately have "string_at m' a n = string_at m a n" if "disjoint_range a n (pl_base p) (pl_capacity p)" for a n
      using that by (auto simp: stored disjoint_range_def intro!: string_at_write_disjoint)
    moreover have "map_of (pl_entries p') k = (if k \<in> set ev then None else map_of (pl_entries p) k)" if "k \<noteq> key" for k
      using that alloc_post_entries(1) [OF inv post] by (simp add: stored map_of_insert_entry)
    ultimately show ?thesis
      using fx stored alloc_post_entries(2) [OF inv post stored(1)]
      by (simp add: publish_post_def pub map_of_insert_entry)
  qed
qed

text \<open>
  A step of a node within an operation: it keeps the invariants of the node, and of the disk tier and
  the lengths what the caller needs.
\<close>

definition node_ok :: "env \<Rightarrow> (string \<Rightarrow> nat) \<Rightarrow> string set \<Rightarrow> (string \<times> bytes) set \<Rightarrow> node \<times> shards \<Rightarrow> bool" where
  "node_ok e sz K P s \<longleftrightarrow>
     pool_ok sz P (fst s) \<and> disk_ok e K P (fst s) \<and> dir_ok e (fst s) (snd s) \<and> shard_from UNIV (snd s) \<and>
     (\<forall>k n. map_of (nd_key_len (fst s)) k = Some n \<longrightarrow> n = sz k)"

lemma node_ok_lens: "node_ok e sz K P (nd, sh) \<Longrightarrow> map_of (nd_key_len nd) k = Some n \<Longrightarrow> n = sz k"
  by (simp add: node_ok_def)

lemma pool_ok_publish:
  assumes pool: "pool_ok sz P nd" "nd_pool nd = Some p"
    and pg: "(key, string_at (nd_mem nd) src (sz key)) \<in> P"
    and pub: "publish p (nd_mem nd) key src (sz key) = (p', m', r, ev)"
  shows "pool_ok sz P (nd\<lparr>nd_pool := Some p', nd_mem := m'\<rparr>)"
proof -
  have inv: "pool_inv p" and len: "\<And>k off len. map_of (pl_entries p) k = Some (off, len) \<Longrightarrow> len = sz k"
    and bytes: "\<And>k b. pages p (nd_mem nd) k = Some b \<Longrightarrow> (k, b) \<in> P"
    using pool by (auto simp: pool_ok_def)
  have post: "publish_post p (nd_mem nd) key (sz key) (p', m', r, ev)"
    using publish_publish_post [OF inv, of "nd_mem nd" key "sz key" src] pub by simp
  have "len = sz k" if "map_of (pl_entries p') k = Some (off, len)" for k off len
    using that post len by (cases "k = key") (auto simp: publish_post_def split: if_splits option.splits)
  moreover have "(k, b) \<in> P" if "pages p' m' k = Some b" for k b
    using that bytes [of k b] pg unfolding publish_view [OF inv pub]
    by (auto simp: restrict_map_def split: if_splits)
  moreover have "pool_inv p'" using publish_inv [OF inv, of "nd_mem nd" key src "sz key"] pub by simp
  ultimately show ?thesis by (simp add: pool_ok_def)
qed

lemma points_to_publish:
  assumes pt: "points_to nd k l" "nd_pool nd = Some p" and post: "publish_post p m key len (p', m', r, ev)"
    and k: "k \<notin> set ev" and r: "k = key \<longrightarrow> r \<noteq> None"
    and res: "k = key \<longrightarrow> (\<exists>off. r = Some (pl_base p + off) \<and> map_of (pl_entries p) key = Some (off, loc_length l))"
  shows "points_to (nd\<lparr>nd_pool := Some p', nd_mem := m''\<rparr>) k l"
  using assms by (cases "k = key") (auto simp: points_to_def publish_post_def)

lemma publish_resident:
  assumes "map_of (pl_entries p) key = Some (off, n)"
  shows "publish p m key src len = (p\<lparr>pl_entries := move_to_end key (pl_entries p)\<rparr>, m, Some (pl_base p + off), [])"
  using assms by (simp add: publish_def)

lemma dir_ok_publish:
  assumes dir: "dir_ok e nd sh" and p: "nd_pool nd = Some p" "pool_inv p"
    and pub: "publish p (nd_mem nd) key src len = (p', m', r, ev)"
    and own: "own_entry nd sh ep k l" "k \<notin> set ev"
  shows "points_to (nd\<lparr>nd_pool := Some p', nd_mem := m'\<rparr>) k l"
proof -
  have pt: "points_to nd k l" using dir_okD(3) [OF dir own(1)] .
  have post: "publish_post p (nd_mem nd) key len (p', m', r, ev)"
    using publish_publish_post [OF p(2), of "nd_mem nd" key len src] pub by simp
  show ?thesis
  proof (cases "k = key")
    case True
    from pt p(1) True obtain off where off: "map_of (pl_entries p) key = Some (off, loc_length l)" by (auto simp: points_to_def)
    from publish_resident [OF off] pub have "r = Some (pl_base p + off)" by simp
    with off show ?thesis by (intro points_to_publish [OF pt p(1) post own(2)]) auto
  qed (auto intro: points_to_publish [OF pt p(1) post own(2)])
qed

lemma own_entry_same: "same_node nd nd' \<Longrightarrow> own_entry nd' = own_entry nd"
  by (simp add: same_node_def own_entry_def fun_eq_iff)

lemma pool_publish_node:
  assumes run: "pool_publish e p (nd, sh) key src len = ((nd', sh'), r)"
    and pub: "publish p (nd_mem nd) key src len = (p', m', r', ev)"
  shows "r' = r" and "nd' = (if ev = [] then nd\<lparr>nd_pool := Some p', nd_mem := m'\<rparr>
    else nd_inc (nd\<lparr>nd_pool := Some p', nd_mem := m'\<rparr>) ''evictions'' (int (length ev)))"
    and "if ev = [] then sh' = sh else on_pool_evict e (nd\<lparr>nd_pool := Some p', nd_mem := m'\<rparr>, sh) ev = (nd', sh')"
  using run pub by (auto simp: pool_publish_def Let_def dest: on_pool_evict_node split: if_splits)

lemma dir_ok_pool_publish:
  assumes p: "nd_pool nd = Some p" "pool_inv p" and dir: "dir_ok e nd sh"
    and run: "pool_publish e p (nd, sh) key src len = ((nd', sh'), r)"
  shows "dir_ok e nd' sh'"
proof -
  obtain p' m' ev where pub: "publish p (nd_mem nd) key src len = (p', m', r, ev)"
    using pool_publish_node(1) [OF run] by (cases "publish p (nd_mem nd) key src len") auto
  define nd1 where "nd1 = nd\<lparr>nd_pool := Some p', nd_mem := m'\<rparr>"
  note node = pool_publish_node [OF run pub, folded nd1_def]
  have post: "publish_post p (nd_mem nd) key len (p', m', r, ev)"
    using publish_publish_post [OF p(2), of "nd_mem nd" key len src] pub by simp
  have fields: "nd_id nd1 = nd_id nd" "nd_disk nd1 = nd_disk nd" "nd_key_len nd1 = nd_key_len nd"
    "nd_reaches e nd1 = nd_reaches e nd" by (simp_all add: nd1_def nd_reaches_def nd_dir_def nd_control_of_def fun_eq_iff)
  have own1: "own_entry nd1 = own_entry nd" by (simp add: own_entry_def fields fun_eq_iff)
  have old: "own_entry nd sh ep k l \<and> k \<notin> set ev" if "own_entry nd1 sh' ep k l" for ep k l
  proof (cases "ev = []")
    case False
    with node have ev: "on_pool_evict e (nd1, sh) ev = (nd', sh')" by simp
    show ?thesis using on_pool_evict_entry [OF ev that] dir_okD [OF dir] unfolding own1 fields by blast
  qed (use that node own1 in auto)
  have "points_to nd1 k l \<and> nd_reaches e nd1 k ep \<and> (nd_disk nd1 \<noteq> None \<longrightarrow> has_key (nd_key_len nd1) k)"
    if "own_entry nd1 sh' ep k l" for ep k l
    using old [OF that] dir_ok_publish [OF dir p pub, folded nd1_def] dir_okD [OF dir] unfolding fields by blast
  moreover have "nd' = nd1 \<or> nd' = nd_inc nd1 ''evictions'' (int (length ev))" using node(2) by (auto split: if_splits)
  ultimately show ?thesis
    by (auto simp: dir_ok_def own_entry_def points_to_def nd_reaches_def)
qed

lemma node_dir_from:
  "shard_from UNIV sh \<Longrightarrow> dict_ok entries \<Longrightarrow> shard_from UNIV (node_dir_put e nd sh entries)"
  "shard_from UNIV sh \<Longrightarrow> shard_from UNIV (node_dir_delete e nd sh keys)"
  by (simp_all add: node_dir_put_def node_dir_delete_def dir_delete_from)
     (rule shard_from_mono [OF dir_put_from [of UNIV]], simp_all)

lemma on_pool_evict_from: "shard_from UNIV sh \<Longrightarrow> shard_from UNIV (snd (on_pool_evict e (nd, sh) ev))"
  by (auto simp: on_pool_evict_def Let_def node_dir_from evicted_entries_dict(2) split: option.split)

lemma pool_publish_ok:
  assumes ok: "node_ok e sz K P (nd, sh)" and p: "nd_pool nd = Some p"
    and pg: "(key, string_at (nd_mem nd) src (sz key)) \<in> P"
    and run: "pool_publish e p (nd, sh) key src (sz key) = ((nd', sh'), r)"
  shows "node_ok e sz K P (nd', sh')" and "same_node nd nd'" and "keeps_outside nd nd'"
    and "nd_key_len nd' = nd_key_len nd" and "nd_disk nd' = nd_disk nd"
    and "r = Some addr \<Longrightarrow> points_to nd' key (resident_location nd'' p'' addr (sz key))"
proof -
  obtain p' m' ev where pub: "publish p (nd_mem nd) key src (sz key) = (p', m', r, ev)"
    using pool_publish_node(1) [OF run] by (cases "publish p (nd_mem nd) key src (sz key)") auto
  note node = pool_publish_node [OF run pub]
  have pool: "pool_ok sz P nd" and inv: "pool_inv p" and len: "\<And>k off len. map_of (pl_entries p) k = Some (off, len) \<Longrightarrow> len = sz k"
    using ok p by (auto simp: node_ok_def pool_ok_def)
  have post: "publish_post p (nd_mem nd) key (sz key) (p', m', r, ev)"
    using publish_publish_post [OF inv, of "nd_mem nd" key "sz key" src] pub by simp
  show same: "same_node nd nd'" using node(2) post p
    by (simp add: same_node_def region_of_def publish_post_def split: if_splits)
  show "keeps_outside nd nd'" using node(2) post p
    by (simp add: keeps_outside_def outside_pool_def region_of_def publish_post_def split: if_splits)
  show lens: "nd_key_len nd' = nd_key_len nd" and disk: "nd_disk nd' = nd_disk nd" using node(2) by (simp_all split: if_splits)
  have "pool_ok sz P nd'" using pool_ok_publish [OF pool p pg pub] node(2) by (simp add: pool_ok_def split: if_splits)
  moreover have "dir_ok e nd' sh'" using dir_ok_pool_publish [OF p inv _ run] ok by (simp add: node_ok_def)
  moreover have "shard_from UNIV sh'" using node(3) ok on_pool_evict_from [of sh e "nd\<lparr>nd_pool := Some p', nd_mem := m'\<rparr>" ev]
    by (simp add: node_ok_def split: if_splits)
  ultimately show "node_ok e sz K P (nd', sh')" using ok disk lens by (simp add: node_ok_def disk_ok_def)
  show "points_to nd' key (resident_location nd'' p'' addr (sz key))" if r: "r = Some addr"
  proof -
    have "map_of (pl_entries p') key = Some (addr - pl_base p, sz key)" and "pl_base p \<le> addr" and "pl_base p' = pl_base p"
      using post r len by (auto simp: publish_post_def split: option.splits)
    then show ?thesis using node(2) by (auto simp: points_to_def resident_location_def split: if_splits)
  qed
qed

section \<open>A batch\<close>

lemma keeps_outside_trans: "keeps_outside a b \<Longrightarrow> keeps_outside b c \<Longrightarrow> same_node a b \<Longrightarrow> keeps_outside a c"
  by (simp add: keeps_outside_def same_node_outside)

lemma keeps_outside_refl [simp]: "keeps_outside nd nd"
  by (simp add: keeps_outside_def)

text \<open>Changes to a node that its directory entries do not see.\<close>

lemma node_ok_grow:
  assumes ok: "node_ok e sz K P (nd, sh)" and same: "same_node nd nd'" and pool: "nd_pool nd' = nd_pool nd" "nd_mem nd' = nd_mem nd"
    and disk: "disk_ok e K P nd'" and keys: "\<And>k. has_key (nd_key_len nd) k \<Longrightarrow> has_key (nd_key_len nd') k"
    and lens: "\<And>k n. map_of (nd_key_len nd') k = Some n \<Longrightarrow> n = sz k"
  shows "node_ok e sz K P (nd', sh)"
proof -
  have "dir_ok e nd' sh" unfolding dir_ok_def own_entry_same [OF same] same_node_reaches [OF same]
    using ok keys same pool unfolding node_ok_def dir_ok_def same_node_def points_to_def fst_conv snd_conv by metis
  then show ?thesis using ok disk pool lens by (simp add: node_ok_def pool_ok_def)
qed

lemma write_through_simps [simp]:
  "nd_id (write_through nd k d) = nd_id nd" "nd_runtime (write_through nd k d) = nd_runtime nd"
  "nd_pool (write_through nd k d) = nd_pool nd" "nd_key_len (write_through nd k d) = nd_key_len nd"
  "nd_mem (write_through nd k d) = nd_mem nd" "nd_regions (write_through nd k d) = nd_regions nd"
  "nd_disk (write_through nd k d) = map_option (\<lambda>s. disk_put s k d) (nd_disk nd)"
  "nd_endpoint (write_through nd k d) = nd_endpoint nd" "nd_rails (write_through nd k d) = nd_rails nd"
  by (simp_all add: write_through_def split: option.split)

lemma same_node_write_through [simp]: "same_node nd (write_through nd k d)"
  by (simp add: same_node_def region_of_def)

lemma disk_ok_put:
  assumes "disk_ok e K P nd" and "k \<in> K" and "(k, d) \<in> P"
  shows "disk_ok e K P (write_through nd k d)"
proof -
  have "insert (k, d) P = P" using assms(3) by auto
  then show ?thesis using assms(1) disk_put_inv [of "e_sha e" K P _ k d] assms(2) by (auto simp: disk_ok_def split: option.splits)
qed

definition entries_ok :: "(string \<Rightarrow> nat) \<Rightarrow> node \<Rightarrow> (string, data_location) dict \<Rightarrow> bool" where
  "entries_ok sz nd entries \<longleftrightarrow>
     dict_ok entries \<and>
     (\<forall>k l. map_of entries k = Some l \<longrightarrow> loc_node_id l = nd_id nd \<and> loc_length l = sz k \<and> has_key (nd_key_len nd) k)"

text \<open>A page a caller may publish: its length and bytes are those of its key, and it is not in the pool.\<close>

definition page_ok :: "(string \<Rightarrow> nat) \<Rightarrow> string set \<Rightarrow> (string \<times> bytes) set \<Rightarrow> node \<Rightarrow> string \<times> nat \<times> nat \<Rightarrow> bool" where
  "page_ok sz K P nd page \<longleftrightarrow> (case page of (key, ptr, len) \<Rightarrow>
     len = sz key \<and> key \<in> K \<and> outside_pool nd ptr len \<and> (key, string_at (nd_mem nd) ptr len) \<in> P)"

lemma page_ok_step: "page_ok sz K P nd page \<Longrightarrow> same_node nd nd' \<Longrightarrow> keeps_outside nd nd' \<Longrightarrow> page_ok sz K P nd' page"
  by (auto simp: page_ok_def keeps_outside_def same_node_outside)

lemma publish_one_ok:
  assumes ok: "node_ok e sz K P (nd, sh)" and pg: "page_ok sz K P nd (key, ptr, len)" and ent: "entries_ok sz nd entries"
    and run: "publish_one e ((key, ptr, len), ex) ((nd, sh), entries, results, n) = ((nd', sh'), entries', results', n')"
  shows "node_ok e sz K P (nd', sh') \<and> same_node nd nd' \<and> keeps_outside nd nd' \<and> entries_ok sz nd' entries'"
proof (cases ex)
  case False
  obtain p where p: "nd_pool nd = Some p" using ok by (auto simp: node_ok_def pool_ok_def)
  have len: "len = sz key" "key \<in> K" "outside_pool nd ptr len" "(key, string_at (nd_mem nd) ptr (sz key)) \<in> P"
    using pg by (auto simp: page_ok_def)
  obtain nd1 sh1 r where pp: "pool_publish e p (nd, sh) key ptr (sz key) = ((nd1, sh1), r)"
    by (cases "pool_publish e p (nd, sh) key ptr (sz key)") auto
  note one = pool_publish_ok [OF ok p len(4) pp]
  show ?thesis
  proof (cases r)
    case None
    with run False p pp len(1) have "nd' = nd1" "sh' = sh1" "entries' = entries" by (auto simp: publish_one_def)
    then show ?thesis using one(1-4) ent by (auto simp: entries_ok_def same_node_def)
  next
    case (Some addr)
    define nd2 where "nd2 = write_through nd1 key (string_at (nd_mem nd1) ptr (sz key))"
    define nd3 where "nd3 = nd2\<lparr>nd_key_len := AList.update key (sz key) (nd_key_len nd2)\<rparr>"
    have res: "nd' = nd3" "sh' = sh1" "entries' = AList.update key (resident_location nd3 p addr (sz key)) entries"
      using run False p pp len(1) Some by (auto simp: publish_one_def nd2_def nd3_def Let_def)
    have mem: "string_at (nd_mem nd1) ptr (sz key) = string_at (nd_mem nd) ptr (sz key)"
      using one(3) len(1,3) by (simp add: keeps_outside_def)
    have same: "same_node nd1 nd3" by (simp add: nd3_def nd2_def same_node_def region_of_def)
    have disk: "disk_ok e K P nd3"
      using disk_ok_put [of e K P nd1 key "string_at (nd_mem nd1) ptr (sz key)"] one(1) len mem
      by (simp add: nd3_def nd2_def node_ok_def disk_ok_def)
    have "node_ok e sz K P (nd3, sh1)"
      using one(1) by (intro node_ok_grow [OF one(1) same _ _ disk])
        (auto simp: nd3_def nd2_def has_key_def update_conv' node_ok_def split: if_splits)
    moreover have "same_node nd nd3" using same_node_trans [OF one(2) same] .
    moreover have "keeps_outside nd nd3" using one(3) by (simp add: keeps_outside_def nd3_def nd2_def)
    moreover have "entries_ok sz nd3 entries'"
      using ent one(4) one(2) by (auto simp: entries_ok_def res nd3_def nd2_def resident_location_def has_key_def update_conv' same_node_def)
    ultimately show ?thesis by (simp add: res)
  qed
qed (use run ok ent in \<open>auto simp: publish_one_def\<close>)

lemma publish_fold_ok:
  assumes "node_ok e sz K P (nd, sh)" and "\<forall>pg \<in> set pgs. page_ok sz K P nd (fst pg)" and "entries_ok sz nd entries"
    and "fold (publish_one e) pgs ((nd, sh), entries, results, n) = ((nd', sh'), entries', results', n')"
  shows "node_ok e sz K P (nd', sh') \<and> same_node nd nd' \<and> keeps_outside nd nd' \<and> entries_ok sz nd' entries'"
  using assms
proof (induction pgs arbitrary: nd sh entries results n)
  case (Cons pg pgs)
  obtain key ptr len ex where pg: "pg = ((key, ptr, len), ex)" by (cases pg) auto
  obtain nd1 sh1 en1 re1 n1 where one: "publish_one e pg ((nd, sh), entries, results, n) = ((nd1, sh1), en1, re1, n1)"
    by (cases "publish_one e pg ((nd, sh), entries, results, n)") auto
  have step: "node_ok e sz K P (nd1, sh1) \<and> same_node nd nd1 \<and> keeps_outside nd nd1 \<and> entries_ok sz nd1 en1"
    using publish_one_ok [OF Cons.prems(1) _ Cons.prems(3) one [unfolded pg]] Cons.prems(2) by (simp add: pg)
  have rest: "fold (publish_one e) pgs ((nd1, sh1), en1, re1, n1) = ((nd', sh'), entries', results', n')"
    using Cons.prems(4) one by simp
  have "\<forall>pg \<in> set pgs. page_ok sz K P nd1 (fst pg)" using Cons.prems(2) step by (auto intro: page_ok_step)
  from Cons.IH [OF _ this _ rest] step show ?case
    by (meson keeps_outside_trans same_node_trans)
qed auto

text \<open>Looking a page up only changes the recency order.\<close>

definition touches :: "node \<Rightarrow> node \<Rightarrow> bool" where
  "touches nd nd' \<longleftrightarrow>
     (\<exists>p p'. nd_pool nd = Some p \<and> nd' = nd\<lparr>nd_pool := Some p'\<rparr> \<and> (pool_inv p \<longrightarrow> pool_inv p') \<and>
        pl_base p' = pl_base p \<and> pl_capacity p' = pl_capacity p \<and> map_of (pl_entries p') = map_of (pl_entries p))"

lemma address_of_touches:
  assumes "nd_pool nd = Some p" and "address_of p k = (p', r)"
  shows "touches nd (nd\<lparr>nd_pool := Some p'\<rparr>)"
proof -
  have "pool_inv p \<longrightarrow> pool_inv p'" using address_of_inv [of p k] assms(2) by simp
  moreover have "pl_base p' = pl_base p \<and> pl_capacity p' = pl_capacity p \<and> map_of (pl_entries p') = map_of (pl_entries p)"
    using assms(2) by (cases "map_of (pl_entries p) k") (auto simp: address_of_def)
  ultimately show ?thesis unfolding touches_def using assms(1) by (intro exI [of _ p] exI [of _ p']) simp
qed

lemma touches_refl: "nd_pool nd = Some p \<Longrightarrow> touches nd nd"
  by (cases nd) (auto simp: touches_def)

lemma touches_trans: "touches a b \<Longrightarrow> touches b c \<Longrightarrow> touches a c"
  by (auto simp: touches_def)

lemma touches_points_to: "touches nd nd' \<Longrightarrow> points_to nd' k l \<longleftrightarrow> points_to nd k l"
  by (auto simp: touches_def points_to_def)

lemma touches_ok:
  assumes ok: "node_ok e sz K P (nd, sh)" and t: "touches nd nd'"
  shows "node_ok e sz K P (nd', sh)" and "same_node nd nd'" and "nd_mem nd' = nd_mem nd"
    and "nd_key_len nd' = nd_key_len nd" and "nd_disk nd' = nd_disk nd"
proof -
  show same: "same_node nd nd'" and eqs: "nd_mem nd' = nd_mem nd" "nd_key_len nd' = nd_key_len nd" "nd_disk nd' = nd_disk nd"
    using t by (auto simp: touches_def same_node_def region_of_def)
  have "pool_ok sz P nd'" using ok t by (auto simp: node_ok_def pool_ok_def touches_def pages_def)
  moreover have "dir_ok e nd' sh" using ok
    unfolding node_ok_def dir_ok_def own_entry_same [OF same] same_node_reaches [OF same] eqs touches_points_to [OF t] by simp
  ultimately show "node_ok e sz K P (nd', sh)" using ok by (simp add: node_ok_def disk_ok_def eqs)
qed

lemma address_of_points_to:
  assumes "nd_pool nd = Some p" and "address_of p k = (p', Some (addr, len))"
    and "remote_addr l = addr" and "loc_length l = len"
  shows "points_to nd k l"
  using assms by (auto simp: address_of_def points_to_def split: option.splits)

definition settled :: "node \<Rightarrow> (string, data_location) dict \<Rightarrow> string \<Rightarrow> bool" where
  "settled nd entries k \<longleftrightarrow> (\<forall>l. map_of entries k = Some l \<longrightarrow> resident l \<longrightarrow> points_to nd k l)"

lemma reconcile_one_ok:
  assumes ok: "node_ok e sz K P (nd, sh)" and ent: "entries_ok sz nd entries"
    and run: "reconcile_one key (nd, entries) = (nd', entries')"
  shows "touches nd nd' \<and> entries_ok sz nd' entries' \<and> (\<forall>k. has_key entries' k \<longleftrightarrow> has_key entries k) \<and>
    (\<forall>k. k = key \<or> settled nd entries k \<longrightarrow> settled nd' entries' k)"
proof -
  obtain p where p: "nd_pool nd = Some p" and len: "\<And>k off len. map_of (pl_entries p) k = Some (off, len) \<Longrightarrow> len = sz k"
    using ok by (auto simp: node_ok_def pool_ok_def)
  show ?thesis
  proof (cases "map_of entries key")
    case None
    with run p have "nd' = nd" "entries' = entries" by (simp_all add: reconcile_one_def)
    moreover have "settled nd entries key" using None by (simp add: settled_def)
    ultimately show ?thesis using touches_refl [OF p] ent by simp
  next
    case (Some l)
    have l: "loc_node_id l = nd_id nd" "loc_length l = sz key" "has_key (nd_key_len nd) key" using ent Some by (auto simp: entries_ok_def)
    obtain p' r where a: "address_of p key = (p', r)" by (cases "address_of p key") auto
    show ?thesis
    proof (cases r)
      case None
      obtain n where n: "map_of (nd_key_len nd) key = Some n" using l(3) by (auto simp: has_key_def)
      then have "n = sz key" by (rule node_ok_lens [OF ok])
      note n = n this
      have "nd' = nd" and en: "entries' = AList.update key (disk_location nd n) entries"
        using run p Some a None n(1) by (auto simp: reconcile_one_def)
      moreover have "entries_ok sz nd entries'" using ent n l
        by (simp add: en entries_ok_def update_conv' disk_location_def)
      moreover have "has_key entries' k \<longleftrightarrow> has_key entries k" for k using Some by (simp add: en has_key_def update_conv')
      moreover have "settled nd entries' k" if "k = key \<or> settled nd entries k" for k
        using that by (auto simp: en settled_def update_conv')
      ultimately show ?thesis using touches_refl [OF p] by simp
    next
      case al: (Some al)
      obtain addr n where an: "al = (addr, n)" by fastforce
      have nd': "nd' = nd\<lparr>nd_pool := Some p'\<rparr>" and en: "entries' = AList.update key (l\<lparr>remote_addr := addr\<rparr>) entries"
        using run p Some a al an by (auto simp: reconcile_one_def)
      have t: "touches nd nd'" using address_of_touches [OF p a] by (simp add: nd')
      have "n = sz key" using a al an len by (auto simp: address_of_def split: option.splits)
      then have "points_to nd key (l\<lparr>remote_addr := addr\<rparr>)"
        using address_of_points_to [OF p a [unfolded al an]] l(2) by simp
      then have "settled nd' entries' k" if "k = key \<or> settled nd entries k" for k
        using that by (auto simp: en settled_def update_conv' touches_points_to [OF t])
      moreover have "entries_ok sz nd' entries'" using ent l by (simp add: en nd' entries_ok_def update_conv')
      moreover have "has_key entries' k \<longleftrightarrow> has_key entries k" for k using Some by (simp add: en has_key_def update_conv')
      ultimately show ?thesis using t by simp
    qed
  qed
qed

lemma reconcile_fold_ok:
  assumes "node_ok e sz K P (nd, sh)" and "entries_ok sz nd entries" and "fold reconcile_one ks (nd, entries) = (nd', entries')"
  shows "touches nd nd' \<and> entries_ok sz nd' entries' \<and> (\<forall>k. has_key entries' k \<longleftrightarrow> has_key entries k) \<and>
    (\<forall>k. k \<in> set ks \<or> settled nd entries k \<longrightarrow> settled nd' entries' k)"
  using assms
proof (induction ks arbitrary: nd entries)
  case Nil
  then obtain p where "nd_pool nd = Some p" by (auto simp: node_ok_def pool_ok_def)
  then show ?case using Nil by (auto simp: touches_refl)
next
  case (Cons k ks)
  obtain nd1 en1 where one: "reconcile_one k (nd, entries) = (nd1, en1)" by (cases "reconcile_one k (nd, entries)") auto
  note step = reconcile_one_ok [OF Cons.prems(1,2) one]
  have ok1: "node_ok e sz K P (nd1, sh)" using touches_ok(1) [OF Cons.prems(1)] step by blast
  have "fold reconcile_one ks (nd1, en1) = (nd', entries')" using Cons.prems(3) one by simp
  note IH = Cons.IH [OF ok1 _ this]
  show ?case using IH step touches_trans [of nd nd1 nd'] by auto
qed

section \<open>Entries of other nodes\<close>

text \<open>What a node does never makes up an entry for another node.\<close>

definition keeps_foreign :: "string \<Rightarrow> shards \<Rightarrow> shards \<Rightarrow> bool" where
  "keeps_foreign i sh sh' \<longleftrightarrow>
     (\<forall>ep k l. loc_at (sh' ep) k = Some l \<and> loc_node_id l \<noteq> i \<longrightarrow> loc_at (sh ep) k = Some l)"

lemma keeps_foreign_refl [simp]: "keeps_foreign i sh sh"
  by (simp add: keeps_foreign_def)

lemma keeps_foreign_trans: "keeps_foreign i a b \<Longrightarrow> keeps_foreign i b c \<Longrightarrow> keeps_foreign i a c"
  unfolding keeps_foreign_def by blast

lemma keeps_foreign_delete [simp]: "keeps_foreign i sh (node_dir_delete e nd sh keys)"
  by (simp add: keeps_foreign_def node_dir_delete_def loc_at_delete)

lemma keeps_foreign_put:
  assumes "dict_ok entries" and "\<And>k l. map_of entries k = Some l \<Longrightarrow> loc_node_id l = i"
  shows "keeps_foreign i sh (node_dir_put e nd sh entries)"
  using assms(2) by (auto simp: keeps_foreign_def node_dir_put_def loc_at_put [OF assms(1)] split: option.splits if_splits)

lemma keeps_foreign_entries: "entries_ok sz nd entries \<Longrightarrow> keeps_foreign (nd_id nd) sh (node_dir_put e nd sh entries)"
  by (rule keeps_foreign_put) (simp_all add: entries_ok_def)

lemma on_pool_evict_foreign: "keeps_foreign (nd_id nd) sh (snd (on_pool_evict e (nd, sh) ev))"
proof -
  have "keeps_foreign (nd_id nd) sh (node_dir_put e nd' sh (evicted_entries nd ev))" for nd'
    by (rule keeps_foreign_put) (auto simp: evicted_entries_dict disk_location_def split: if_splits)
  then show ?thesis by (auto simp: on_pool_evict_def Let_def split: option.split)
qed

lemma pool_publish_foreign:
  assumes "pool_publish e p (nd, sh) key src len = ((nd', sh'), r)"
  shows "keeps_foreign (nd_id nd) sh sh'"
proof -
  obtain p' m' r' ev where pub: "publish p (nd_mem nd) key src len = (p', m', r', ev)"
    by (cases "publish p (nd_mem nd) key src len") auto
  show ?thesis using pool_publish_node(3) [OF assms pub] on_pool_evict_foreign [of "nd\<lparr>nd_pool := Some p', nd_mem := m'\<rparr>" sh e ev]
    by (auto split: if_splits)
qed

lemma pool_publish_id: "pool_publish e p (nd, sh) key src len = ((nd', sh'), r) \<Longrightarrow> nd_id nd' = nd_id nd"
  by (cases "publish p (nd_mem nd) key src len") (auto dest!: pool_publish_node(2) split: if_splits)

lemma publish_one_foreign:
  assumes "publish_one e pg ((nd, sh), acc) = ((nd', sh'), acc')"
  shows "keeps_foreign (nd_id nd) sh sh' \<and> nd_id nd' = nd_id nd"
  using assms by (cases pg; cases acc)
    (auto simp: publish_one_def Let_def dest: pool_publish_foreign pool_publish_id split: if_splits option.splits prod.splits)

lemma publish_fold_foreign:
  "fold (publish_one e) pgs ((nd, sh), acc) = ((nd', sh'), acc') \<Longrightarrow> keeps_foreign (nd_id nd) sh sh' \<and> nd_id nd' = nd_id nd"
proof (induction pgs arbitrary: nd sh acc)
  case (Cons pg pgs)
  obtain nd1 sh1 acc1 where one: "publish_one e pg ((nd, sh), acc) = ((nd1, sh1), acc1)"
    by (cases "publish_one e pg ((nd, sh), acc)") auto
  with Cons.prems have "fold (publish_one e) pgs ((nd1, sh1), acc1) = ((nd', sh'), acc')" by simp
  from Cons.IH [OF this] publish_one_foreign [OF one] show ?case by (auto intro: keeps_foreign_trans)
qed simp

section \<open>The directory after a batch\<close>

lemma dir_put_ok:
  assumes ok: "node_ok e sz K P (nd, sh)" and ent: "entries_ok sz nd entries" and set: "\<And>k. settled nd entries k"
  shows "node_ok e sz K P (nd, node_dir_put e nd sh entries)"
proof -
  have dict: "dict_ok entries" using ent by (simp add: entries_ok_def)
  have "nd_reaches e nd k ep \<and> (nd_disk nd \<noteq> None \<longrightarrow> has_key (nd_key_len nd) k) \<and> points_to nd k l"
    if own: "own_entry nd (node_dir_put e nd sh entries) ep k l" for ep k l
  proof (cases "nd_reaches e nd k ep \<and> map_of entries k = Some l")
    case True
    then show ?thesis using set [of k] ent own by (simp add: settled_def entries_ok_def own_entry_def)
  next
    case False
    then have "own_entry nd sh ep k l" using own
      by (auto simp: own_entry_def node_dir_put_def loc_at_put [OF dict] nd_reaches_def split: option.splits if_splits)
    then show ?thesis using ok by (auto simp: node_ok_def dir_ok_def)
  qed
  then have "dir_ok e nd (node_dir_put e nd sh entries)" by (rule dir_okI)
  then show ?thesis using ok node_dir_from(1) [OF _ dict] by (simp add: node_ok_def)
qed

lemma entries_ok_Nil [simp]: "entries_ok sz nd []"
  by (simp add: entries_ok_def)

lemma zip_fst_set: "pg \<in> set (zip xs ys) \<Longrightarrow> fst pg \<in> set xs"
  by (cases pg) (auto dest: set_zip_leftD)

lemma node_ok_metrics: "node_ok e sz K P (nd, sh) \<Longrightarrow> node_ok e sz K P (nd\<lparr>nd_metrics := mx\<rparr>, sh)"
  by (rule node_ok_grow) (auto simp: same_node_def region_of_def node_ok_def disk_ok_def)

lemma publish_p2p_ok:
  assumes ok: "node_ok e sz K P (nd, sh)" and pgs: "\<forall>pg \<in> set (zip keys (zip ptrs sizes)). page_ok sz K P nd pg"
    and run: "publish_p2p e upd (nd, sh) keys ptrs sizes = ((nd', sh'), r)"
  shows "node_ok e sz K P (nd', sh')" and "same_node nd nd'" and "keeps_foreign (nd_id nd) sh sh'"
proof -
  obtain p where p: "nd_pool nd = Some p" using ok by (auto simp: node_ok_def pool_ok_def)
  let ?pgs = "zip (zip keys (zip ptrs sizes)) (node_dir_exists e nd sh keys)"
  obtain nd1 sh1 en1 re1 n1 where f: "fold (publish_one e) ?pgs ((nd, sh), [], [], 0) = ((nd1, sh1), en1, re1, n1)"
    by (cases "fold (publish_one e) ?pgs ((nd, sh), [], [], 0)") auto
  have "\<forall>pg \<in> set ?pgs. page_ok sz K P nd (fst pg)" using pgs zip_fst_set by blast
  note one = publish_fold_ok [OF ok this entries_ok_Nil f]
  obtain nd2 en2 where rec: "reconcile (nd1, en1) = (nd2, en2)" by (cases "reconcile (nd1, en1)") auto
  then have rf: "fold reconcile_one (map fst en1) (nd1, en1) = (nd2, en2)" by (simp add: reconcile_def)
  have ok1: "node_ok e sz K P (nd1, sh1)" and ent1: "entries_ok sz nd1 en1" using one by auto
  note two = reconcile_fold_ok [OF ok1 ent1 rf]
  have ok2: "node_ok e sz K P (nd2, sh1)" and same2: "same_node nd1 nd2" using touches_ok(1,2) [OF ok1] two by auto
  have "settled nd2 en2 k" for k
  proof (cases "has_key en1 k")
    case True
    then have "k \<in> set (map fst en1)" by (simp add: has_key_iff)
    then show ?thesis using two by blast
  next
    case False
    then have "\<not> has_key en2 k" using two by blast
    then have "map_of en2 k = None" by (simp add: has_key_def)
    then show ?thesis by (simp add: settled_def)
  qed
  then have ok3: "node_ok e sz K P (nd2, if en2 \<noteq> [] \<and> upd then node_dir_put e nd2 sh1 en2 else sh1)"
    using ok2 dir_put_ok [OF ok2, of en2] two by auto
  have "nd' = nd2\<lparr>nd_metrics := record_write (nd_metrics nd2) (int n1) (e_dt e)\<rparr>"
    and sh': "sh' = (if en2 \<noteq> [] \<and> upd then node_dir_put e nd2 sh1 en2 else sh1)"
    using run f rec p by (auto simp: publish_p2p_def Let_def)
  then show "node_ok e sz K P (nd', sh')" and "same_node nd nd'"
    using node_ok_metrics [OF ok3] one same2 by (auto simp: same_node_def region_of_def)
  have "nd_id nd2 = nd_id nd" using one same2 by (simp add: same_node_def)
  moreover have "keeps_foreign (nd_id nd2) sh1 sh'" using keeps_foreign_entries [of sz nd2 en2 sh1 e] two by (simp add: sh')
  ultimately show "keeps_foreign (nd_id nd) sh sh'" using publish_fold_foreign [OF f] by (auto intro: keeps_foreign_trans)
qed

section \<open>The disk tier\<close>

lemma on_disk_evict_ok:
  assumes ok: "node_ok e sz K P (nd, sh)" and run: "on_disk_evict e (nd, sh) ev = (nd', sh')"
  shows "node_ok e sz K P (nd', sh')" and "same_node nd nd'" and "keeps_foreign i sh sh'"
proof -
  have nd': "nd' = (nd_inc nd ''disk_evictions'' (int (length ev)))\<lparr>nd_key_len := fold AList.delete ev (nd_key_len nd)\<rparr>"
    using run by (simp add: on_disk_evict_def Let_def split: prod.splits)
  have eqs: "nd_id nd' = nd_id nd" "nd_pool nd' = nd_pool nd" "nd_mem nd' = nd_mem nd" "nd_disk nd' = nd_disk nd"
    "nd_key_len nd' = fold AList.delete ev (nd_key_len nd)" by (simp_all add: nd')
  show same: "same_node nd nd'" by (simp add: nd' same_node_def region_of_def)
  have sh': "sh' = node_dir_delete e nd sh ev" using run by (auto simp: on_disk_evict_def Let_def nd' node_dir_delete_def nd_dir_def nd_control_of_def)
  then show "keeps_foreign i sh sh'" by simp
  have "nd_reaches e nd' k ep \<and> (nd_disk nd' \<noteq> None \<longrightarrow> has_key (nd_key_len nd') k) \<and> points_to nd' k l"
    if own: "own_entry nd' sh' ep k l" for ep k l
  proof -
    have "own_entry nd sh ep k l" and "\<not> (k \<in> set ev \<and> nd_reaches e nd k ep)" using own
      by (auto simp: own_entry_def sh' node_dir_delete_def loc_at_delete nd_reaches_def eqs split: if_splits)
    then show ?thesis using ok unfolding node_ok_def dir_ok_def same_node_reaches [OF same] points_to_def eqs
      by (auto simp: has_key_def map_of_fold_delete)
  qed
  then have "dir_ok e nd' sh'" by (rule dir_okI)
  then show "node_ok e sz K P (nd', sh')" using ok node_dir_from(2) [of sh e nd ev]
    by (simp add: node_ok_def pool_ok_def disk_ok_def eqs map_of_fold_delete sh' split: if_splits)
qed

lemma disk_work_ok:
  assumes inj: "inj_on (safe_name (e_sha e)) K" and ok: "node_ok e sz K P (nd, sh)" and run: "disk_work e io iof (nd, sh) = (nd', sh')"
  shows "node_ok e sz K P (nd', sh')" and "same_node nd nd'" and "keeps_foreign i sh sh'"
proof -
  have "node_ok e sz K P (nd', sh') \<and> same_node nd nd' \<and> keeps_foreign i sh sh'"
  proof (cases "nd_disk nd")
    case None
    then show ?thesis using run ok by (simp add: disk_work_def)
  next
    case (Some d)
    show ?thesis
    proof (cases "disk_run_one (e_sha e) io iof d")
      case None
      then show ?thesis using run ok Some by (simp add: disk_work_def)
    next
      case (Some r)
      obtain d' ev where r: "r = (d', ev)" by fastforce
      let ?nd = "nd\<lparr>nd_disk := Some d'\<rparr>"
      have same: "same_node nd ?nd" using \<open>nd_disk nd = Some d\<close> by (simp add: same_node_def region_of_def)
      have "disk_inv (e_sha e) K P d" using ok \<open>nd_disk nd = Some d\<close> by (simp add: node_ok_def disk_ok_def)
      from disk_run_one_inv [OF inj this Some [unfolded r]] have "disk_ok e K P ?nd" by (simp add: disk_ok_def)
      then have ok1: "node_ok e sz K P (?nd, sh)"
        by (intro node_ok_grow [OF ok same]) (auto intro: node_ok_lens [OF ok])
      show ?thesis
      proof (cases "ev = []")
        case True
        then show ?thesis using run ok1 same Some r \<open>nd_disk nd = Some d\<close> by (auto simp: disk_work_def)
      next
        case False
        then have "on_disk_evict e (?nd, sh) ev = (nd', sh')" using run Some r \<open>nd_disk nd = Some d\<close> by (simp add: disk_work_def)
        from on_disk_evict_ok [OF ok1 this] same_node_trans [OF same] show ?thesis by blast
      qed
    qed
  qed
  then show "node_ok e sz K P (nd', sh')" and "same_node nd nd'" and "keeps_foreign i sh sh'" by blast+
qed

section \<open>Promotion\<close>

lemma pool_ok_write_outside:
  assumes ok: "pool_ok sz P nd" and out: "outside_pool nd a (length bs)"
  shows "pool_ok sz P (nd\<lparr>nd_mem := write_bytes (nd_mem nd) a bs\<rparr>)"
proof -
  obtain p where p: "nd_pool nd = Some p" "pool_inv p" using ok by (auto simp: pool_ok_def)
  have "string_at (write_bytes (nd_mem nd) a bs) (pl_base p + off) len = string_at (nd_mem nd) (pl_base p + off) len"
    if "map_of (pl_entries p) k = Some (off, len)" for k off len
    using out pool_inv_bounds [OF p(2) that] p(1)
    by (intro string_at_write_disjoint) (auto simp: outside_pool_def region_of_def disjoint_range_def)
  then have "pages p (write_bytes (nd_mem nd) a bs) k = pages p (nd_mem nd) k" for k
    by (cases "map_of (pl_entries p) k") (auto simp: pages_def)
  then have "pages p (write_bytes (nd_mem nd) a bs) = pages p (nd_mem nd)" by (rule ext)
  then show ?thesis using ok p by (simp add: pool_ok_def)
qed

lemma node_ok_write_outside:
  assumes ok: "node_ok e sz K P (nd, sh)" and out: "outside_pool nd a (length bs)"
  shows "node_ok e sz K P (nd\<lparr>nd_mem := write_bytes (nd_mem nd) a bs\<rparr>, sh)"
proof -
  have "dir_ok e (nd\<lparr>nd_mem := m\<rparr>) sh \<longleftrightarrow> dir_ok e nd sh" for m
    by (simp add: dir_ok_def own_entry_def points_to_def nd_reaches_def nd_dir_def nd_control_of_def)
  then show ?thesis using ok pool_ok_write_outside [OF _ out, of sz P] by (simp add: node_ok_def disk_ok_def)
qed

lemma disk_get_page:
  assumes "disk_inv sha1 K P d" and "disk_get d k = (d', Some data)"
  shows "(k, data) \<in> P"
proof -
  obtain n l where "map_of (ds_index d) k = Some (n, l)"
    using assms(2) by (cases "map_of (ds_index d) k") (auto simp: disk_get_def)
  from disk_get_entry [OF assms(1) this] assms(2) show ?thesis by auto
qed

lemma node_ok_disk:
  assumes ok: "node_ok e sz K P (nd, sh)" and d: "nd_disk nd = Some d" and inv: "disk_inv (e_sha e) K P d'"
  shows "node_ok e sz K P (nd\<lparr>nd_disk := Some d'\<rparr>, sh)" and "same_node nd (nd\<lparr>nd_disk := Some d'\<rparr>)"
proof -
  show same: "same_node nd (nd\<lparr>nd_disk := Some d'\<rparr>)" using d by (simp add: same_node_def region_of_def)
  show "node_ok e sz K P (nd\<lparr>nd_disk := Some d'\<rparr>, sh)"
    using inv by (intro node_ok_grow [OF ok same]) (auto simp: disk_ok_def intro: node_ok_lens [OF ok])
qed

text \<open>A page copied into the pool from a temporary buffer.\<close>

lemma promote_page_ok:
  assumes ok: "node_ok e sz K P (nd, sh)" and p: "nd_pool nd = Some p" and out: "outside_pool nd (e_buf e) (sz k)"
    and b: "(k, b) \<in> P" "length b = sz k"
    and pp: "pool_publish e p (nd\<lparr>nd_mem := write_bytes (nd_mem nd) (e_buf e) b\<rparr>, sh) k (e_buf e) (sz k) = ((nd2, sh2), r2)"
  shows "node_ok e sz K P (nd2, sh2)" and "same_node nd nd2" and "keeps_foreign (nd_id nd) sh sh2"
    and "r2 = Some addr \<Longrightarrow> points_to nd2 k (resident_location nd2 p addr (sz k))"
proof -
  define nd1 where "nd1 = nd\<lparr>nd_mem := write_bytes (nd_mem nd) (e_buf e) b\<rparr>"
  have nd1: "node_ok e sz K P (nd1, sh)" "nd_pool nd1 = Some p"
    using node_ok_write_outside [OF ok, of "e_buf e" b] out b(2) p by (simp_all add: nd1_def)
  have same: "same_node nd nd1" by (simp add: nd1_def same_node_def region_of_def)
  have pg: "(k, string_at (nd_mem nd1) (e_buf e) (sz k)) \<in> P"
    using b(1) string_at_write_same [of "nd_mem nd" "e_buf e" b] by (simp add: nd1_def b(2))
  note two = pool_publish_ok [OF nd1 pg pp [folded nd1_def]]
  show "node_ok e sz K P (nd2, sh2)" by (rule two(1))
  show "same_node nd nd2" using same_node_trans [OF same two(2)] .
  show "keeps_foreign (nd_id nd) sh sh2" using pool_publish_foreign [OF pp] by simp
  show "points_to nd2 k (resident_location nd2 p addr (sz k))" if "r2 = Some addr" by (rule two(6) [OF that])
qed

lemma promoted_ok:
  assumes ok: "node_ok e sz K P (nd, sh)" and pt: "points_to nd k (resident_location nd p addr (sz k))"
    and nd': "nd' = nd_inc (nd\<lparr>nd_key_len := AList.update k (sz k) (nd_key_len nd)\<rparr>) ''promotes'' 1"
    and loc: "loc = resident_location nd p addr (sz k)"
  shows "node_ok e sz K P (nd', sh)" and "same_node nd nd'" and "points_to nd' k loc"
    and "entries_ok sz nd' [(k, loc)]" and "\<forall>k'. settled nd' [(k, loc)] k'" and "loc_node_id loc = nd_id nd"
proof -
  show same: "same_node nd nd'" by (simp add: nd' same_node_def region_of_def)
  show "node_ok e sz K P (nd', sh)"
    using ok by (intro node_ok_grow [OF ok same]) (auto simp: nd' has_key_def update_conv' node_ok_def disk_ok_def split: if_splits)
  show pt': "points_to nd' k loc" using pt by (simp add: points_to_def nd' loc)
  show "entries_ok sz nd' [(k, loc)]" by (simp add: entries_ok_def dict_ok_def nd' loc resident_location_def has_key_def update_conv')
  show "\<forall>k'. settled nd' [(k, loc)] k'" using pt' by (simp add: settled_def)
  show "loc_node_id loc = nd_id nd" by (simp add: loc resident_location_def)
qed

text \<open>
  One key: the answer, when there is one, names the page in the pool, and so does the dictionary of
  promoted keys.
\<close>

definition promotion_ok ::
  "env \<Rightarrow> (string \<Rightarrow> nat) \<Rightarrow> string set \<Rightarrow> (string \<times> bytes) set \<Rightarrow> node \<Rightarrow> shards \<Rightarrow> string \<Rightarrow>
   (node \<times> shards) \<times> data_location option \<times> (string, data_location) dict \<Rightarrow> bool" where
  "promotion_ok e sz K P nd sh k res = (case res of ((nd', sh'), r, prom) \<Rightarrow>
     node_ok e sz K P (nd', sh') \<and> same_node nd nd' \<and> keeps_foreign (nd_id nd) sh sh' \<and> entries_ok sz nd' prom \<and> (\<forall>k. settled nd' prom k) \<and>
     (\<forall>l. r = Some l \<longrightarrow> loc_node_id l = nd_id nd \<and> resident l \<and> points_to nd' k l))"

lemma promotion_none:
  "node_ok e sz K P (nd', sh') \<Longrightarrow> same_node nd nd' \<Longrightarrow> keeps_foreign (nd_id nd) sh sh' \<Longrightarrow>
   promotion_ok e sz K P nd sh k ((nd', sh'), None, [])"
  by (simp add: promotion_ok_def settled_def)

lemma ensure_one_disk:
  assumes ok: "node_ok e sz K P (nd, sh)" and P: "\<forall>(k, b) \<in> P. length b = sz k" and out: "outside_pool nd (e_buf e) (sz k)"
    and p: "nd_pool nd = Some p" and a: "address_of p k = (p1, None)" and d: "nd_disk nd = Some d"
  shows "promotion_ok e sz K P nd sh k (ensure_one e (nd, sh) k [])"
proof -
  have dinv: "disk_inv (e_sha e) K P d" using ok d by (simp add: node_ok_def disk_ok_def)
  obtain d' data where g: "disk_get d k = (d', data)" by (cases "disk_get d k") auto
  have "disk_inv (e_sha e) K P d'" using disk_get_inv [OF dinv, of k] g by simp
  note disk = node_ok_disk [OF ok d this]
  let ?nd = "nd\<lparr>nd_disk := Some d'\<rparr>"
  show ?thesis
  proof (cases data)
    case None
    then show ?thesis using promotion_none [OF disk keeps_foreign_refl] p a d g by (simp add: ensure_one_def)
  next
    case data: (Some b)
    have b: "(k, b) \<in> P" "length b = sz k" using disk_get_page [OF dinv g [unfolded data]] P by auto
    have p': "nd_pool ?nd = Some p" and out': "outside_pool ?nd (e_buf e) (sz k)" using p out same_node_outside [OF disk(2)] by simp_all
    obtain nd2 sh2 r2 where
      pp: "pool_publish e p (?nd\<lparr>nd_mem := write_bytes (nd_mem ?nd) (e_buf e) b\<rparr>, sh) k (e_buf e) (sz k) = ((nd2, sh2), r2)"
      by (cases "pool_publish e p (?nd\<lparr>nd_mem := write_bytes (nd_mem ?nd) (e_buf e) b\<rparr>, sh) k (e_buf e) (sz k)") auto
    note two = promote_page_ok [OF disk(1) p' out' b pp]
    have same: "same_node nd nd2" using same_node_trans [OF disk(2) two(2)] .
    show ?thesis
    proof (cases r2)
      case None
      then show ?thesis using promotion_none [OF two(1) same, of sh k] two(3) p a d g data pp b(2) by (simp add: ensure_one_def)
    next
      case (Some addr)
      note pr = promoted_ok [OF two(1) two(4) [OF Some] refl refl]
      have "resident (resident_location nd2 p addr (sz k))" by (simp add: resident_location_def)
      then show ?thesis using pr(1,3-6) two(3) same_node_trans [OF same pr(2)] same p a d g data pp b(2) Some
        by (simp add: ensure_one_def Let_def promotion_ok_def same_node_def)
    qed
  qed
qed

lemma ensure_one_ok:
  assumes ok: "node_ok e sz K P (nd, sh)" and P: "\<forall>(k, b) \<in> P. length b = sz k" and out: "outside_pool nd (e_buf e) (sz k)"
  shows "promotion_ok e sz K P nd sh k (ensure_one e (nd, sh) k [])"
proof -
  obtain p where p: "nd_pool nd = Some p" using ok by (auto simp: node_ok_def pool_ok_def)
  obtain p1 al where a: "address_of p k = (p1, al)" by (cases "address_of p k") auto
  show ?thesis
  proof (cases al)
    case (Some al')
    obtain addr n where al': "al' = (addr, n)" by fastforce
    have t: "touches nd (nd\<lparr>nd_pool := Some p1\<rparr>)" using address_of_touches [OF p a] .
    have "points_to nd k (resident_location nd p1 addr n)"
      by (rule address_of_points_to [OF p a [unfolded Some al']]) (simp_all add: resident_location_def)
    then show ?thesis using touches_ok(1,2) [OF ok t] touches_points_to [OF t] p a Some al'
      by (simp add: ensure_one_def promotion_ok_def settled_def resident_location_def)
  next
    case None
    show ?thesis
    proof (cases "nd_disk nd")
      case None
      then show ?thesis using promotion_none [OF ok same_node_refl keeps_foreign_refl] p a \<open>al = None\<close> by (simp add: ensure_one_def)
    qed (rule ensure_one_disk [OF ok P out p a [unfolded None]])
  qed
qed

lemma ensure_resident_ok:
  assumes ok: "node_ok e sz K P (nd, sh)" and P: "\<forall>(k, b) \<in> P. length b = sz k" and out: "outside_pool nd (e_buf e) (sz k)"
    and run: "ensure_resident e (nd, sh) [k] = ((nd', sh'), locs)"
  shows "node_ok e sz K P (nd', sh')" and "same_node nd nd'" and "keeps_foreign (nd_id nd) sh sh'"
    and "\<exists>r. locs = [r] \<and> (\<forall>l. r = Some l \<longrightarrow> loc_node_id l = nd_id nd \<and> resident l \<and> points_to nd' k l)"
proof -
  obtain nd1 sh1 r prom where one: "ensure_one e (nd, sh) k [] = ((nd1, sh1), r, prom)"
    by (cases "ensure_one e (nd, sh) k []") auto
  have pr: "node_ok e sz K P (nd1, sh1)" "same_node nd nd1" "entries_ok sz nd1 prom" "\<And>k. settled nd1 prom k"
    "\<And>l. r = Some l \<Longrightarrow> loc_node_id l = nd_id nd \<and> resident l \<and> points_to nd1 k l" "keeps_foreign (nd_id nd) sh sh1"
    using ensure_one_ok [OF ok P out] unfolding one promotion_ok_def by auto
  have res: "nd' = nd1" "sh' = (if prom \<noteq> [] then node_dir_put e nd1 sh1 prom else sh1)" "locs = [r]"
    using run one by (auto simp: ensure_resident_def)
  show "node_ok e sz K P (nd', sh')" using dir_put_ok [OF pr(1,3,4)] pr(1) by (simp add: res)
  show "same_node nd nd'" using pr(2) by (simp add: res)
  have "nd_id nd1 = nd_id nd" using pr(2) by (simp add: same_node_def)
  then show "keeps_foreign (nd_id nd) sh sh'" using keeps_foreign_entries [OF pr(3), of sh1 e] pr(6)
    by (auto simp: res intro: keeps_foreign_trans)
  show "\<exists>r. locs = [r] \<and> (\<forall>l. r = Some l \<longrightarrow> loc_node_id l = nd_id nd \<and> resident l \<and> points_to nd' k l)"
    using pr(5) by (simp add: res)
qed

lemma node_ok_fewer:
  assumes ok: "node_ok e sz K P (nd, sh)" and sub: "\<And>ep k l. own_entry nd sh' ep k l \<Longrightarrow> own_entry nd sh ep k l"
    and "shard_from UNIV sh'"
  shows "node_ok e sz K P (nd, sh')"
proof -
  have dir: "dir_ok e nd sh" using ok by (simp add: node_ok_def)
  have "dir_ok e nd sh'" by (rule dir_okI) (use dir_okD [OF dir sub] in blast)
  then show ?thesis using ok assms(3) by (simp add: node_ok_def)
qed

lemma dir_delete_ok: "node_ok e sz K P (nd, sh) \<Longrightarrow> node_ok e sz K P (nd, node_dir_delete e' nd' sh keys)"
proof -
  assume ok: "node_ok e sz K P (nd, sh)"
  have "own_entry nd sh ep k l" if "own_entry nd (node_dir_delete e' nd' sh keys) ep k l" for ep k l
    using that by (simp add: own_entry_def node_dir_delete_def loc_at_delete split: if_splits)
  moreover have "shard_from UNIV (node_dir_delete e' nd' sh keys)" using ok node_dir_from(2) by (simp add: node_ok_def)
  ultimately show ?thesis by (rule node_ok_fewer [OF ok])
qed

text \<open>The request a peer sends to have a page promoted, for one key.\<close>

definition promote_request :: "string \<Rightarrow> pyval" where
  "promote_request k = VDict [(''keys'', VList [VStr k])]"

lemma on_data_promote_ok:
  assumes ok: "node_ok e sz K P (nd, sh)" and P: "\<forall>(k, b) \<in> P. length b = sz k" and out: "outside_pool nd (e_buf e) (sz k)"
    and run: "fst (on_data_promote e (nd, sh) (promote_request k)) = (nd', sh')"
  shows "node_ok e sz K P (nd', sh')" and "same_node nd nd'" and "keeps_foreign (nd_id nd) sh sh'"
proof -
  obtain nd1 sh1 locs where er: "ensure_resident e (nd, sh) [k] = ((nd1, sh1), locs)"
    by (cases "ensure_resident e (nd, sh) [k]") auto
  note one = ensure_resident_ok [OF ok P out er]
  have nd': "nd' = nd1" and sh': "sh' = sh1 \<or> (\<exists>ks. sh' = node_dir_delete e nd1 sh1 ks)"
    using run er by (auto simp: on_data_promote_def promote_request_def field_or_def Let_def split: if_splits)
  show "same_node nd nd'" using one(2) nd' by simp
  show "node_ok e sz K P (nd', sh')" using one(1) sh' dir_delete_ok [OF one(1)] nd' by auto
  show "keeps_foreign (nd_id nd) sh sh'" using one(3) sh' by (auto intro: keeps_foreign_trans)
qed

section \<open>A cluster\<close>

text \<open>
  The steps of a node: publishing a batch, a turn of the disk writer, the promotion of a page for a
  peer, and a write of the serving process into its own buffers. The clock and the temporary buffers
  may differ from step to step; the digests and the endpoints that answer stand.
\<close>

definition agrees :: "env \<Rightarrow> env \<Rightarrow> bool" where
  "agrees e e' \<longleftrightarrow> e_digest e' = e_digest e \<and> e_sha e' = e_sha e \<and> e_up e' = e_up e"

lemma agrees_ok: "agrees e e' \<Longrightarrow> node_ok e' sz K P s \<longleftrightarrow> node_ok e sz K P s"
  by (simp add: agrees_def node_ok_def dir_ok_def nd_reaches_def disk_ok_def split: option.split)

inductive node_step ::
  "env \<Rightarrow> (string \<Rightarrow> nat) \<Rightarrow> string set \<Rightarrow> (string \<times> bytes) set \<Rightarrow> node \<times> shards \<Rightarrow> node \<times> shards \<Rightarrow> bool"
  for e sz K P where
  publish_step: "agrees e e' \<Longrightarrow> \<forall>pg \<in> set (zip keys (zip ptrs sizes)). page_ok sz K P nd pg \<Longrightarrow>
    node_step e sz K P (nd, sh) (fst (publish_p2p e' upd (nd, sh) keys ptrs sizes))"
| disk_step: "agrees e e' \<Longrightarrow> node_step e sz K P (nd, sh) (disk_work e' io iof (nd, sh))"
| promote_step: "agrees e e' \<Longrightarrow> outside_pool nd (e_buf e') (sz k) \<Longrightarrow>
    node_step e sz K P (nd, sh) (fst (on_data_promote e' (nd, sh) (promote_request k)))"
| host_step: "outside_pool nd a (length bs) \<Longrightarrow>
    node_step e sz K P (nd, sh) (nd\<lparr>nd_mem := write_bytes (nd_mem nd) a bs\<rparr>, sh)"

text \<open>The nodes by their control endpoints, and the shards of the directory.\<close>

type_synonym cluster = "(string \<Rightarrow> node option) \<times> shards"

inductive cluster_step ::
  "env \<Rightarrow> (string \<Rightarrow> nat) \<Rightarrow> string set \<Rightarrow> (string \<times> bytes) set \<Rightarrow> cluster \<Rightarrow> cluster \<Rightarrow> bool"
  for e sz K P where
  node_acts: "ns c = Some nd \<Longrightarrow> node_step e sz K P (nd, sh) (nd', sh') \<Longrightarrow>
    cluster_step e sz K P (ns, sh) (ns(c \<mapsto> nd'), sh')"

definition distinct_ids :: "(string \<Rightarrow> node option) \<Rightarrow> bool" where
  "distinct_ids ns \<longleftrightarrow> (\<forall>c c' nd nd'. ns c = Some nd \<and> ns c' = Some nd' \<and> nd_id nd = nd_id nd' \<longrightarrow> c = c')"

definition cluster_ok :: "env \<Rightarrow> (string \<Rightarrow> nat) \<Rightarrow> string set \<Rightarrow> (string \<times> bytes) set \<Rightarrow> cluster \<Rightarrow> bool" where
  "cluster_ok e sz K P C \<longleftrightarrow> distinct_ids (fst C) \<and> (\<forall>c nd. fst C c = Some nd \<longrightarrow> node_ok e sz K P (nd, snd C))"

lemma node_step_ok:
  assumes step: "node_step e sz K P (nd, sh) (nd', sh')" and ok: "node_ok e sz K P (nd, sh)"
    and inj: "inj_on (safe_name (e_sha e)) K" and P: "\<forall>(k, b) \<in> P. length b = sz k"
  shows "node_ok e sz K P (nd', sh') \<and> same_node nd nd' \<and> keeps_foreign (nd_id nd) sh sh'"
  using step
proof cases
  case (publish_step e' keys ptrs sizes upd)
  obtain r where "publish_p2p e' upd (nd, sh) keys ptrs sizes = ((nd', sh'), r)"
    using publish_step(1) by (cases "publish_p2p e' upd (nd, sh) keys ptrs sizes") auto
  from publish_p2p_ok [OF _ publish_step(3) this] ok agrees_ok [OF publish_step(2)] show ?thesis by simp
next
  case (disk_step e' io iof)
  have "inj_on (safe_name (e_sha e')) K" using inj disk_step(2) by (simp add: agrees_def)
  from disk_work_ok [OF this _ disk_step(1) [symmetric]] ok agrees_ok [OF disk_step(2)] show ?thesis by simp
next
  case (promote_step e' k)
  from on_data_promote_ok [OF _ P promote_step(3) promote_step(1) [symmetric]] ok agrees_ok [OF promote_step(2)]
  show ?thesis by simp
next
  case (host_step a bs)
  then show ?thesis using node_ok_write_outside [OF ok] by (simp add: same_node_def region_of_def)
qed

lemma node_ok_foreign:
  assumes ok: "node_ok e sz K P (nd, sh)" and f: "keeps_foreign i sh sh'" and i: "nd_id nd \<noteq> i" and "shard_from UNIV sh'"
  shows "node_ok e sz K P (nd, sh')"
proof -
  have "own_entry nd sh ep k l" if "own_entry nd sh' ep k l" for ep k l
    using that f i unfolding own_entry_def keeps_foreign_def by (metis (full_types))
  then show ?thesis using assms(4) by (rule node_ok_fewer [OF ok])
qed

lemma cluster_step_ok:
  assumes step: "cluster_step e sz K P C C'" and ok: "cluster_ok e sz K P C"
    and inj: "inj_on (safe_name (e_sha e)) K" and P: "\<forall>(k, b) \<in> P. length b = sz k"
  shows "cluster_ok e sz K P C'"
  using step
proof cases
  case (node_acts ns c nd sh nd' sh')
  have okn: "\<And>c nd. ns c = Some nd \<Longrightarrow> node_ok e sz K P (nd, sh)" and ids: "distinct_ids ns"
    using ok by (auto simp: cluster_ok_def node_acts)
  note new = node_step_ok [OF node_acts(4) okn [OF node_acts(3)] inj P]
  have sf: "shard_from UNIV sh'" using new by (simp add: node_ok_def)
  have "node_ok e sz K P (nd2, sh')" if c2: "(ns(c \<mapsto> nd')) c2 = Some nd2" for c2 nd2
  proof (cases "c2 = c")
    case False
    then have n2: "ns c2 = Some nd2" using c2 by simp
    then have "nd_id nd2 \<noteq> nd_id nd" using ids node_acts(3) False unfolding distinct_ids_def by blast
    with node_ok_foreign [OF okn [OF n2] _ _ sf] new show ?thesis by blast
  qed (use c2 new in auto)
  moreover have "distinct_ids (ns(c \<mapsto> nd'))"
    using ids node_acts(3) new unfolding distinct_ids_def same_node_def by (auto split: if_splits)
  ultimately show ?thesis by (simp add: cluster_ok_def node_acts)
qed

lemma cluster_run_ok:
  assumes "(cluster_step e sz K P)\<^sup>*\<^sup>* C C'" and "cluster_ok e sz K P C"
    and "inj_on (safe_name (e_sha e)) K" and "\<forall>(k, b) \<in> P. length b = sz k"
  shows "cluster_ok e sz K P C'"
  using assms by (induction rule: rtranclp_induct) (auto intro: cluster_step_ok)

text \<open>A node that has just come up.\<close>

definition fresh_node :: "node \<Rightarrow> bool" where
  "fresh_node nd \<longleftrightarrow>
     (\<exists>base cap rkey rkeys. nd_pool nd = Some (pool_init base cap rkey rkeys)) \<and>
     (nd_disk nd = None \<or> (\<exists>maxb. nd_disk nd = Some (empty_disk maxb))) \<and> nd_key_len nd = []"

lemma fresh_node_ok: "fresh_node nd \<Longrightarrow> node_ok e sz K P (nd, \<lambda>ep. [])"
  by (auto simp: fresh_node_def node_ok_def pool_ok_def pool_init_inv disk_ok_def dir_ok_def own_entry_def loc_at_def
      shard_from_def empty_disk_inv) (simp_all add: pool_init_def pages_def)

lemma points_to_page:
  assumes ok: "pool_ok sz P nd" and pt: "points_to nd k l"
  shows "(k, string_at (nd_mem nd) (remote_addr l) (loc_length l)) \<in> P" and "loc_length l = sz k"
    and "\<exists>p. nd_pool nd = Some p \<and> pl_base p \<le> remote_addr l \<and> remote_addr l + loc_length l \<le> pl_base p + pl_capacity p"
proof -
  obtain p off where p: "nd_pool nd = Some p" "map_of (pl_entries p) k = Some (off, loc_length l)" "remote_addr l = pl_base p + off"
    using pt by (auto simp: points_to_def)
  have inv: "pool_inv p" using ok p(1) by (auto simp: pool_ok_def)
  show "(k, string_at (nd_mem nd) (remote_addr l) (loc_length l)) \<in> P" and "loc_length l = sz k"
    using ok p by (auto simp: pool_ok_def pages_def)
  show "\<exists>p. nd_pool nd = Some p \<and> pl_base p \<le> remote_addr l \<and> remote_addr l + loc_length l \<le> pl_base p + pl_capacity p"
    using p pool_inv_bounds [OF inv p(2)] by (intro exI [of _ p]) simp
qed

lemma fresh_cluster_ok:
  assumes "distinct_ids ns" and "\<And>c nd. ns c = Some nd \<Longrightarrow> fresh_node nd"
  shows "cluster_ok e sz K P (ns, \<lambda>ep. [])"
  using assms fresh_node_ok by (auto simp: cluster_ok_def)

section \<open>A cluster of one node\<close>

definition one_ring :: hash_ring where
  "one_ring = \<lparr>hr_vnodes = 1, hr_ring = [(0, ''a'')], hr_sorted_keys = [0], hr_nodes = {''a''}\<rparr>"

definition one_runtime :: runtime where
  "one_runtime =
     (toy_runtime one_ring)\<lparr>rt_dir := DirectoryClient one_ring 1, rt_disc := toy_client\<lparr>cl_members := [(''a'', toy_member ''a'')]\<rparr>\<rparr>"

definition one_env :: env where
  "one_env = \<lparr>e_digest = toy_digest, e_sha = id, e_up = (\<lambda>_. True), e_now = 0, e_dt = 1, e_buf = 90,
     e_scratch = (\<lambda>i. 1000 + 100 * i), e_rdma = (\<lambda>_. None)\<rparr>"

text \<open>A node with a pool of \<open>cap\<close> bytes at address 100; its memory holds the low byte of each address.\<close>

definition one_node :: "nat \<Rightarrow> disk_store option \<Rightarrow> node" where
  "one_node cap disk =
     \<lparr>nd_id = ''a'', nd_mode = ''p2p'', nd_write_policy = ''local'', nd_prefix = [], nd_client_only = False,
      nd_endpoint = ''a:2'', nd_rails = [''a:2''], nd_n_rails = 1, nd_is_mla = True, nd_mha_suffix = ''0'', nd_mla_suffix = [],
      nd_runtime = one_runtime, nd_pool = Some (pool_init 100 cap 1 [1]), nd_disk = disk, nd_key_len = [],
      nd_mem = (\<lambda>a. of_nat a), nd_regions = [(100, cap)], nd_metrics = new_metrics ''a'' 8 0, nd_cache_ttl = 0,
      nd_dir_cache = [], nd_primed_ttl = 1, nd_primed_cap = 8, nd_primed = [], nd_raw_keys = False,
      nd_keyspace_detected = False, nd_storage = False, nd_slot = None, nd_slot_rkeys = [], nd_layouts = []\<rparr>"


lemma fresh_one_node: "fresh_node (one_node cap None)" "fresh_node (one_node cap (Some (empty_disk maxb)))"
  by (simp_all add: fresh_node_def one_node_def) blast+

definition one_published :: "node \<times> shards" where
  "one_published = fst (publish_p2p one_env True (one_node 8 None, \<lambda>ep. []) [''k''] [0] [4])"

lemma one_published_entry:
  "loc_at (snd one_published ''a:1'') ''k'' = Some (resident_location (one_node 8 None) (pool_init 100 8 1 [1]) 100 4)"
  "nd_id (fst one_published) = ''a''"
  by code_simp+


end
