(* ===== verification/Fetch.thy ===== *)
theory Fetch
  imports Coherence
begin

text \<open>
  What a fetch delivers (\<open>_fetch\<close> of \<^verbatim>\<open>python/peercache/store.py\<close>), on top of the agreement of
  directory and pools: every page it reports as found is in the caller's buffer, with bytes that were
  published under the key.
\<close>

section \<open>A batch of remote reads\<close>

lemma map_result_all: "(\<And>x. x \<in> set xs \<Longrightarrow> f x = Inr (g x)) \<Longrightarrow> map_result f xs = Inr (map g xs)"
  by (induction xs) simp_all

lemma read_ops_all:
  assumes "length ns = n" "length la = n" "length ra = n" "length rk = n" "length lens = n"
  shows "read_ops ns la ra rk lens = Inr (map (\<lambda>i. \<lparr>ro_endpoint = ns ! i, ro_local = la ! i, ro_remote = ra ! i,
    ro_rkey = rk ! i, ro_length = lens ! i\<rparr>) [0..<n])"
  unfolding read_ops_def assms(5) by (rule map_result_all) (simp add: nth_result_def assms)

section \<open>The loop over the locations\<close>

type_synonym fetch_item = "(nat \<times> data_location option) \<times> string \<times> nat \<times> nat"

fun it_idx :: "fetch_item \<Rightarrow> nat" where "it_idx ((i, l), k, ptr, n) = i"
fun it_loc :: "fetch_item \<Rightarrow> data_location option" where "it_loc ((i, l), k, ptr, n) = l"
fun it_key :: "fetch_item \<Rightarrow> string" where "it_key ((i, l), k, ptr, n) = k"
fun it_dst :: "fetch_item \<Rightarrow> nat" where "it_dst ((i, l), k, ptr, n) = ptr"
fun it_len :: "fetch_item \<Rightarrow> nat" where "it_len ((i, l), k, ptr, n) = n"

text \<open>The destinations of a batch: outside the pool, and apart from each other.\<close>

definition dsts_ok :: "node \<Rightarrow> fetch_item list \<Rightarrow> bool" where
  "dsts_ok nd its \<longleftrightarrow>
     (\<forall>x \<in> set its. outside_pool nd (it_dst x) (it_len x)) \<and>
     (\<forall>x \<in> set its. \<forall>y \<in> set its. it_idx x \<noteq> it_idx y \<longrightarrow>
        disjoint_range (it_dst x) (it_len x) (it_dst y) (it_len y))"

definition delivered :: "(string \<times> bytes) set \<Rightarrow> mem \<Rightarrow> bool list \<Rightarrow> fetch_item list \<Rightarrow> bool" where
  "delivered P m results its \<longleftrightarrow>
     (\<forall>x \<in> set its. results ! it_idx x \<longrightarrow> (it_key x, string_at m (it_dst x) (it_len x)) \<in> P)"

text \<open>A location is true when the node it names, if it is there, holds the page as it says.\<close>

definition true_loc :: "(string \<Rightarrow> node option) \<Rightarrow> string \<Rightarrow> data_location \<Rightarrow> bool" where
  "true_loc ns k l \<longleftrightarrow> (\<forall>c nd. ns c = Some nd \<and> nd_id nd = loc_node_id l \<longrightarrow> points_to nd k l)"

text \<open>\<open>host\<close> gives the node behind a data-plane endpoint.\<close>

definition leads_home :: "(string \<Rightarrow> string) \<Rightarrow> data_location \<Rightarrow> bool" where
  "leads_home host l \<longleftrightarrow> host (loc_rdma_endpoint l) = loc_node_id l \<and> (\<forall>n \<in> set (loc_endpoints l). host n = loc_node_id l)"

definition items_ok :: "(string \<Rightarrow> node option) \<Rightarrow> (string \<Rightarrow> string) \<Rightarrow> fetch_item list \<Rightarrow> bool" where
  "items_ok ns host its \<longleftrightarrow>
     (\<forall>x \<in> set its. \<forall>loc. it_loc x = Some loc \<and> resident loc \<longrightarrow> true_loc ns (it_key x) loc \<and> leads_home host loc)"

text \<open>The node a fetch works on: the reader, with pages touched and destinations written.\<close>

definition reader_ok ::
  "env \<Rightarrow> (string \<Rightarrow> nat) \<Rightarrow> string set \<Rightarrow> (string \<times> bytes) set \<Rightarrow> shards \<Rightarrow> node \<Rightarrow> node \<Rightarrow> bool" where
  "reader_ok e sz K P sh me nd \<longleftrightarrow>
     node_ok e sz K P (nd, sh) \<and> same_node me nd \<and> (\<forall>k l. points_to nd k l \<longleftrightarrow> points_to me k l)"

text \<open>A read that is to be issued belongs to an item whose location names another node.\<close>

definition read_of :: "(string \<Rightarrow> string) \<Rightarrow> node \<Rightarrow> fetch_item list \<Rightarrow> nat \<times> string \<times> nat \<times> nat \<times> nat \<Rightarrow> bool" where
  "read_of host me its r \<longleftrightarrow> (case r of (i, nk, la, ra, len) \<Rightarrow>
     \<exists>x loc. x \<in> set its \<and> it_idx x = i \<and> it_loc x = Some loc \<and> it_dst x = la \<and> it_len x = len \<and> resident loc \<and>
       loc_length loc = len \<and> remote_addr loc = ra \<and> loc_rdma_endpoint loc = nk \<and> loc_node_id loc \<noteq> nd_id me)"

definition railed :: "(string \<Rightarrow> string) \<Rightarrow> fetch_acc \<Rightarrow> bool" where
  "railed host a \<longleftrightarrow>
     (\<forall>nk eps. map_of (fa_eps a) nk = Some eps \<longrightarrow> eps \<noteq> [] \<and> (\<forall>n \<in> set eps. host n = host nk)) \<and>
     (\<forall>(i, nk, la, ra, len) \<in> set (fa_reads a). has_key (fa_eps a) nk)"

definition fetch_inv ::
  "env \<Rightarrow> (string \<Rightarrow> nat) \<Rightarrow> string set \<Rightarrow> (string \<times> bytes) set \<Rightarrow> shards \<Rightarrow> node \<Rightarrow> (string \<Rightarrow> string) \<Rightarrow>
   nat \<Rightarrow> fetch_item list \<Rightarrow> fetch_acc \<Rightarrow> bool" where
  "fetch_inv e sz K P sh me host n its a \<longleftrightarrow>
     reader_ok e sz K P sh me (fa_node a) \<and> length (fa_results a) = n \<and> length (fa_sources a) = n \<and>
     delivered P (nd_mem (fa_node a)) (fa_results a) its \<and>
     (\<forall>i < n. i \<notin> it_idx ` set its \<longrightarrow> \<not> fa_results a ! i) \<and>
     (\<forall>r \<in> set (fa_reads a). read_of host me its r \<and> \<not> fa_results a ! fst r) \<and>
     distinct (map fst (fa_reads a)) \<and> railed host a"

lemma reader_ok_touch: "reader_ok e sz K P sh me nd \<Longrightarrow> touches nd nd' \<Longrightarrow> reader_ok e sz K P sh me nd'"
proof -
  assume ok: "reader_ok e sz K P sh me nd" and t: "touches nd nd'"
  then have n: "node_ok e sz K P (nd, sh)" by (simp add: reader_ok_def)
  show ?thesis using ok touches_ok(1,2) [OF n t] touches_points_to [OF t] same_node_trans [of me nd nd'] by (simp add: reader_ok_def)
qed

lemma reader_ok_write:
  assumes "reader_ok e sz K P sh me nd" and "outside_pool me a (length bs)"
  shows "reader_ok e sz K P sh me (nd\<lparr>nd_mem := write_bytes (nd_mem nd) a bs\<rparr>)"
proof -
  have same: "same_node me nd" and ok: "node_ok e sz K P (nd, sh)" using assms(1) by (simp_all add: reader_ok_def)
  have "outside_pool nd a (length bs)" using assms(2) same_node_outside [OF same] by simp
  then show ?thesis using assms(1) node_ok_write_outside [OF ok] same
    by (simp add: reader_ok_def points_to_def same_node_def region_of_def)
qed

lemma delivered_write:
  assumes "delivered P m results its" and "\<forall>x \<in> set its. disjoint_range ptr (length bs) (it_dst x) (it_len x)"
    and "i \<notin> it_idx ` set its"
  shows "delivered P (write_bytes m ptr bs) (results[i := v]) its"
  unfolding delivered_def
proof (intro ballI impI)
  fix x assume x: "x \<in> set its" and r: "results[i := v] ! it_idx x"
  have "it_idx x \<noteq> i" using x assms(3) by auto
  then show "(it_key x, string_at (write_bytes m ptr bs) (it_dst x) (it_len x)) \<in> P"
    using assms(1,2) x r by (simp add: delivered_def string_at_write_disjoint)
qed

lemma read_of_mono: "read_of host me its r \<Longrightarrow> read_of host me (its @ [x]) r"
  by (cases r, simp only: read_of_def prod.case set_append) blast

lemma read_of_index: "read_of host me its r \<Longrightarrow> fst r \<in> it_idx ` set its"
  by (cases r, simp only: read_of_def prod.case fst_conv) blast

text \<open>A page that is in the reader's memory already: it is copied at once.\<close>

lemma local_copy_inv:
  assumes inv: "fetch_inv e sz K P sh me host n its a" and dst: "dsts_ok me (its @ [((i, l), k, ptr, len)])"
    and i: "i < n" "i \<notin> it_idx ` set its"
    and pg: "(k, string_at (nd_mem (fa_node a)) addr len) \<in> P"
  shows "fetch_inv e sz K P sh me host n (its @ [((i, l), k, ptr, len)]) (local_copy a i ptr addr len src)"
proof -
  let ?bs = "string_at (nd_mem (fa_node a)) addr len"
  let ?a = "local_copy a i ptr addr len src"
  have a: "fa_node ?a = (fa_node a)\<lparr>nd_mem := write_bytes (nd_mem (fa_node a)) ptr ?bs\<rparr>"
    "fa_results ?a = (fa_results a)[i := True]" "fa_sources ?a = (fa_sources a)[i := Some src]" "fa_reads ?a = fa_reads a" "fa_eps ?a = fa_eps a"
    by (simp_all add: local_copy_def memmove_write_bytes)
  have apart: "\<forall>x \<in> set its. disjoint_range ptr (length ?bs) (it_dst x) (it_len x)"
  proof
    fix x assume x: "x \<in> set its"
    then have "i \<noteq> it_idx x" using i(2) by auto
    then show "disjoint_range ptr (length ?bs) (it_dst x) (it_len x)" using dst x by (simp add: dsts_ok_def)
  qed
  have del: "delivered P (nd_mem (fa_node ?a)) (fa_results ?a) its"
    using inv delivered_write [OF _ apart i(2)] by (simp add: fetch_inv_def a)
  have "string_at (write_bytes (nd_mem (fa_node a)) ptr ?bs) ptr len = ?bs" using string_at_write_same [of _ ptr ?bs] by simp
  then have "delivered P (nd_mem (fa_node ?a)) (fa_results ?a) (its @ [((i, l), k, ptr, len)])"
    using del pg by (simp add: delivered_def a)
  moreover have "reader_ok e sz K P sh me (fa_node ?a)"
    unfolding a using inv dst by (intro reader_ok_write) (auto simp: fetch_inv_def dsts_ok_def)
  moreover have "read_of host me (its @ [((i, l), k, ptr, len)]) r \<and> \<not> fa_results ?a ! fst r" if "r \<in> set (fa_reads ?a)" for r
  proof -
    have r: "read_of host me its r" "\<not> fa_results a ! fst r" using inv that by (simp_all add: fetch_inv_def a)
    then have "fst r \<noteq> i" using read_of_index [OF r(1)] i(2) by auto
    with r show ?thesis by (simp add: a read_of_mono)
  qed
  moreover have "\<not> fa_results ?a ! j" if "j < n" "j \<notin> it_idx ` set (its @ [((i, l), k, ptr, len)])" for j
    using inv that by (simp add: fetch_inv_def a)
  ultimately show ?thesis using inv by (simp add: fetch_inv_def a railed_def)
qed

text \<open>An item that is skipped.\<close>

lemma skip_inv:
  assumes inv: "fetch_inv e sz K P sh me host n its a" and i: "i < n" "i \<notin> it_idx ` set its"
  shows "fetch_inv e sz K P sh me host n (its @ [((i, l), k, ptr, len)]) a"
proof -
  have "\<not> fa_results a ! i" using inv i by (simp add: fetch_inv_def)
  then show ?thesis using inv by (auto simp: fetch_inv_def delivered_def intro: read_of_mono)
qed

text \<open>An item whose page another node holds: the read is noted.\<close>

lemma remote_note_inv:
  assumes inv: "fetch_inv e sz K P sh me host n its a" and i: "i < n" "i \<notin> it_idx ` set its"
    and loc: "resident loc" "loc_node_id loc \<noteq> nd_id me" "leads_home host loc" and nk: "nk = loc_rdma_endpoint loc"
    and a': "a' = a\<lparr>fa_reads := fa_reads a @ [(i, nk, ptr, remote_addr loc, loc_length loc)],
      fa_eps := (if has_key (fa_eps a) nk then fa_eps a else AList.update nk (loc_endpoints loc) (fa_eps a)), fa_rks := rks\<rparr>"
  shows "fetch_inv e sz K P sh me host n (its @ [((i, Some loc), k, ptr, loc_length loc)]) a'"
proof -
  let ?its = "its @ [((i, Some loc), k, ptr, loc_length loc)]"
  have res: "\<not> fa_results a ! i" using inv i by (simp add: fetch_inv_def)
  have "read_of host me ?its (i, nk, ptr, remote_addr loc, loc_length loc)"
    unfolding read_of_def prod.case using loc nk by (intro exI [of _ "((i, Some loc), k, ptr, loc_length loc)"] exI [of _ loc]) simp
  then have reads: "\<forall>r \<in> set (fa_reads a'). read_of host me ?its r \<and> \<not> fa_results a' ! fst r"
    using inv res by (auto simp: fetch_inv_def a' intro: read_of_mono)
  have "i \<notin> fst ` set (fa_reads a)" using inv i(2) read_of_index by (fastforce simp: fetch_inv_def)
  then have dis: "distinct (map fst (fa_reads a'))" using inv by (simp add: fetch_inv_def a')
  have "loc_endpoints loc \<noteq> []" by (simp add: loc_endpoints_def)
  moreover have "\<forall>m \<in> set (loc_endpoints loc). host m = host nk" using loc(3) nk by (simp add: leads_home_def)
  ultimately have "railed host a'" using inv
    by (auto simp: fetch_inv_def railed_def a' update_conv' has_key_def split: if_splits)
  then show ?thesis using inv reads dis res by (auto simp: fetch_inv_def delivered_def a')
qed

lemma own_copy_ok:
  assumes ok: "reader_ok e sz K P sh me nd" and run: "own_copy nd k len = (nd', r)"
  shows "reader_ok e sz K P sh me nd'" and "nd_mem nd' = nd_mem nd"
    and "r = Some addr \<Longrightarrow> (k, string_at (nd_mem nd') addr len) \<in> P"
proof -
  obtain p where p: "nd_pool nd = Some p" and bytes: "\<And>k b. pages p (nd_mem nd) k = Some b \<Longrightarrow> (k, b) \<in> P"
    using ok by (auto simp: reader_ok_def node_ok_def pool_ok_def)
  obtain p' al where a: "address_of p k = (p', al)" by (cases "address_of p k") auto
  have cases: "nd' = nd \<and> r = None \<or> nd' = nd\<lparr>nd_pool := Some p'\<rparr> \<and> (\<forall>addr. r = Some addr \<longrightarrow> al = Some (addr, len))"
    using run p a by (auto simp: own_copy_def split: if_splits option.splits)
  then show "nd_mem nd' = nd_mem nd" by auto
  show "reader_ok e sz K P sh me nd'" using cases ok reader_ok_touch [OF ok address_of_touches [OF p a]] by auto
  show "(k, string_at (nd_mem nd') addr len) \<in> P" if "r = Some addr"
  proof -
    have "al = Some (addr, len)" and "nd_mem nd' = nd_mem nd" using cases that by auto
    then have "pages p (nd_mem nd) k = Some (string_at (nd_mem nd') addr len)"
      using a by (auto simp: address_of_def pages_def split: option.splits)
    then show ?thesis by (rule bytes)
  qed
qed

lemma fetch_inv_node:
  assumes "fetch_inv e sz K P sh me host n its a" and "reader_ok e sz K P sh me nd" and "nd_mem nd = nd_mem (fa_node a)"
  shows "fetch_inv e sz K P sh me host n its (a\<lparr>fa_node := nd\<rparr>)"
  using assms by (simp add: fetch_inv_def railed_def)

lemma fetch_one_inv:
  assumes inv: "fetch_inv e sz K P sh me host n its a" and dst: "dsts_ok me (its @ [((i, l), k, ptr, len)])"
    and i: "i < n" "i \<notin> it_idx ` set its" and items: "items_ok ns host [((i, l), k, ptr, len)]" and me: "ns c = Some me"
  shows "fetch_inv e sz K P sh me host n (its @ [((i, l), k, ptr, len)]) (fetch_one promoted ((i, l), k, ptr, len) a)"
proof (cases "\<exists>loc. l = Some loc \<and> resident loc \<and> loc_length loc = len")
  case False
  then have "fetch_one promoted ((i, l), k, ptr, len) a = a" by (auto simp: fetch_one_def split: option.splits)
  then show ?thesis using skip_inv [OF inv i] by simp
next
  case True
  then obtain loc where loc: "l = Some loc" "resident loc" "loc_length loc = len" by blast
  have truth: "true_loc ns k loc" "leads_home host loc" using items loc by (auto simp: items_ok_def)
  have ok: "reader_ok e sz K P sh me (fa_node a)" using inv by (simp add: fetch_inv_def)
  obtain nd r where oc: "own_copy (fa_node a) k len = (nd, r)" by fastforce
  note own = own_copy_ok [OF ok oc]
  let ?a = "a\<lparr>fa_node := nd\<rparr>"
  have inv': "fetch_inv e sz K P sh me host n its ?a" by (rule fetch_inv_node [OF inv own(1,2)])
  have id: "nd_id nd = nd_id me" using own(1) by (simp add: reader_ok_def same_node_def)
  show ?thesis
  proof (cases r)
    case (Some addr)
    have "fetch_one promoted ((i, l), k, ptr, len) a = local_copy ?a i ptr addr len ''local''"
      using loc oc Some by (simp add: fetch_one_def)
    then show ?thesis using local_copy_inv [OF inv' dst i] own(3) [OF Some] by simp
  next
    case None
    show ?thesis
    proof (cases "loc_node_id loc = nd_id nd")
      case True
      then have "points_to nd k loc" using truth(1) me own(1) id by (auto simp: true_loc_def reader_ok_def)
      moreover have "pool_ok sz P nd" using own(1) by (simp add: reader_ok_def node_ok_def)
      ultimately have pg: "(k, string_at (nd_mem nd) (remote_addr loc) len) \<in> P" using points_to_page(1) loc(3) by blast
      have "fetch_one promoted ((i, l), k, ptr, len) a =
          local_copy ?a i ptr (remote_addr loc) len (if i \<in> set promoted then ''disk'' else ''local'')"
        using loc oc None True by (simp add: fetch_one_def Let_def)
      then show ?thesis using local_copy_inv [OF inv' dst i] pg by simp
    next
      case False
      define a' where "a' = ?a\<lparr>fa_reads := fa_reads ?a @ [(i, loc_rdma_endpoint loc, ptr, remote_addr loc, loc_length loc)],
             fa_eps := (if has_key (fa_eps ?a) (loc_rdma_endpoint loc) then fa_eps ?a
                        else AList.update (loc_rdma_endpoint loc) (loc_endpoints loc) (fa_eps ?a)),
             fa_rks := (if has_key (fa_eps a) (loc_rdma_endpoint loc) then fa_rks a
                        else AList.update (loc_rdma_endpoint loc) (loc_rkeys loc) (fa_rks a))\<rparr>"
      have "fetch_one promoted ((i, l), k, ptr, len) a = a'" using loc oc None False by (simp add: fetch_one_def Let_def a'_def)
      moreover have "loc_node_id loc \<noteq> nd_id me" using False id by simp
      from remote_note_inv [OF inv' i loc(2) this truth(2) refl a'_def]
      have "fetch_inv e sz K P sh me host n (its @ [((i, l), k, ptr, len)]) a'" by (simp only: loc)
      ultimately show ?thesis by simp
    qed
  qed
qed

lemma dsts_ok_mono: "dsts_ok me its \<Longrightarrow> set its' \<subseteq> set its \<Longrightarrow> dsts_ok me its'"
  unfolding dsts_ok_def by blast

lemma fetch_fold_inv:
  assumes "fetch_inv e sz K P sh me host n its a" and "dsts_ok me (its @ rest)" and "distinct (map it_idx (its @ rest))"
    and "\<forall>it \<in> set rest. it_idx it < n" and "items_ok ns host rest" and "ns c = Some me"
  shows "fetch_inv e sz K P sh me host n (its @ rest) (fold (fetch_one promoted) rest a)"
  using assms(1-5)
proof (induction rest arbitrary: its a)
  case (Cons x rest)
  obtain i l k ptr len where x: "x = ((i, l), k, ptr, len)" by (cases x) auto
  have i: "i < n" "i \<notin> it_idx ` set its" using Cons.prems(3,4) by (auto simp: x)
  have dst: "dsts_ok me (its @ [x])" using Cons.prems(2) by (rule dsts_ok_mono) auto
  have it: "items_ok ns host [x]" "items_ok ns host rest" using Cons.prems(5) unfolding items_ok_def by simp_all
  have "fetch_inv e sz K P sh me host n (its @ [x]) (fetch_one promoted x a)"
    unfolding x by (rule fetch_one_inv [OF Cons.prems(1) dst [unfolded x] i it(1) [unfolded x] assms(6)])
  then have "fetch_inv e sz K P sh me host n ((its @ [x]) @ rest) (fold (fetch_one promoted) rest (fetch_one promoted x a))"
    by (rule Cons.IH) (use Cons.prems(2-4) it(2) in simp_all)
  then show ?case by simp
qed simp

section \<open>The replies\<close>

lemma read_replies:
  assumes "fold (read_reply promoted) xs (results, sources, f) = (results', sources', f')" and "distinct (map fst xs)"
  shows "length results' = length results \<and> length sources' = length sources \<and>
    (\<forall>i < length results. results' ! i = (case map_of xs i of Some ok \<Rightarrow> ok | None \<Rightarrow> results ! i))"
  using assms
proof (induction xs arbitrary: results sources f)
  case (Cons x xs)
  obtain i ok where x: "x = (i, ok)" by fastforce
  obtain r1 s1 f1 where one: "read_reply promoted x (results, sources, f) = (r1, s1, f1)"
    by (cases "read_reply promoted x (results, sources, f)") auto
  have r1: "r1 = results[i := ok]" "length s1 = length sources" using one by (auto simp: read_reply_def x split: if_splits)
  have "map_of xs i = None" using Cons.prems(2) by (simp add: x map_of_eq_None_iff)
  moreover have "fold (read_reply promoted) xs (r1, s1, f1) = (results', sources', f')" using Cons.prems(1) one by simp
  ultimately show ?case using Cons.IH [of r1 s1 f1] Cons.prems(2) r1 by (auto simp: x nth_list_update split: option.split)
qed simp

lemma pick_rail_mem: "xs \<noteq> [] \<Longrightarrow> pick_rail N i xs d \<in> set xs"
  by (auto simp: pick_rail_def Let_def)

lemma rail_nodes_nth:
  "j < length nks \<Longrightarrow> map_of eps (nks ! j) = Some es \<Longrightarrow> es \<noteq> [] \<Longrightarrow> rail_nodes N eps nks ! j \<in> set es"
  by (simp add: rail_nodes_def Let_def nth_enumerate_eq pick_rail_mem)

lemma length_rails [simp]: "length (rail_nodes N eps nks) = length nks" "length (rail_keys N rks nks) = length nks"
  by (simp_all add: rail_nodes_def rail_keys_def Let_def)

text \<open>The operations a batch of noted reads becomes.\<close>

definition noted_ops :: "int \<Rightarrow> fetch_acc \<Rightarrow> read_op list" where
  "noted_ops N a =
     (let rs = fa_reads a; nks = map (\<lambda>(i, nk, la, ra, len). nk) rs
      in map (\<lambda>j. \<lparr>ro_endpoint = rail_nodes N (fa_eps a) nks ! j, ro_local = map (\<lambda>(i, nk, la, ra, len). la) rs ! j,
                  ro_remote = map (\<lambda>(i, nk, la, ra, len). ra) rs ! j, ro_rkey = rail_keys N (fa_rks a) nks ! j,
                  ro_length = map (\<lambda>(i, nk, la, ra, len). len) rs ! j\<rparr>) [0..<length rs])"

lemma noted_ops_length [simp]: "length (noted_ops N a) = length (fa_reads a)"
  by (simp add: noted_ops_def Let_def)

lemma noted_ops_nth:
  assumes "railed host a" and "j < length (fa_reads a)" and "fa_reads a ! j = (i, nk, la, ra, len)"
  shows "ro_local (noted_ops N a ! j) = la" "ro_remote (noted_ops N a ! j) = ra" "ro_length (noted_ops N a ! j) = len"
    "host (ro_endpoint (noted_ops N a ! j)) = host nk"
proof -
  show "ro_local (noted_ops N a ! j) = la" "ro_remote (noted_ops N a ! j) = ra" "ro_length (noted_ops N a ! j) = len"
    using assms(2,3) by (simp_all add: noted_ops_def Let_def)
  have "(i, nk, la, ra, len) \<in> set (fa_reads a)" using assms(2,3) nth_mem by metis
  then have "has_key (fa_eps a) nk" using assms(1) unfolding railed_def by blast
  then obtain es where "map_of (fa_eps a) nk = Some es" by (auto simp: has_key_def)
  moreover from this have "es \<noteq> []" "\<forall>m \<in> set es. host m = host nk" using assms(1) unfolding railed_def by blast+
  ultimately show "host (ro_endpoint (noted_ops N a ! j)) = host nk"
    using rail_nodes_nth [of j "map (\<lambda>(i, nk, la, ra, len). nk) (fa_reads a)" "fa_eps a" es N] assms(2,3)
    by (simp add: noted_ops_def Let_def)
qed

lemma st_batch_read_noted:
  "st_batch_read e st (map (\<lambda>(i, nk, la, ra, len). nk) (fa_reads a)) (map (\<lambda>(i, nk, la, ra, len). la) (fa_reads a))
     (map (\<lambda>(i, nk, la, ra, len). ra) (fa_reads a)) (map (\<lambda>(i, nk, la, ra, len). len) (fa_reads a)) (fa_eps a) (fa_rks a) =
   (let (m, oks) = remote_reads e st (nd_mem (st_me st)) (noted_ops (nd_n_rails (st_me st)) a)
    in Inr (st\<lparr>st_me := (st_me st)\<lparr>nd_mem := m\<rparr>\<rparr>, oks))"
  unfolding st_batch_read_def batch_read_multi_def batch_read_v_def
  by (subst read_ops_all [where n = "length (fa_reads a)"]) (simp_all add: noted_ops_def Let_def split: prod.split)

lemma noted_apart:
  assumes inv: "fetch_inv e sz K P sh me host n its a" and dst: "dsts_ok me its"
  shows "ops_apart (noted_ops N a)"
  unfolding ops_apart_def sorted_wrt_iff_nth_less noted_ops_length
proof (intro allI impI)
  fix j j' assume jj: "j < j'" "j' < length (fa_reads a)"
  obtain i nk la ra len where r: "fa_reads a ! j = (i, nk, la, ra, len)" by (cases "fa_reads a ! j") auto
  obtain i' nk' la' ra' len' where r': "fa_reads a ! j' = (i', nk', la', ra', len')" by (cases "fa_reads a ! j'") auto
  have "read_of host me its (i, nk, la, ra, len)" "read_of host me its (i', nk', la', ra', len')"
    using inv jj r r' nth_mem [of j "fa_reads a"] nth_mem [of j' "fa_reads a"] by (auto simp: fetch_inv_def)
  then obtain x y where xy: "x \<in> set its" "y \<in> set its" "it_idx x = i" "it_idx y = i'" "it_dst x = la" "it_len x = len"
    "it_dst y = la'" "it_len y = len'" unfolding read_of_def prod.case by blast
  have "i \<noteq> i'" using inv jj r r' nth_eq_iff_index_eq [of "map fst (fa_reads a)" j j'] by (simp add: fetch_inv_def)
  then have "disjoint_range la len la' len'" using dst xy unfolding dsts_ok_def by blast
  moreover have "railed host a" using inv by (simp add: fetch_inv_def)
  ultimately show "disjoint_range (ro_local (noted_ops N a ! j)) (ro_length (noted_ops N a ! j))
      (ro_local (noted_ops N a ! j')) (ro_length (noted_ops N a ! j'))"
    using noted_ops_nth [OF _ _ r] noted_ops_nth [OF _ _ r'] jj by simp
qed

section \<open>The reads of a fetch\<close>

lemma remote_reads_reader:
  assumes "reader_ok e sz K P sh me (nd\<lparr>nd_mem := m\<rparr>)" and "remote_reads e' st m ops = (m', oks)"
    and "\<forall>op \<in> set ops. outside_pool me (ro_local op) (ro_length op)"
  shows "reader_ok e sz K P sh me (nd\<lparr>nd_mem := m'\<rparr>)"
  using assms
proof (induction ops arbitrary: m oks)
  case (Cons op ops)
  obtain m1 ok where one: "remote_read e' st op m = (m1, ok)" by fastforce
  have "reader_ok e sz K P sh me (nd\<lparr>nd_mem := m1\<rparr>)"
    using one Cons.prems(1,3) reader_ok_write [OF Cons.prems(1), of "ro_local op"]
    by (auto simp: remote_read_def copy_in_def split: option.splits if_splits)
  with Cons.IH [of m1] Cons.prems one show ?case by (auto split: prod.splits)
qed simp

text \<open>The endpoints of the data plane: \<open>host\<close> names the node that answers at each.\<close>

definition routed :: "env \<Rightarrow> (string \<Rightarrow> node option) \<Rightarrow> (string \<Rightarrow> string) \<Rightarrow> bool" where
  "routed e ns host \<longleftrightarrow> (\<forall>n c nd. e_rdma e n = Some c \<and> ns c = Some nd \<longrightarrow> nd_id nd = host n)"

lemma routed_peer: "routed e (st_peers st) host \<Longrightarrow> peer_at e st n = Some nd \<Longrightarrow> nd_id nd = host n \<and> (\<exists>c. st_peers st c = Some nd)"
  by (auto simp: routed_def peer_at_def split: option.splits bind_splits)

lemma true_loc_bytes:
  assumes "true_loc ns k l" and "ns c = Some nd" and "nd_id nd = loc_node_id l" and "pool_ok sz P nd"
  shows "(k, string_at (nd_mem nd) (remote_addr l) (loc_length l)) \<in> P"
  using points_to_page [OF assms(4)] assms(1-3) unfolding true_loc_def by blast

text \<open>What the noted reads bring: at every destination whose read succeeded, published bytes.\<close>

lemma noted_reads_deliver:
  assumes inv: "fetch_inv e sz K P sh me host n its a" and dst: "dsts_ok me its"
    and idx: "distinct (map it_idx its)" and its: "items_ok (st_peers st) host its"
    and routes: "routed e (st_peers st) host" and peers: "\<And>c nd. st_peers st c = Some nd \<Longrightarrow> pool_ok sz P nd"
    and run: "remote_reads e st (nd_mem (fa_node a)) (noted_ops N a) = (m', oks)"
    and j: "j < length (fa_reads a)" and hit: "oks ! j" and x: "x \<in> set its" and i: "it_idx x = fst (fa_reads a ! j)"
  shows "(it_key x, string_at m' (it_dst x) (it_len x)) \<in> P"
proof -
  obtain i nk la ra len where r: "fa_reads a ! j = (i, nk, la, ra, len)" by (cases "fa_reads a ! j") auto
  have rails: "railed host a" and "read_of host me its (i, nk, la, ra, len)"
    using inv j r nth_mem [of j "fa_reads a"] by (auto simp: fetch_inv_def)
  then obtain y loc where y: "y \<in> set its" "it_idx y = i" "it_loc y = Some loc" "it_dst y = la" "it_len y = len" "resident loc"
    "loc_length loc = len" "remote_addr loc = ra" "loc_rdma_endpoint loc = nk" unfolding read_of_def prod.case by blast
  have "y = x" using idx x y(1,2) i r by (auto simp: distinct_map dest: inj_onD)
  note op = noted_ops_nth [OF rails j r, of N]
  obtain nd where nd: "peer_at e st (ro_endpoint (noted_ops N a ! j)) = Some nd"
      "string_at m' la len = string_at (nd_mem nd) ra len"
    using peer_reads.reads_deliver [OF run noted_apart [OF inv dst]] j hit by (auto simp: op)
  have loc: "true_loc (st_peers st) (it_key y) loc" "leads_home host loc" using its y unfolding items_ok_def by blast+
  obtain c where c: "st_peers st c = Some nd" "nd_id nd = loc_node_id loc"
    using routed_peer [OF routes nd(1)] loc(2) y(9) by (auto simp: op leads_home_def)
  show ?thesis using true_loc_bytes [OF loc(1) c peers [OF c(1)]] nd(2) y by (simp add: \<open>y = x\<close>)
qed

lemma noted_op_item:
  assumes inv: "fetch_inv e sz K P sh me host n its a" and op: "op \<in> set (noted_ops N a)"
  shows "\<exists>x \<in> set its. ro_local op = it_dst x \<and> ro_length op = it_len x \<and> it_idx x \<in> fst ` set (fa_reads a)"
proof -
  obtain j where j: "j < length (fa_reads a)" "op = noted_ops N a ! j" using op by (auto simp: in_set_conv_nth)
  obtain i nk la ra len where r: "fa_reads a ! j = (i, nk, la, ra, len)" by (cases "fa_reads a ! j") auto
  have mem: "(i, nk, la, ra, len) \<in> set (fa_reads a)" using j(1) r nth_mem by metis
  then have "railed host a" "read_of host me its (i, nk, la, ra, len)" using inv by (auto simp: fetch_inv_def)
  then obtain x where "x \<in> set its" "it_idx x = i" "it_dst x = la" "it_len x = len" unfolding read_of_def prod.case by blast
  then show ?thesis using noted_ops_nth [OF \<open>railed host a\<close> j(1) r, of N] j(2) mem by force
qed

lemma reader_ok_metrics: "reader_ok e sz K P sh me nd \<Longrightarrow> reader_ok e sz K P sh me (nd\<lparr>nd_metrics := mx\<rparr>)"
  by (simp add: reader_ok_def node_ok_metrics same_node_def points_to_def region_of_def)

lemma remote_fetch_ok:
  assumes inv: "fetch_inv e sz K P sh me host n its a" and dst: "dsts_ok me its"
    and idx: "distinct (map it_idx its)" "\<forall>x \<in> set its. it_idx x < n" and its: "items_ok (st_peers st) host its"
    and routes: "routed e (st_peers st) host" and peers: "\<And>c nd. st_peers st c = Some nd \<Longrightarrow> pool_ok sz P nd"
  shows "\<exists>nd results sources. remote_fetch e st promoted a = Inr (st\<lparr>st_me := nd\<rparr>, results, sources) \<and>
    length results = n \<and> reader_ok e sz K P sh me nd \<and> delivered P (nd_mem nd) results its"
proof (cases "fa_reads a = []")
  case True
  with inv show ?thesis by (auto simp: remote_fetch_def fetch_inv_def)
next
  case False
  define rs where "rs = fa_reads a"
  define N where "N = nd_n_rails (fa_node a)"
  have inv': "reader_ok e sz K P sh me (fa_node a)" "length (fa_results a) = n" "distinct (map fst rs)"
      "delivered P (nd_mem (fa_node a)) (fa_results a) its" "\<And>r. r \<in> set rs \<Longrightarrow> read_of host me its r"
    using inv by (auto simp: fetch_inv_def rs_def)
  let ?st = "st\<lparr>st_me := fa_node a\<rparr>"
  obtain m' oks where run: "remote_reads e ?st (nd_mem (fa_node a)) (noted_ops N a) = (m', oks)" by fastforce
  have oks: "length oks = length rs" using peer_reads.reads_deliver [OF run noted_apart [OF inv dst]] by (simp add: rs_def)
  obtain results sources f where out: "fold (read_reply promoted) (zip (map fst rs) oks) (fa_results a, fa_sources a, 0) = (results, sources, f)"
    using prod_cases3 by blast
  have res: "length results = n" "\<And>i. i < n \<Longrightarrow> results ! i = (case map_of (zip (map fst rs) oks) i of Some ok \<Rightarrow> ok | None \<Rightarrow> fa_results a ! i)"
    using read_replies [OF out] inv'(2,3) oks by (simp_all add: map_fst_zip)
  define nd where "nd = (if f > 0 then nd_inc ((fa_node a)\<lparr>nd_mem := m'\<rparr>) ''read_failures'' (int f) else (fa_node a)\<lparr>nd_mem := m'\<rparr>)"
  have eq: "remote_fetch e st promoted a = Inr (st\<lparr>st_me := nd\<rparr>, results, sources)"
    using False st_batch_read_noted [of e ?st a] run out
    by (simp add: remote_fetch_def Let_def rs_def N_def nd_def fmap_result_def)
  have ops: "\<exists>x \<in> set its. ro_local op = it_dst x \<and> ro_length op = it_len x \<and> it_idx x \<in> fst ` set rs" if "op \<in> set (noted_ops N a)" for op
    using noted_op_item [OF inv that] by (auto simp: rs_def)
  have "reader_ok e sz K P sh me ((fa_node a)\<lparr>nd_mem := m'\<rparr>)"
    using remote_reads_reader [OF _ run, of e sz K P sh me "fa_node a"] inv'(1) ops dst unfolding dsts_ok_def by fastforce
  then have "reader_ok e sz K P sh me nd" by (simp add: nd_def nd_inc_def reader_ok_metrics)
  moreover have "delivered P m' results its"
    unfolding delivered_def
  proof (intro ballI impI)
    fix x assume x: "x \<in> set its" and hit: "results ! it_idx x"
    show "(it_key x, string_at m' (it_dst x) (it_len x)) \<in> P"
    proof (cases "it_idx x \<in> fst ` set rs")
      case True
      then obtain j where j: "j < length rs" "fst (rs ! j) = it_idx x" by (auto simp: in_set_conv_nth)
      have "map_of (zip (map fst rs) oks) (it_idx x) = Some (oks ! j)"
        using map_of_zip_nth [of "map fst rs" oks j] inv'(3) oks j by simp
      with res(2) idx(2) x hit have "oks ! j" by simp
      then show ?thesis using noted_reads_deliver [OF inv dst idx(1) _ _ _ run _ _ x, of j] its routes peers j by (simp add: rs_def)
    next
      case False
      then have "map_of (zip (map fst rs) oks) (it_idx x) = None" by (simp add: map_of_zip_is_None oks)
      with res(2) idx(2) x hit have "fa_results a ! it_idx x" by simp
      with inv'(4) x have "(it_key x, string_at (nd_mem (fa_node a)) (it_dst x) (it_len x)) \<in> P" by (simp add: delivered_def)
      moreover have "disjoint_range (ro_local op) (ro_length op) (it_dst x) (it_len x)" if "op \<in> set (noted_ops N a)" for op
        using ops [OF that] dst x False unfolding dsts_ok_def by metis
      ultimately show ?thesis using peer_reads.reads_frame [OF run] by simp
    qed
  qed
  ultimately show ?thesis using eq res(1) by (auto simp: nd_def nd_inc_def)
qed

section \<open>A whole fetch\<close>

lemma length_node_dir_get: "shard_from P sh \<Longrightarrow> length (node_dir_get e nd sh ks) = length ks"
  by (simp add: node_dir_get_def dir_get_groups)

lemma fill_misses_none: "fill_misses (replicate (length fresh) None) fresh = fresh"
  by (induction fresh) simp_all

lemma missing_none: "missing ks (replicate (length ks) None) = ks"
  by (induction ks) (simp_all add: missing_def)

lemma pop_primed_empty: "pop_primed now [] ks = ([], replicate (length ks) None)"
  by (induction ks) (simp_all add: unexpired_def)

text \<open>With no primed location and no cache, the locations are the answers of the directory.\<close>

lemma take_primed_plain:
  assumes "shard_from P sh" and "nd_cache_ttl nd \<le> 0" and "nd_primed nd = []"
  shows "take_primed e nd sh ks = (nd, node_dir_get e nd sh ks)"
proof -
  have nd: "nd\<lparr>nd_primed := []\<rparr> = nd" using assms(3) by (cases nd) simp
  have "node_dir_get e nd sh [] = []" using length_node_dir_get [OF assms(1), of e nd "[]"] by simp
  then show ?thesis
    using assms(2,3) fill_misses_none [of "node_dir_get e nd sh ks"]
    by (simp add: take_primed_def cached_get_def pop_primed_empty missing_none length_node_dir_get [OF assms(1)] Let_def nd)
qed

lemma resolve_all_resident: "non_resident locs = [] \<Longrightarrow> resolve_non_resident e st ks locs = (st, locs, [])"
  by (simp add: resolve_non_resident_def)

lemma node_dir_get_entry:
  assumes "shard_from P sh" and "i < length ks" and "node_dir_get e nd sh ks ! i = Some l"
  shows "\<exists>ep. loc_at (sh ep) (ks ! i) = Some l"
  using assms(2,3) unfolding node_dir_get_def dir_get_groups [OF assms(1)] by (auto split: option.splits)

lemma directory_true_loc:
  assumes "cluster_ok e sz K P (ns, sh)" and "loc_at (sh ep) k = Some l" and "resident l"
  shows "true_loc ns k l"
  using assms dir_okD(3) by (fastforce simp: true_loc_def cluster_ok_def node_ok_def own_entry_def)

text \<open>The items of a fetch, and what the directory's answers make of them.\<close>

definition fetch_items :: "data_location option list \<Rightarrow> string list \<Rightarrow> nat list \<Rightarrow> nat list \<Rightarrow> fetch_item list" where
  "fetch_items locs ks ptrs sizes = zip (zip [0..<length ks] locs) (zip ks (zip ptrs sizes))"

lemma set_fetch_items:
  assumes "length locs = length ks" "length ptrs = length ks" "length sizes = length ks"
  shows "set (fetch_items locs ks ptrs sizes) = {((i, locs ! i), ks ! i, ptrs ! i, sizes ! i) | i. i < length ks}"
    and "map it_idx (fetch_items locs ks ptrs sizes) = [0..<length ks]"
proof -
  have eq: "fetch_items locs ks ptrs sizes = map (\<lambda>i. ((i, locs ! i), ks ! i, ptrs ! i, sizes ! i)) [0..<length ks]"
    by (rule nth_equalityI) (simp_all add: fetch_items_def assms)
  show "set (fetch_items locs ks ptrs sizes) = {((i, locs ! i), ks ! i, ptrs ! i, sizes ! i) | i. i < length ks}"
    unfolding eq by auto
  have "it_idx \<circ> (\<lambda>i. ((i, locs ! i), ks ! i, ptrs ! i, sizes ! i)) = id" by (simp add: fun_eq_iff)
  then show "map it_idx (fetch_items locs ks ptrs sizes) = [0..<length ks]" unfolding eq map_map by simp
qed

definition homed :: "(string \<Rightarrow> string) \<Rightarrow> data_location option list \<Rightarrow> bool" where
  "homed host locs \<longleftrightarrow> (\<forall>l. Some l \<in> set locs \<and> resident l \<longrightarrow> leads_home host l)"

lemma fetch_items_ok:
  assumes ok: "cluster_ok e sz K P (ns, sh)" and me: "ns c = Some me"
    and home: "homed host (node_dir_get e me sh ks)"
    and len: "length ptrs = length ks" "length sizes = length ks"
  shows "items_ok ns host (fetch_items (node_dir_get e me sh ks) ks ptrs sizes)"
proof -
  have sf: "shard_from UNIV sh" using ok me by (auto simp: cluster_ok_def node_ok_def)
  have "true_loc ns (ks ! i) l \<and> leads_home host l" if "i < length ks" "node_dir_get e me sh ks ! i = Some l" "resident l" for i l
  proof -
    have "Some l \<in> set (node_dir_get e me sh ks)" using that(1,2) length_node_dir_get [OF sf] nth_mem by metis
    then show ?thesis using node_dir_get_entry [OF sf that(1,2)] directory_true_loc [OF ok _ that(3)] home that(3)
      unfolding homed_def by blast
  qed
  then show ?thesis by (auto simp: items_ok_def set_fetch_items [OF length_node_dir_get [OF sf] len])
qed

text \<open>The destinations of a fetch: one per page, outside the pool and apart from each other.\<close>

definition buffers_ok :: "node \<Rightarrow> nat list \<Rightarrow> nat list \<Rightarrow> bool" where
  "buffers_ok nd ptrs sizes \<longleftrightarrow>
     (\<forall>i < length ptrs. outside_pool nd (ptrs ! i) (sizes ! i)) \<and>
     (\<forall>i < length ptrs. \<forall>j < length ptrs. i \<noteq> j \<longrightarrow> disjoint_range (ptrs ! i) (sizes ! i) (ptrs ! j) (sizes ! j))"

lemma buffers_dsts:
  assumes "buffers_ok nd ptrs sizes" "length locs = length ks" "length ptrs = length ks" "length sizes = length ks"
  shows "dsts_ok nd (fetch_items locs ks ptrs sizes)"
  using assms(1) by (auto simp: dsts_ok_def buffers_ok_def set_fetch_items [OF assms(2-4)] assms(3))

lemma fetch_start:
  "reader_ok e sz K P sh me me \<Longrightarrow> fetch_inv e sz K P sh me host n []
     \<lparr>fa_node = me, fa_results = replicate n False, fa_sources = replicate n None, fa_reads = [], fa_eps = [], fa_rks = []\<rparr>"
  by (simp add: fetch_inv_def delivered_def railed_def)

text \<open>The bookkeeping that ends a fetch.\<close>

definition account :: "env \<Rightarrow> string list \<Rightarrow> bool list \<Rightarrow> nat list \<Rightarrow> string option list \<Rightarrow> node \<Rightarrow> node" where
  "account e ks results sizes sources nd =
     (let nd = record_reads e results sizes sources nd
      in if nd_cache_ttl nd > 0
         then dir_cache_invalidate nd (map fst (filter (\<lambda>(k, ok). \<not> ok) (zip ks results))) else nd)"

lemma node_ok_accounts: "node_ok e sz K P (nd, sh) \<Longrightarrow> node_ok e sz K P (nd\<lparr>nd_metrics := mx, nd_dir_cache := c\<rparr>, sh)"
  by (rule node_ok_grow) (auto simp: same_node_def region_of_def node_ok_def disk_ok_def)

lemma account_ok:
  assumes "reader_ok e sz K P sh me nd"
  shows "reader_ok e sz K P sh me (account e' ks results sizes sources nd)"
    and "nd_mem (account e' ks results sizes sources nd) = nd_mem nd"
proof -
  have "reader_ok e sz K P sh me (nd\<lparr>nd_metrics := mx, nd_dir_cache := c\<rparr>)" for mx c
    using assms by (simp add: reader_ok_def same_node_def points_to_def region_of_def node_ok_accounts)
  moreover have "\<exists>mx c. account e' ks results sizes sources nd = nd\<lparr>nd_metrics := mx, nd_dir_cache := c\<rparr>"
    by (cases nd) (simp add: account_def record_reads_def dir_cache_invalidate_def Let_def)
  ultimately show "reader_ok e sz K P sh me (account e' ks results sizes sources nd)"
    and "nd_mem (account e' ks results sizes sources nd) = nd_mem nd" by auto
qed

definition fetch_loop :: "node \<Rightarrow> nat \<Rightarrow> fetch_item list \<Rightarrow> fetch_acc" where
  "fetch_loop me n its = fold (fetch_one []) its
     \<lparr>fa_node = me, fa_results = replicate n False, fa_sources = replicate n None, fa_reads = [], fa_eps = [], fa_rks = []\<rparr>"

text \<open>With resident pages only, a fetch is the loop, the reads it noted and the bookkeeping.\<close>

lemma st_fetch_plain:
  assumes sf: "shard_from P sh" and plain: "nd_mode me \<noteq> ''slotmap''" "nd_cache_ttl me \<le> 0" "nd_primed me = []"
    and res: "non_resident (node_dir_get e me sh ks) = []"
  shows "st_fetch e \<lparr>st_me = me, st_shards = sh, st_peers = ns\<rparr> ks ptrs sizes =
    fmap_result (\<lambda>(st, results, sources). (st\<lparr>st_me := account e ks results sizes sources (st_me st)\<rparr>, results))
      (remote_fetch e \<lparr>st_me = me, st_shards = sh, st_peers = ns\<rparr> []
        (fetch_loop me (length ks) (fetch_items (node_dir_get e me sh ks) ks ptrs sizes)))"
  using plain(1) unfolding st_fetch_def Let_def store_state.simps take_primed_plain [OF sf plain(2,3)] prod.case
    resolve_all_resident [OF res] fetch_items_def [symmetric] fetch_loop_def [symmetric]
  by (simp add: account_def Let_def)

lemma st_fetch_delivers:
  assumes ok: "cluster_ok e sz K P (ns, sh)" and me: "ns c = Some me"
    and plain: "nd_mode me \<noteq> ''slotmap''" "nd_cache_ttl me \<le> 0" "nd_primed me = []"
    and len: "length ptrs = length ks" "length sizes = length ks" and buf: "buffers_ok me ptrs sizes"
    and res: "non_resident (node_dir_get e me sh ks) = []" and routes: "routed e ns host"
    and home: "homed host (node_dir_get e me sh ks)"
  shows "\<exists>nd results. st_fetch e \<lparr>st_me = me, st_shards = sh, st_peers = ns\<rparr> ks ptrs sizes =
      Inr (\<lparr>st_me = nd, st_shards = sh, st_peers = ns\<rparr>, results) \<and> length results = length ks \<and>
    reader_ok e sz K P sh me nd \<and>
    delivered P (nd_mem nd) results (fetch_items (node_dir_get e me sh ks) ks ptrs sizes)"
proof -
  define its where "its = fetch_items (node_dir_get e me sh ks) ks ptrs sizes"
  let ?st = "\<lparr>st_me = me, st_shards = sh, st_peers = ns\<rparr>" and ?n = "length ks"
  have nok: "\<And>c nd. ns c = Some nd \<Longrightarrow> node_ok e sz K P (nd, sh)" using ok by (simp add: cluster_ok_def)
  have sf: "shard_from UNIV sh" using nok [OF me] by (simp add: node_ok_def)
  note set_its = set_fetch_items [OF length_node_dir_get [OF sf, of e me] len, folded its_def]
  have idx: "distinct (map it_idx its)" "\<forall>x \<in> set its. it_idx x < ?n" by (auto simp: set_its)
  have dst: "dsts_ok me its" unfolding its_def by (rule buffers_dsts [OF buf length_node_dir_get [OF sf] len])
  have items: "items_ok ns host its" unfolding its_def by (rule fetch_items_ok [OF ok me home len])
  define a where "a = fetch_loop me ?n its"
  have "reader_ok e sz K P sh me me" using nok [OF me] by (simp add: reader_ok_def)
  from fetch_fold_inv [OF fetch_start [OF this, of host ?n] _ _ _ items me, of "[]"] dst idx
  have inv: "fetch_inv e sz K P sh me host ?n its a" by (simp add: a_def fetch_loop_def)
  have pools: "\<And>c nd. ns c = Some nd \<Longrightarrow> pool_ok sz P nd" using nok by (simp add: node_ok_def)
  have "\<exists>nd results sources. remote_fetch e ?st [] a = Inr (?st\<lparr>st_me := nd\<rparr>, results, sources) \<and>
      length results = ?n \<and> reader_ok e sz K P sh me nd \<and> delivered P (nd_mem nd) results its"
    by (rule remote_fetch_ok [OF inv dst idx]) (simp_all add: items routes, erule pools)
  then obtain nd results sources where out: "remote_fetch e ?st [] a = Inr (?st\<lparr>st_me := nd\<rparr>, results, sources)"
      "length results = ?n" "reader_ok e sz K P sh me nd" "delivered P (nd_mem nd) results its" by blast
  define nd' where "nd' = account e ks results sizes sources nd"
  have "st_fetch e ?st ks ptrs sizes = Inr (\<lparr>st_me = nd', st_shards = sh, st_peers = ns\<rparr>, results)"
    unfolding st_fetch_plain [OF sf plain res] its_def [symmetric] a_def [symmetric] out(1) by (simp add: fmap_result_def nd'_def)
  moreover have "reader_ok e sz K P sh me nd'" "delivered P (nd_mem nd') results its"
    unfolding nd'_def using account_ok [OF out(3)] out(4) by simp_all
  ultimately show ?thesis using out(2) unfolding its_def by blast
qed


text \<open>A second node, with a view of the first, reads what the first has published.\<close>

definition two_env :: env where
  "two_env = one_env\<lparr>e_rdma := [''a:2'' \<mapsto> ''a:1'', ''b:2'' \<mapsto> ''b:1'']\<rparr>"

definition two_reader :: node where
  "two_reader = (one_node 8 None)\<lparr>nd_id := ''b'', nd_endpoint := ''b:2'', nd_rails := [''b:2'']\<rparr>"

definition two_state :: store_state where
  "two_state = \<lparr>st_me = two_reader, st_shards = snd one_published,
     st_peers = [''a:1'' \<mapsto> fst one_published, ''b:1'' \<mapsto> two_reader]\<rparr>"

lemma two_lookup:
  "node_dir_get two_env two_reader (snd one_published) [''k''] =
    [Some (resident_location (one_node 8 None) (pool_init 100 8 1 [1]) 100 4)]"
  by code_simp

lemma two_fetch: "map_sum id snd (st_fetch two_env two_state [''k''] [500] [4]) = Inr [True]"
  by code_simp


end
