(* ===== verification/Api.thy ===== *)
theory Api
  imports Store
begin

text \<open>
  The interfaces SGLang calls (\<^verbatim>\<open>python/peercache/store.py\<close>): the zero-copy \<open>v1\<close> and \<open>v2\<close> calls, the
  generic value interface, \<open>exists\<close>, \<open>clear\<close>, \<open>close\<close> and the gauges.

  SGLang's host pools are a parameter: a pool answers \<open>get_page_buffer_meta\<close> with the addresses and
  sizes of its pages, or raises. Pool names compare as with the stand-in for SGLang's \<open>PoolName\<close>.
\<close>

section \<open>Existence\<close>

text \<open>The pages all of whose components are present, up to the first that is not.\<close>

definition page_prefix :: "bool list \<Rightarrow> nat \<Rightarrow> nat \<Rightarrow> nat" where
  "page_prefix present n m =
     length (takeWhile (\<lambda>k. let block = take m (drop (k * m) present) in block \<noteq> [] \<and> list_all (\<lambda>b. b) block) [0..<n])"

definition count_exists :: "node \<Rightarrow> nat \<Rightarrow> node" where
  "count_exists nd n =
     (let nd = nd_inc nd ''exists_requests'' 1 in if n > 0 then nd_inc nd ''exists_pages_found'' (int n) else nd)"

definition exists_in_slots :: "env \<Rightarrow> store_state \<Rightarrow> string list \<Rightarrow> nat \<Rightarrow> nat \<Rightarrow> (store_state \<times> nat \<times> string list) result" where
  "exists_in_slots e st comp_keys n_keys m =
     fmap_result (\<lambda>(st, present).
       let n = page_prefix present n_keys m;
           nd = count_exists (st_me st) n;
           nd = (if n > 0 then nd\<lparr>nd_keyspace_detected := True\<rparr> else nd)
       in (st\<lparr>st_me := nd\<rparr>, n, [])) (exists_slotmap e st comp_keys)"

text \<open>The keyspace a read-only node has not seen yet: the other one is probed once on a full miss.\<close>

definition probe_keyspace ::
  "env \<Rightarrow> node \<Rightarrow> shards \<Rightarrow> string list \<Rightarrow> node \<times> string list \<times> nat \<times> data_location option list \<times> nat" where
  "probe_keyspace e nd sh keys =
     (let (comp_keys, m) = lookup_keys nd keys;
          (nd, locs) = cached_get e nd sh comp_keys;
          n = hit_prefix locs m
      in if n > 0 then (nd\<lparr>nd_keyspace_detected := True\<rparr>, comp_keys, m, locs, n)
         else if nd_keyspace_detected nd then (nd, comp_keys, m, locs, n)
         else
           let alt_raw = (\<not> nd_raw_keys nd);
               (alt_keys, alt_m) = (if alt_raw then (keys, 1) else component_keys nd keys);
               (nd, alt_locs) = cached_get e nd sh alt_keys;
               alt_n = hit_prefix alt_locs alt_m
           in if alt_n > 0
              then (nd\<lparr>nd_raw_keys := alt_raw, nd_keyspace_detected := True\<rparr>, alt_keys, alt_m, alt_locs, alt_n)
              else (nd, comp_keys, m, locs, n))"

text \<open>
  The state, the number of pages found from the start, and the keys whose promotion is handed to the
  background threads (\<open>prefetch\<close>).
\<close>

definition batch_exists :: "env \<Rightarrow> store_state \<Rightarrow> string list \<Rightarrow> (store_state \<times> nat \<times> string list) result" where
  "batch_exists e st keys =
     (if nd_mode (st_me st) = ''slotmap''
      then let (comp_keys, m) = lookup_keys (st_me st) keys in exists_in_slots e st comp_keys (length keys) m
      else
        let (nd, comp_keys, m, locs, n) = probe_keyspace e (st_me st) (st_shards st) keys;
            nd = count_exists nd n;
            hit = n * m;
            nd = (if hit > 0 then prime e nd (take hit comp_keys) (take hit locs) else nd)
        in Inr (st\<lparr>st_me := nd\<rparr>, n, if n > 0 \<and> nd_disk nd \<noteq> None then take hit comp_keys else []))"

definition st_exists :: "env \<Rightarrow> store_state \<Rightarrow> string \<Rightarrow> (store_state \<times> bool \<times> string list) result" where
  "st_exists e st key = fmap_result (\<lambda>(st, n, ks). (st, n > 0, ks)) (batch_exists e st [key])"

section \<open>The v1 calls\<close>

record 'i host_pool =
  hp_kv_buffer :: bool
  hp_v_buffer :: bool
  hp_meta :: "'i \<Rightarrow> (nat list \<times> nat list) result"

definition v1_buffer_meta :: "'i host_pool option \<Rightarrow> 'i \<Rightarrow> (nat list \<times> nat list) option" where
  "v1_buffer_meta mem_pool_host host_indices =
     (case mem_pool_host of
        None \<Rightarrow> None
      | Some hp \<Rightarrow> if \<not> hp_kv_buffer hp then None
                   else case hp_meta hp host_indices of Inl _ \<Rightarrow> None | Inr meta \<Rightarrow> Some meta)"

definition v1_call ::
  "(store_state \<Rightarrow> string list \<Rightarrow> nat list \<Rightarrow> nat list \<Rightarrow> (store_state \<times> bool list) result) \<Rightarrow>
   'i host_pool option \<Rightarrow> store_state \<Rightarrow> string list \<Rightarrow> 'i \<Rightarrow> (store_state \<times> bool list) result" where
  "v1_call run mem_pool_host st keys host_indices =
     (case v1_buffer_meta mem_pool_host host_indices of
        None \<Rightarrow> Inr (st, replicate (length keys) False)
      | Some (ptrs, sizes) \<Rightarrow>
          (let (comp_keys, m) = component_keys (st_me st) keys
           in if \<not> (length comp_keys = length ptrs \<and> length ptrs = length sizes)
              then Inr (st, replicate (length keys) False)
              else fmap_result (\<lambda>(st, comp_results). (st, page_results comp_results m)) (run st comp_keys ptrs sizes)))"

definition batch_set_v1 ::
  "env \<Rightarrow> 'i host_pool option \<Rightarrow> store_state \<Rightarrow> string list \<Rightarrow> 'i \<Rightarrow> (store_state \<times> bool list) result" where
  "batch_set_v1 e = v1_call (st_publish e)"

definition batch_get_v1 ::
  "env \<Rightarrow> 'i host_pool option \<Rightarrow> store_state \<Rightarrow> string list \<Rightarrow> 'i \<Rightarrow> (store_state \<times> bool list) result" where
  "batch_get_v1 e = v1_call (st_fetch e)"

section \<open>The v2 calls\<close>

record 'i pool_transfer =
  tr_name :: string
  tr_keys :: "string list"
  tr_host_indices :: 'i
  tr_all_pages :: bool

record 'i host_pools =
  hs_mem_pool_host :: "'i host_pool option"
  hs_registered :: "(string, 'i host_pool) dict"

definition v2_host_pool :: "'i host_pools \<Rightarrow> string \<Rightarrow> 'i host_pool option" where
  "v2_host_pool hs name = (if name = ''kv'' then hs_mem_pool_host hs else map_of (hs_registered hs) name)"

definition v2_component_keys :: "node \<Rightarrow> 'i host_pools \<Rightarrow> 'i pool_transfer \<Rightarrow> string list \<times> nat" where
  "v2_component_keys nd hs t =
     (let name = tr_name t; keys = tag_keys nd (tr_keys t)
      in if name = ''kv'' then component_keys nd (tr_keys t)
         else if name \<in> {''draft'', ''draft_mla''}
         then let draft_pool = (case map_of (hs_registered hs) name of
                                  Some hp \<Rightarrow> Some hp | None \<Rightarrow> map_of (hs_registered hs) ''draft'')
              in if draft_pool \<noteq> None \<and> \<not> hp_v_buffer (the draft_pool)
                 then (map (\<lambda>k. k @ ''_'' @ nd_mla_suffix nd @ ''_draft_k'') keys, 1)
                 else (concat (map (\<lambda>k. [k @ ''_'' @ nd_mha_suffix nd @ ''_draft_k'',
                                          k @ ''_'' @ nd_mha_suffix nd @ ''_draft_v'']) keys), 2)
         else (map (\<lambda>k. k @ ''_'' @ nd_mha_suffix nd @ ''_'' @ name) keys, 1))"

text \<open>The buffers of one page copied one after another from \<open>dst\<close> on, and back.\<close>

fun gather :: "mem \<Rightarrow> nat \<Rightarrow> (nat \<times> nat) list \<Rightarrow> mem" where
  "gather m dst [] = m"
| "gather m dst ((p, sz) # bufs) = gather (memmove m dst p sz) (dst + sz) bufs"

fun scatter :: "mem \<Rightarrow> nat \<Rightarrow> (nat \<times> nat) list \<Rightarrow> mem" where
  "scatter m src [] = m"
| "scatter m src ((p, sz) # bufs) = scatter (memmove m p src sz) (src + sz) bufs"

definition page_buffers :: "nat \<Rightarrow> nat list \<Rightarrow> nat list \<Rightarrow> nat \<Rightarrow> (nat \<times> nat) list" where
  "page_buffers nbuf ptrs sizes i = zip (take nbuf (drop (i * nbuf) ptrs)) (take nbuf (drop (i * nbuf) sizes))"

text \<open>
  \<open>_pack_multi_buffer\<close>: memory, packed addresses, packed sizes and the buffers kept alive. The buffer
  of page \<open>i\<close> is allocated at \<open>e_scratch e i\<close>.
\<close>

definition pack_multi_buffer ::
  "env \<Rightarrow> mem \<Rightarrow> string list \<Rightarrow> nat list \<Rightarrow> nat list \<Rightarrow> (mem \<times> nat list \<times> nat list \<times> nat list) result" where
  "pack_multi_buffer e m comp_keys ptrs sizes =
     (let n = length comp_keys
      in if length ptrs = n then Inr (m, ptrs, sizes, [])
         else if n = 0 then Inl ZeroDivisionError
         else if length ptrs mod n \<noteq> 0 then Inl AssertionError
         else
           let nbuf = length ptrs div n;
               bufs = map (e_scratch e) [0..<n]
           in Inr (fold (\<lambda>i m. gather m (e_scratch e i) (page_buffers nbuf ptrs sizes i)) [0..<n] m,
                   bufs, map (\<lambda>i. sum_list (take nbuf (drop (i * nbuf) sizes))) [0..<n], bufs))"

definition scatter_multi_buffer ::
  "mem \<Rightarrow> string list \<Rightarrow> nat list \<Rightarrow> nat list \<Rightarrow> nat list \<Rightarrow> bool list \<Rightarrow> mem \<times> bool list" where
  "scatter_multi_buffer m comp_keys ptrs sizes keepalive results =
     (let n = length comp_keys
      in if length ptrs = n then (m, results)
         else
           let nbuf = length ptrs div n
           in fold (\<lambda>i (m, results).
                      if \<not> results ! i then (m, results)
                      else if i \<ge> length keepalive then (m, results[i := False])
                      else (scatter m (keepalive ! i) (page_buffers nbuf ptrs sizes i), results))
                [0..<n] (m, results))"

definition nd_set_mem :: "mem \<Rightarrow> store_state \<Rightarrow> store_state" where
  "nd_set_mem m st = st\<lparr>st_me := (st_me st)\<lparr>nd_mem := m\<rparr>\<rparr>"

text \<open>A pool that was never registered has no \<open>get_page_buffer_meta\<close>.\<close>

definition v2_buffers ::
  "env \<Rightarrow> 'i host_pools \<Rightarrow> store_state \<Rightarrow> 'i pool_transfer \<Rightarrow>
   (store_state \<times> string list \<times> nat \<times> (nat list \<times> nat list) \<times> (nat list \<times> nat list) \<times> nat list) result" where
  "v2_buffers e hs st t =
     (case v2_host_pool hs (tr_name t) of
        None \<Rightarrow> Inl AttributeError
      | Some hp \<Rightarrow>
          (let (comp_keys, m) = v2_component_keys (st_me st) hs t
           in bind_result (hp_meta hp (tr_host_indices t)) (\<lambda>(ptrs, sizes).
              fmap_result (\<lambda>(mem, p_ptrs, p_sizes, keepalive).
                  (nd_set_mem mem st, comp_keys, m, (ptrs, sizes), (p_ptrs, p_sizes), keepalive))
                (pack_multi_buffer e (nd_mem (st_me st)) comp_keys ptrs sizes))))"

definition set_transfer ::
  "env \<Rightarrow> 'i host_pools \<Rightarrow> 'i pool_transfer \<Rightarrow> store_state \<times> (string, bool list) dict \<Rightarrow>
   (store_state \<times> (string, bool list) dict) result" where
  "set_transfer e hs t acc =
     bind_result (v2_buffers e hs (fst acc) t) (\<lambda>(st, comp_keys, m, meta, (p_ptrs, p_sizes), keepalive).
     fmap_result (\<lambda>(st, comp). (st, AList.update (tr_name t) (page_results comp m) (snd acc)))
       (st_publish e st comp_keys p_ptrs p_sizes))"

definition batch_set_v2 ::
  "env \<Rightarrow> 'i host_pools \<Rightarrow> store_state \<Rightarrow> 'i pool_transfer list \<Rightarrow> (store_state \<times> (string, bool list) dict) result" where
  "batch_set_v2 e hs st transfers = fold_result (set_transfer e hs) transfers (st, [])"

definition get_transfer ::
  "env \<Rightarrow> 'i host_pools \<Rightarrow> 'i pool_transfer \<Rightarrow> store_state \<times> (string, bool list) dict \<Rightarrow>
   (store_state \<times> (string, bool list) dict) result" where
  "get_transfer e hs t acc =
     bind_result (v2_buffers e hs (fst acc) t) (\<lambda>(st, comp_keys, m, (ptrs, sizes), (p_ptrs, p_sizes), keepalive).
     fmap_result (\<lambda>(st, comp).
         let (mem, comp) = scatter_multi_buffer (nd_mem (st_me st)) comp_keys ptrs sizes keepalive comp
         in (nd_set_mem mem st, AList.update (tr_name t) (page_results comp m) (snd acc)))
       (st_fetch e st comp_keys p_ptrs p_sizes))"

definition batch_get_v2 ::
  "env \<Rightarrow> 'i host_pools \<Rightarrow> store_state \<Rightarrow> 'i pool_transfer list \<Rightarrow> (store_state \<times> (string, bool list) dict) result" where
  "batch_get_v2 e hs st transfers = fold_result (get_transfer e hs) transfers (st, [])"

text \<open>One pool of \<open>batch_exists_v2\<close>: the pages of the prefix it allows.\<close>

definition transfer_boundary :: "'i pool_transfer \<Rightarrow> nat \<Rightarrow> nat \<Rightarrow> data_location option list \<Rightarrow> nat" where
  "transfer_boundary t kv_pages m locs =
     (let ex = map (\<lambda>l. l \<noteq> None) locs
      in if tr_all_pages t
         then length (takeWhile (\<lambda>i. list_all (\<lambda>b. b) (take m (drop (i * m) ex))) [0..<kv_pages])
         else let window = (if tr_keys t = [] then 1 else length (tr_keys t))
              in if list_all (\<lambda>b. b) (take window ex) then kv_pages else 0)"

fun exists_transfers ::
  "env \<Rightarrow> 'i host_pools \<Rightarrow> nat \<Rightarrow> 'i pool_transfer list \<Rightarrow> store_state \<times> nat \<times> (string, nat) dict \<Rightarrow>
   store_state \<times> nat \<times> (string, nat) dict" where
  "exists_transfers e hs kv_pages [] acc = acc"
| "exists_transfers e hs kv_pages (t # ts) (st, final_pages, hit_count) =
     (if final_pages = 0 then (st, final_pages, hit_count)
      else
        let (comp_keys, m) = v2_component_keys (st_me st) hs t;
            (nd, locs) = cached_get e (st_me st) (st_shards st) comp_keys;
            nd = prime e nd comp_keys locs;
            boundary = transfer_boundary t kv_pages m locs
        in exists_transfers e hs kv_pages ts
             (st\<lparr>st_me := nd\<rparr>, min final_pages boundary,
              if boundary > 0 then AList.update (tr_name t) boundary hit_count else hit_count))"

definition batch_exists_v2 ::
  "env \<Rightarrow> 'i host_pools \<Rightarrow> store_state \<Rightarrow> string list \<Rightarrow> 'i pool_transfer list \<Rightarrow>
   (store_state \<times> nat \<times> (string, nat) dict) result" where
  "batch_exists_v2 e hs st keys pool_transfers =
     fmap_result (\<lambda>(st, kv_pages, prefetched).
       exists_transfers e hs kv_pages pool_transfers
         (st, kv_pages, if kv_pages > 0 then [(''kv'', kv_pages)] else [])) (batch_exists e st keys)"

section \<open>The generic calls\<close>

text \<open>
  A value or a destination: an address, a tensor (its size may be unknown), bytes, a numpy array, or
  anything else.
\<close>

datatype py_buffer =
    IntPtr nat
  | Tensor nat "nat option"
  | BytesLike bytes
  | NdArray nat nat
  | Unsupported

text \<open>\<open>_obj_ptr_size\<close>; bytes are copied to the address \<open>buf\<close>.\<close>

fun obj_ptr_size :: "nat \<Rightarrow> mem \<Rightarrow> py_buffer \<Rightarrow> (mem \<times> nat \<times> nat option) result" where
  "obj_ptr_size buf m (IntPtr p) = Inr (m, p, None)"
| "obj_ptr_size buf m (Tensor p n) = Inr (m, p, n)"
| "obj_ptr_size buf m (BytesLike b) = Inr (write_bytes m buf b, buf, Some (length b))"
| "obj_ptr_size buf m (NdArray p n) = Inr (m, p, Some n)"
| "obj_ptr_size buf m Unsupported = Inl TypeError"

definition ptrs_sizes_one ::
  "env \<Rightarrow> nat list option \<Rightarrow> nat \<times> py_buffer \<Rightarrow> mem \<times> nat list \<times> nat option list \<Rightarrow>
   (mem \<times> nat list \<times> nat option list) result" where
  "ptrs_sizes_one e given x acc =
     (let (i, b) = x; (m, ptrs, out_sizes) = acc
      in bind_result (obj_ptr_size (e_scratch e i) m b) (\<lambda>(m, p, n).
           case given of
             None \<Rightarrow> Inr (m, ptrs @ [p], out_sizes @ [n])
           | Some ss \<Rightarrow> if i < length ss then Inr (m, ptrs @ [p], out_sizes @ [Some (ss ! i)]) else Inl IndexError))"

definition ptrs_sizes ::
  "env \<Rightarrow> mem \<Rightarrow> py_buffer list \<Rightarrow> nat list option \<Rightarrow> (mem \<times> nat list \<times> nat option list) result" where
  "ptrs_sizes e m locs given = fold_result (ptrs_sizes_one e given) (zip [0..<length locs] locs) (m, [], [])"

text \<open>
  \<open>batch_set\<close> and \<open>batch_get\<close>. A bare address without a size is \<open>None\<close> here: what a size that is
  Python's \<open>None\<close> does further down is outside the model.
\<close>

definition raw_keyspace :: "store_state \<Rightarrow> store_state" where
  "raw_keyspace st = st\<lparr>st_me := (st_me st)\<lparr>nd_raw_keys := True, nd_keyspace_detected := True\<rparr>\<rparr>"

definition batch_set ::
  "env \<Rightarrow> store_state \<Rightarrow> string list \<Rightarrow> py_buffer list option \<Rightarrow> py_buffer list option \<Rightarrow> nat list option \<Rightarrow>
   (store_state \<times> bool) result option" where
  "batch_set e st keys vals target_locations target_sizes =
     (let st = raw_keyspace st
      in case (if target_locations \<noteq> None then target_locations else vals) of
           None \<Rightarrow> Some (Inr (st, False))
         | Some src \<Rightarrow>
             (case ptrs_sizes e (nd_mem (st_me st)) src target_sizes of
                Inl ex \<Rightarrow> Some (Inl ex)
              | Inr (m, ptrs, out_sizes) \<Rightarrow>
                  map_option (\<lambda>sizes.
                      fmap_result (\<lambda>(st, res). (st, list_all (\<lambda>b. b) res))
                        (st_publish e (nd_set_mem m st) (tag_keys (st_me st) keys) ptrs sizes))
                    (those out_sizes)))"

definition batch_get ::
  "env \<Rightarrow> store_state \<Rightarrow> string list \<Rightarrow> py_buffer list option \<Rightarrow> nat list option \<Rightarrow>
   (store_state \<times> py_buffer option list) result option" where
  "batch_get e st keys target_locations target_sizes =
     (let st = raw_keyspace st
      in case target_locations of
           None \<Rightarrow> Some (Inr (st, replicate (length keys) None))
         | Some dsts \<Rightarrow>
             (case ptrs_sizes e (nd_mem (st_me st)) dsts target_sizes of
                Inl ex \<Rightarrow> Some (Inl ex)
              | Inr (m, ptrs, out_sizes) \<Rightarrow>
                  map_option (\<lambda>sizes.
                      fmap_result (\<lambda>(st, oks). (st, map (\<lambda>(d, ok). if ok then Some d else None) (zip dsts oks)))
                        (st_fetch e (nd_set_mem m st) (tag_keys (st_me st) keys) ptrs sizes))
                    (those out_sizes)))"

definition st_set ::
  "env \<Rightarrow> store_state \<Rightarrow> string \<Rightarrow> py_buffer option \<Rightarrow> py_buffer option \<Rightarrow> nat option \<Rightarrow>
   (store_state \<times> bool) result option" where
  "st_set e st key val target_location target_sizes =
     batch_set e st [key] (map_option (\<lambda>v. [v]) val) (map_option (\<lambda>v. [v]) target_location)
       (map_option (\<lambda>n. [n]) target_sizes)"

definition st_get ::
  "env \<Rightarrow> store_state \<Rightarrow> string \<Rightarrow> py_buffer option \<Rightarrow> nat option \<Rightarrow>
   (store_state \<times> py_buffer option) result option" where
  "st_get e st key target_location target_sizes =
     map_option (fmap_result (\<lambda>(st, res). (st, hd res)))
       (batch_get e st [key] (map_option (\<lambda>v. [v]) target_location) (map_option (\<lambda>n. [n]) target_sizes))"

section \<open>Clearing, membership and shutdown\<close>

definition clear_page :: "string \<Rightarrow> node \<Rightarrow> node" where
  "clear_page k nd =
     nd\<lparr>nd_pool := map_option (\<lambda>p. pool_remove p k) (nd_pool nd),
        nd_disk := map_option (\<lambda>d. disk_remove d k) (nd_disk nd)\<rparr>"

definition clear :: "env \<Rightarrow> (string set \<Rightarrow> string list) \<Rightarrow> node \<times> shards \<Rightarrow> node \<times> shards" where
  "clear e enum s =
     (let (nd, sh) = s;
          keys = enum (set (map fst (nd_key_len nd)) \<union>
                       (case nd_pool nd of None \<Rightarrow> {} | Some p \<Rightarrow> set (map fst (pl_entries p))));
          sh = (if keys \<noteq> [] then node_dir_delete e nd sh keys else sh)
      in ((fold clear_page keys nd)\<lparr>nd_key_len := []\<rparr>, sh))"

definition on_membership_change :: "env \<Rightarrow> node \<times> shards \<Rightarrow> node \<times> shards" where
  "on_membership_change e s =
     (let (nd, sh) = s
      in if nd_mode nd = ''slotmap'' then (invalidate_peer_layouts nd, sh)
         else if nd_pool nd = None then s
         else republish_directory e s)"

definition check_server :: "node \<Rightarrow> bool" where
  "check_server nd \<longleftrightarrow> ring_len (rt_ring (nd_runtime nd)) \<ge> 1"

text \<open>
  \<open>get_stats\<close>: the pages read and written, and for the two bandwidths the bytes and the nanoseconds
  whose quotient is reported.
\<close>

definition get_stats :: "int \<Rightarrow> metrics \<Rightarrow> (int \<times> int) \<times> (int \<times> int) \<times> (int \<times> int)" where
  "get_stats now mx =
     (let elapsed = max 1 (now - mx_start mx)
      in ((counter mx ''read_requests'', counter mx ''write_requests''),
          (counter mx ''bytes_read'', elapsed), (counter mx ''bytes_written'', elapsed)))"

definition close :: "env \<Rightarrow> disc_env \<Rightarrow> bool \<Rightarrow> nat \<Rightarrow> bool \<times> node \<Rightarrow> masters \<Rightarrow> masters \<times> bool \<times> node" where
  "close e de io n cn ms =
     (let (closed, nd) = cn
      in if closed then (ms, cn)
         else let nd = nd\<lparr>nd_disk := map_option (disk_close (e_sha e) io n) (nd_disk nd)\<rparr>;
                  (ms, rt) = runtime_stop de (nd_runtime nd) ms
              in (ms, True, nd\<lparr>nd_runtime := rt\<rparr>))"

section \<open>Gauges\<close>

definition GAUGES :: "string list" where
  "GAUGES =
     [''pool_bytes_used'', ''pool_capacity_bytes'', ''pool_keys'', ''disk_bytes_used'', ''disk_capacity_bytes'',
      ''disk_keys'', ''members'', ''storage_nodes'', ''rdma_rails'', ''rdma_read_timeouts'', ''rdma_channel_discards'',
      ''rdma_read_wc_errors'', ''rdma_last_wc_status'', ''rdma_local_reg_misses'', ''rdma_post_failures'',
      ''rdma_lease_failures'', ''rdma_lazy_local_mrs'', ''rdma_write_wc_errors'', ''rdma_write_timeouts'']"

definition register_gauges :: "metrics \<Rightarrow> metrics" where
  "register_gauges mx = fold (\<lambda>name mx. set_gauge_provider mx name) GAUGES mx"

text \<open>The storage server registers those without the transport's.\<close>

definition ss_register_gauges :: "metrics \<Rightarrow> metrics" where
  "ss_register_gauges mx = fold (\<lambda>name mx. set_gauge_provider mx name) (take 8 GAUGES) mx"

text \<open>
  The value of a gauge. \<open>PublishedPool\<close> has a \<open>__len__\<close>, so \<open>if self._pool\<close> is false for a pool
  without pages. \<open>tstat\<close> is the transport's statistics.
\<close>

definition gauge_value :: "(string, int) dict \<Rightarrow> node \<Rightarrow> string \<Rightarrow> int" where
  "gauge_value tstat nd name =
     (let of_pool = (\<lambda>f. case nd_pool nd of None \<Rightarrow> 0 | Some p \<Rightarrow> if pool_len p = 0 then 0 else f p);
          of_disk = (\<lambda>f. case nd_disk nd of None \<Rightarrow> 0 | Some d \<Rightarrow> f d);
          of_transport = (\<lambda>k. case map_of tstat k of None \<Rightarrow> 0 | Some v \<Rightarrow> v)
      in if name = ''pool_bytes_used'' then of_pool bytes_used
         else if name = ''pool_capacity_bytes'' then of_pool (\<lambda>p. int (pl_capacity p))
         else if name = ''pool_keys'' then of_pool (\<lambda>p. int (pool_len p))
         else if name = ''disk_bytes_used'' then of_disk (\<lambda>d. fst (disk_stats d))
         else if name = ''disk_capacity_bytes'' then of_disk (\<lambda>d. int (ds_max_bytes d))
         else if name = ''disk_keys'' then of_disk (\<lambda>d. int (snd (disk_stats d)))
         else if name = ''members'' then int (length (cl_members (rt_disc (nd_runtime nd))))
         else if name = ''storage_nodes'' then int (length (storage_nodes (nd_runtime nd)))
         else of_transport (drop 5 name))"

end
