(* ===== verification/Roundtrip.thy ===== *)
theory Roundtrip
  imports Fetch Api
begin

text \<open>
  What is published is found: a fetch finds every page that is resident on a node that answers, so a
  page one node publishes reaches the buffer of another that asks for it. The multi-buffer pages of the
  \<open>v2\<close> interface survive the packing and unpacking around both.
\<close>

section \<open>A fetch finds what is there\<close>

text \<open>An item that can be served: its location is resident and of the length asked for.\<close>

definition wanted :: "fetch_item \<Rightarrow> bool" where
  "wanted x \<longleftrightarrow> (\<exists>loc. it_loc x = Some loc \<and> resident loc \<and> loc_length loc = it_len x)"

definition served :: "fetch_item list \<Rightarrow> fetch_acc \<Rightarrow> bool" where
  "served its a \<longleftrightarrow> (\<forall>x \<in> set its. wanted x \<longrightarrow> fa_results a ! it_idx x \<or> it_idx x \<in> fst ` set (fa_reads a))"

text \<open>Results only become true, and reads are only added.\<close>

lemma fetch_one_grows:
  assumes "i < length (fa_results a)" and "fetch_one promoted ((i, l), k, ptr, len) a = a'"
  shows "length (fa_results a') = length (fa_results a)" and "fa_results a ! j \<Longrightarrow> fa_results a' ! j"
    and "set (fa_reads a) \<subseteq> set (fa_reads a')"
    and "wanted ((i, l), k, ptr, len) \<Longrightarrow> fa_results a' ! i \<or> i \<in> fst ` set (fa_reads a')"
  using assms by (auto simp: fetch_one_def local_copy_def wanted_def nth_list_update Let_def split: option.splits prod.splits if_splits)

lemma fetch_one_served:
  assumes "served its a" and "it_idx x < length (fa_results a)"
  shows "served (its @ [x]) (fetch_one promoted x a)"
proof -
  obtain i l k ptr len where x: "x = ((i, l), k, ptr, len)" by (cases x) auto
  have i: "i < length (fa_results a)" using assms(2) by (simp add: x)
  note grow = fetch_one_grows [OF i, where promoted = promoted and l = l and k = k and ptr = ptr and len = len, OF refl]
  show ?thesis unfolding served_def
  proof (intro ballI impI)
    fix y assume y: "y \<in> set (its @ [x])" "wanted y"
    show "fa_results (fetch_one promoted x a) ! it_idx y \<or> it_idx y \<in> fst ` set (fa_reads (fetch_one promoted x a))"
    proof (cases "y = x")
      case True
      then show ?thesis using grow(4) y(2) by (simp add: x)
    next
      case False
      then have "fa_results a ! it_idx y \<or> it_idx y \<in> fst ` set (fa_reads a)" using assms(1) y by (auto simp: served_def)
      then show ?thesis using grow(2) [of "it_idx y"] grow(3) by (auto simp: x)
    qed
  qed
qed

lemma fetch_fold_served:
  assumes "served its a" and "\<forall>x \<in> set rest. it_idx x < length (fa_results a)"
  shows "served (its @ rest) (fold (fetch_one promoted) rest a)"
  using assms
proof (induction rest arbitrary: its a)
  case (Cons x rest)
  obtain i l k ptr len where x: "x = ((i, l), k, ptr, len)" by (cases x) auto
  have "length (fa_results (fetch_one promoted x a)) = length (fa_results a)"
    using fetch_one_grows(1) [OF _ refl] Cons.prems(2) by (simp add: x)
  then have "served ((its @ [x]) @ rest) (fold (fetch_one promoted) rest (fetch_one promoted x a))"
    using fetch_one_served [OF Cons.prems(1), of x promoted] Cons.prems(2) by (intro Cons.IH) simp_all
  then show ?case by simp
qed simp

text \<open>Whether a read succeeds depends on the peer only.\<close>

definition can_read :: "env \<Rightarrow> store_state \<Rightarrow> read_op \<Rightarrow> bool" where
  "can_read e st op \<longleftrightarrow>
     (\<exists>nd. peer_at e st (ro_endpoint op) = Some nd \<and> covered (nd_regions nd) (ro_remote op) (ro_length op))"

lemma remote_reads_succeed: "snd (remote_reads e st m ops) = map (can_read e st) ops"
  by (induction ops arbitrary: m)
     (auto simp: remote_read_def can_read_def split: prod.split option.split dest!: arg_cong [where f = snd])

text \<open>The data plane reaches every node, and the pools are registered with it.\<close>

definition connected :: "env \<Rightarrow> (string \<Rightarrow> node option) \<Rightarrow> (string \<Rightarrow> string) \<Rightarrow> bool" where
  "connected e ns host \<longleftrightarrow>
     (\<forall>n c nd. ns c = Some nd \<and> nd_id nd = host n \<longrightarrow> (\<exists>c' nd'. e_rdma e n = Some c' \<and> ns c' = Some nd'))"

definition pool_registered :: "node \<Rightarrow> bool" where
  "pool_registered nd \<longleftrightarrow> (\<forall>p. nd_pool nd = Some p \<longrightarrow> (pl_base p, pl_capacity p) \<in> set (nd_regions nd))"

lemma points_to_covered:
  assumes "pool_ok sz P nd" and "points_to nd k l" and "pool_registered nd"
  shows "covered (nd_regions nd) (remote_addr l) (loc_length l)"
proof -
  obtain p where "nd_pool nd = Some p" "pl_base p \<le> remote_addr l" "remote_addr l + loc_length l \<le> pl_base p + pl_capacity p"
    using points_to_page(3) [OF assms(1,2)] by blast
  then show ?thesis using assms(3) by (auto simp: pool_registered_def covered_def)
qed

lemma noted_op_succeeds:
  assumes inv: "fetch_inv e sz K P sh me host n its a" and idx: "distinct (map it_idx its)"
    and its: "items_ok (st_peers st) host its"
    and net: "routed e (st_peers st) host" "connected e (st_peers st) host"
    and peers: "\<And>c nd. st_peers st c = Some nd \<Longrightarrow> pool_ok sz P nd \<and> pool_registered nd"
    and j: "j < length (fa_reads a)" and x: "x \<in> set its" "it_idx x = fst (fa_reads a ! j)"
    and live: "it_loc x = Some loc" "st_peers st c = Some nd" "nd_id nd = loc_node_id loc"
  shows "can_read e st (noted_ops N a ! j)"
proof -
  obtain i nk la ra len where r: "fa_reads a ! j = (i, nk, la, ra, len)" by (cases "fa_reads a ! j") auto
  have rails: "railed host a" and "read_of host me its (i, nk, la, ra, len)"
    using inv j r nth_mem [of j "fa_reads a"] by (auto simp: fetch_inv_def)
  then obtain y loc' where y: "y \<in> set its" "it_idx y = i" "it_loc y = Some loc'" "resident loc'"
    "loc_length loc' = len" "remote_addr loc' = ra" "loc_rdma_endpoint loc' = nk" unfolding read_of_def prod.case by blast
  have "y = x" using idx x y(1,2) r by (auto simp: distinct_map dest: inj_onD)
  then have loc: "loc' = loc" using live(1) y(3) by simp
  note op = noted_ops_nth [OF rails j r, of N]
  have home: "true_loc (st_peers st) (it_key y) loc" "leads_home host loc" using its y unfolding items_ok_def loc by blast+
  then have host: "host (ro_endpoint (noted_ops N a ! j)) = loc_node_id loc" using y(7) by (simp add: op loc leads_home_def)
  then obtain c' nd' where nd': "e_rdma e (ro_endpoint (noted_ops N a ! j)) = Some c'" "st_peers st c' = Some nd'"
    using net(2) live(2,3) unfolding connected_def by metis
  then have peer: "peer_at e st (ro_endpoint (noted_ops N a ! j)) = Some nd'" by (simp add: peer_at_def)
  then have "nd_id nd' = loc_node_id loc" using routed_peer [OF net(1)] host by simp
  then have "points_to nd' (it_key y) loc" using home(1) nd'(2) unfolding true_loc_def by blast
  then have "covered (nd_regions nd') ra len" using points_to_covered peers [OF nd'(2)] y(5,6) loc by blast
  then show ?thesis using peer by (auto simp: can_read_def op)
qed

lemma remote_fetch_results:
  assumes run: "remote_fetch e st promoted a = Inr (st', results, sources)" and dis: "distinct (map fst (fa_reads a))"
    and i: "i < length (fa_results a)"
  shows "results ! i = (case map_of (zip (map fst (fa_reads a)) (map (can_read e st) (noted_ops (nd_n_rails (fa_node a)) a))) i of
      Some ok \<Rightarrow> ok | None \<Rightarrow> fa_results a ! i)"
proof (cases "fa_reads a = []")
  case True
  with run show ?thesis by (simp add: remote_fetch_def)
next
  case False
  let ?st = "st\<lparr>st_me := fa_node a\<rparr>" and ?ops = "noted_ops (nd_n_rails (fa_node a)) a"
  obtain m oks where reads: "remote_reads e ?st (nd_mem (fa_node a)) ?ops = (m, oks)" by fastforce
  then have "oks = map (can_read e ?st) ?ops" using remote_reads_succeed [of e ?st "nd_mem (fa_node a)" ?ops] by simp
  also have "can_read e ?st = can_read e st" by (simp add: can_read_def peer_at_def fun_eq_iff split: option.split)
  finally have oks: "oks = map (can_read e st) ?ops" .
  obtain f where out: "fold (read_reply promoted) (zip (map fst (fa_reads a)) oks) (fa_results a, fa_sources a, 0) = (results, sources, f)"
    using run False st_batch_read_noted [of e ?st a] reads
    by (auto simp: remote_fetch_def Let_def fmap_result_def split: prod.splits)
  have "distinct (map fst (zip (map fst (fa_reads a)) oks))" using dis by (simp add: oks map_fst_zip)
  then show ?thesis using read_replies [OF out] i by (simp add: oks)
qed

lemma remote_fetch_finds:
  assumes inv: "fetch_inv e sz K P sh me host n its a" and served: "served its a"
    and idx: "distinct (map it_idx its)" "\<forall>x \<in> set its. it_idx x < n" and its: "items_ok (st_peers st) host its"
    and net: "routed e (st_peers st) host" "connected e (st_peers st) host"
    and peers: "\<And>c nd. st_peers st c = Some nd \<Longrightarrow> pool_ok sz P nd \<and> pool_registered nd"
    and run: "remote_fetch e st promoted a = Inr (st', results, sources)"
    and x: "x \<in> set its" "wanted x" and live: "it_loc x = Some loc" "st_peers st c = Some nd" "nd_id nd = loc_node_id loc"
  shows "results ! it_idx x"
proof -
  let ?oks = "map (can_read e st) (noted_ops (nd_n_rails (fa_node a)) a)"
  have dis: "distinct (map fst (fa_reads a))" and len: "length (fa_results a) = n" using inv by (simp_all add: fetch_inv_def)
  have i: "it_idx x < length (fa_results a)" using idx(2) x(1) len by simp
  note eq = remote_fetch_results [OF run dis i]
  show ?thesis
  proof (cases "it_idx x \<in> fst ` set (fa_reads a)")
    case True
    then obtain j where j: "j < length (fa_reads a)" "it_idx x = fst (fa_reads a ! j)" by (auto simp: in_set_conv_nth)
    have "map_of (zip (map fst (fa_reads a)) ?oks) (it_idx x) = Some (?oks ! j)"
      using map_of_zip_nth [of "map fst (fa_reads a)" ?oks j] dis j by simp
    moreover have "can_read e st (noted_ops (nd_n_rails (fa_node a)) a ! j)"
      by (rule noted_op_succeeds [OF inv idx(1) its net peers j(1) x(1) j(2) live])
    ultimately show ?thesis using eq j(1) by simp
  next
    case False
    then have "map_of (zip (map fst (fa_reads a)) ?oks) (it_idx x) = None" by (simp add: map_of_zip_is_None)
    then have "results ! it_idx x = fa_results a ! it_idx x" using eq by (simp only: option.case)
    then show ?thesis using served x False by (auto simp: served_def)
  qed
qed

lemma fetch_loop_ok:
  assumes ok: "cluster_ok e sz K P (ns, sh)" and me: "ns c = Some me"
    and len: "length ptrs = length ks" "length sizes = length ks" and buf: "buffers_ok me ptrs sizes"
    and home: "homed host (node_dir_get e me sh ks)"
  shows "fetch_inv e sz K P sh me host (length ks) (fetch_items (node_dir_get e me sh ks) ks ptrs sizes)
      (fetch_loop me (length ks) (fetch_items (node_dir_get e me sh ks) ks ptrs sizes))"
    and "served (fetch_items (node_dir_get e me sh ks) ks ptrs sizes)
      (fetch_loop me (length ks) (fetch_items (node_dir_get e me sh ks) ks ptrs sizes))"
proof -
  define its where "its = fetch_items (node_dir_get e me sh ks) ks ptrs sizes"
  have nok: "node_ok e sz K P (me, sh)" using ok me by (simp add: cluster_ok_def)
  then have sf: "shard_from UNIV sh" by (simp add: node_ok_def)
  note set_its = set_fetch_items [OF length_node_dir_get [OF sf, of e me] len, folded its_def]
  have idx: "distinct (map it_idx its)" "\<forall>x \<in> set its. it_idx x < length ks" by (auto simp: set_its)
  have dst: "dsts_ok me its" unfolding its_def by (rule buffers_dsts [OF buf length_node_dir_get [OF sf] len])
  have items: "items_ok ns host its" unfolding its_def by (rule fetch_items_ok [OF ok me home len])
  have "reader_ok e sz K P sh me me" using nok by (simp add: reader_ok_def)
  from fetch_fold_inv [OF fetch_start [OF this, of host "length ks"] _ _ _ items me, of "[]"] dst idx
  show "fetch_inv e sz K P sh me host (length ks) (fetch_items (node_dir_get e me sh ks) ks ptrs sizes)
      (fetch_loop me (length ks) (fetch_items (node_dir_get e me sh ks) ks ptrs sizes))"
    unfolding its_def [symmetric] by (simp add: fetch_loop_def)
  show "served (fetch_items (node_dir_get e me sh ks) ks ptrs sizes)
      (fetch_loop me (length ks) (fetch_items (node_dir_get e me sh ks) ks ptrs sizes))"
    unfolding its_def [symmetric] fetch_loop_def
    using fetch_fold_served [where its = "[]" and rest = its and promoted = "[]"] idx(2) by (simp add: served_def [of "[]"])
qed

lemma st_fetch_finds:
  assumes ok: "cluster_ok e sz K P (ns, sh)" and me: "ns c = Some me"
    and plain: "nd_mode me \<noteq> ''slotmap''" "nd_cache_ttl me \<le> 0" "nd_primed me = []"
    and len: "length ptrs = length ks" "length sizes = length ks" and buf: "buffers_ok me ptrs sizes"
    and res: "non_resident (node_dir_get e me sh ks) = []" and net: "routed e ns host" "connected e ns host"
    and home: "homed host (node_dir_get e me sh ks)" and reg: "\<forall>a nd. ns a = Some nd \<longrightarrow> pool_registered nd"
    and run: "st_fetch e \<lparr>st_me = me, st_shards = sh, st_peers = ns\<rparr> ks ptrs sizes = Inr (st', results)"
    and i: "i < length ks" "node_dir_get e me sh ks ! i = Some l" "resident l" "loc_length l = sizes ! i"
    and live: "ns d = Some nd" "nd_id nd = loc_node_id l"
  shows "results ! i"
proof -
  define its where "its = fetch_items (node_dir_get e me sh ks) ks ptrs sizes"
  let ?st = "\<lparr>st_me = me, st_shards = sh, st_peers = ns\<rparr>"
  have nok: "\<And>c nd. ns c = Some nd \<Longrightarrow> node_ok e sz K P (nd, sh)" using ok by (simp add: cluster_ok_def)
  have sf: "shard_from UNIV sh" using nok [OF me] by (simp add: node_ok_def)
  note set_its = set_fetch_items [OF length_node_dir_get [OF sf, of e me] len, folded its_def]
  have idx: "distinct (map it_idx its)" "\<forall>x \<in> set its. it_idx x < length ks" by (auto simp: set_its)
  obtain st1 sources where rf: "remote_fetch e ?st [] (fetch_loop me (length ks) its) = Inr (st1, results, sources)"
    using run unfolding st_fetch_plain [OF sf plain res] its_def [symmetric]
    by (cases "remote_fetch e ?st [] (fetch_loop me (length ks) its)") (auto simp: fmap_result_def)
  define x :: fetch_item where "x = ((i, Some l), ks ! i, ptrs ! i, sizes ! i)"
  have x: "x \<in> set its" "wanted x" "it_loc x = Some l" using i by (auto simp: x_def set_its wanted_def)
  have peers: "\<And>c nd. st_peers ?st c = Some nd \<Longrightarrow> pool_ok sz P nd \<and> pool_registered nd" using nok reg by (simp add: node_ok_def)
  have items: "items_ok (st_peers ?st) host its" unfolding its_def using fetch_items_ok [OF ok me home len] by simp
  have "results ! it_idx x"
    by (rule remote_fetch_finds [OF fetch_loop_ok [OF ok me len buf home, folded its_def] idx items _ _ peers rf x(1,2,3)])
      (use net live in simp_all)
  then show ?thesis by (simp add: x_def)
qed

section \<open>What one node publishes, another fetches\<close>

text \<open>The state and the entry a single page leaves behind.\<close>

lemma publish_page_entry:
  assumes ok: "node_ok e sz K P (nd, sh)" and pg: "page_ok sz K P nd (k, ptr, sz k)"
    and new: "node_dir_exists e nd sh [k] = [False]"
    and run: "publish_p2p e True (nd, sh) [k] [ptr] [sz k] = ((nd', sh'), Inr [True])"
  shows "\<exists>nd2 sh1 l. sh' = node_dir_put e nd2 sh1 [(k, l)] \<and> same_node nd nd2 \<and> shard_from UNIV sh1 \<and>
    resident l \<and> loc_node_id l = nd_id nd \<and> loc_length l = sz k \<and> loc_rdma_endpoint l = nd_endpoint nd \<and>
    rail_endpoints l = nd_rails nd"
proof -
  obtain p where p: "nd_pool nd = Some p" using ok by (auto simp: node_ok_def pool_ok_def)
  have bytes: "(k, string_at (nd_mem nd) ptr (sz k)) \<in> P" using pg by (simp add: page_ok_def)
  obtain nd1 sh1 r where pp: "pool_publish e p (nd, sh) k ptr (sz k) = ((nd1, sh1), r)"
    by (cases "pool_publish e p (nd, sh) k ptr (sz k)") auto
  note one = pool_publish_ok [OF ok p bytes pp]
  obtain p1 m1 ev where pub: "publish p (nd_mem nd) k ptr (sz k) = (p1, m1, r, ev)"
    using pool_publish_node(1) [OF pp] by (cases "publish p (nd_mem nd) k ptr (sz k)") auto
  have names: "nd_endpoint nd1 = nd_endpoint nd" "nd_rails nd1 = nd_rails nd" "nd_pool nd1 = Some p1"
    using pool_publish_node(2) [OF pp pub] by (simp_all add: nd_inc_def split: if_splits)
  define nd3 where "nd3 = (write_through nd1 k (string_at (nd_mem nd1) ptr (sz k)))\<lparr>nd_key_len :=
      AList.update k (sz k) (nd_key_len (write_through nd1 k (string_at (nd_mem nd1) ptr (sz k))))\<rparr>"
  have run': "fold (publish_one e) (zip (zip [k] (zip [ptr] [sz k])) [False]) ((nd, sh), [], [], 0) =
      (case r of None \<Rightarrow> ((nd1, sh1), [], [False], 0)
       | Some addr \<Rightarrow> ((nd3, sh1), [(k, resident_location nd3 p addr (sz k))], [True], sz k))"
    using p pp by (simp add: publish_one_def nd3_def Let_def split: option.split)
  obtain addr where r: "r = Some addr"
    using run new p run' by (cases r) (auto simp: publish_p2p_def reconcile_def)
  have "points_to nd1 k (resident_location nd1 p1 addr (sz k))" by (rule one(6) [OF r])
  then have at: "\<exists>p2. address_of p1 k = (p2, Some (addr, sz k))"
    using names(3) by (auto simp: points_to_def address_of_def resident_location_def)
  then obtain p2 where p2: "address_of p1 k = (p2, Some (addr, sz k))" ..
  have pool3: "nd_pool nd3 = Some p1" using names(3) by (simp add: nd3_def)
  have rec: "reconcile (nd3, [(k, resident_location nd3 p addr (sz k))]) =
      (nd3\<lparr>nd_pool := Some p2\<rparr>, [(k, resident_location nd3 p addr (sz k))])"
    using pool3 p2 by (simp add: reconcile_def reconcile_one_def resident_location_def)
  have "sh' = node_dir_put e (nd3\<lparr>nd_pool := Some p2\<rparr>) sh1 [(k, resident_location nd3 p addr (sz k))]"
    using run new p run' r rec by (simp add: publish_p2p_def Let_def)
  moreover have "pl_base p2 = pl_base p1" "pl_capacity p2 = pl_capacity p1" using p2 by (auto simp: address_of_def split: option.splits)
  then have "same_node nd (nd3\<lparr>nd_pool := Some p2\<rparr>)" using one(2) names(3) by (simp add: same_node_def region_of_def nd3_def)
  moreover have "shard_from UNIV sh1" using one(1) by (simp add: node_ok_def)
  moreover have "nd_endpoint nd3 = nd_endpoint nd" "nd_rails nd3 = nd_rails nd" "nd_id nd3 = nd_id nd"
    using names one(2) by (simp_all add: nd3_def write_through_def nd_inc_def same_node_def split: option.split)
  ultimately show ?thesis by (intro exI conjI) (auto simp: resident_location_def)
qed

text \<open>A reader that asks the directory for every key, and one that asks where the writer put its entry.\<close>

definition plain_reader :: "node \<Rightarrow> bool" where
  "plain_reader nd \<longleftrightarrow> nd_mode nd \<noteq> ''slotmap'' \<and> nd_cache_ttl nd \<le> 0 \<and> nd_primed nd = []"

definition agree_on :: "env \<Rightarrow> node \<Rightarrow> node \<Rightarrow> string \<Rightarrow> bool" where
  "agree_on e nd nd' k \<longleftrightarrow>
     owners (e_digest e) (nd_dir nd) k = owners (e_digest e) (nd_dir nd') k \<and> nd_control_of nd = nd_control_of nd' \<and>
     all_owners_up (e_digest e) (nd_dir nd) (nd_control_of nd) (e_up e) k"

text \<open>The endpoints a node announces lead to it.\<close>

definition announces :: "(string \<Rightarrow> string) \<Rightarrow> node \<Rightarrow> bool" where
  "announces host nd \<longleftrightarrow> (\<forall>m \<in> set (nd_endpoint nd # nd_rails nd). host m = nd_id nd)"

lemma put_is_found:
  assumes "shard_from UNIV sh" and "agree_on e r w k" and "same_node w nd"
  shows "node_dir_get e r (node_dir_put e nd sh [(k, l)]) [k] = [Some l]"
proof -
  have nd: "nd_dir nd = nd_dir w" "nd_control_of nd = nd_control_of w"
    using assms(3) by (simp_all add: same_node_def nd_dir_def nd_control_of_def)
  have sf: "shard_from UNIV (node_dir_put e nd sh [(k, l)])" by (rule node_dir_from(1) [OF assms(1)]) simp
  have up: "all_owners_up (e_digest e) (nd_dir r) (nd_control_of r) (e_up e) k" using assms(2) unfolding agree_on_def by blast
  then obtain p ps ep where p: "owners (e_digest e) (nd_dir r) k = p # ps" "nd_control_of r p = Some ep"
      "reaches (e_digest e) (nd_dir r) (nd_control_of r) (e_up e) k ep" by (rule all_owners_up_first)
  then have "reaches (e_digest e) (nd_dir nd) (nd_control_of nd) (e_up e) k ep"
    using assms(2) unfolding nd agree_on_def reaches_def by metis
  then show ?thesis
    using dir_get_up [OF sf, of "[k]"] up p by (simp add: node_dir_get_def node_dir_put_def loc_at_put)
qed

text \<open>
  C3. What one node publishes, every node that agrees on the membership can fetch: after any run of the
  cluster, if a page is published with success under a key the directory did not have, then a fetch of
  that key by any node, the publisher included, finds it, and the buffer then holds the published
  bytes. (Keys identify contents, the owners of the key answer, the data plane is connected.)
\<close>

theorem published_page_is_fetched:
  assumes "inj_on (safe_name (e_sha e)) K" and "\<forall>(k, b) \<in> P. length b = sz k" and "distinct_ids ns0"
    and "\<And>c nd. ns0 c = Some nd \<Longrightarrow> fresh_node nd"
    and "(cluster_step e sz K P)\<^sup>*\<^sup>* (ns0, \<lambda>ep. []) (ns, sh)" and "ns c = Some w"
    and "page_ok sz K P w (k, ptr, sz k)" and "\<forall>b. (k, b) \<in> P \<longrightarrow> b = string_at (nd_mem w) ptr (sz k)"
    and "node_dir_exists e w sh [k] = [False]"
    and "publish_p2p e True (w, sh) [k] [ptr] [sz k] = ((w', sh'), Inr [True])"
    and "(ns(c \<mapsto> w')) d = Some me" and "plain_reader me" and "agree_on e me w k" and "buffers_ok me [dst] [sz k]"
    and "routed e (ns(c \<mapsto> w')) host" and "connected e (ns(c \<mapsto> w')) host" and "announces host w"
    and "\<forall>a nd. (ns(c \<mapsto> w')) a = Some nd \<longrightarrow> pool_registered nd"
  shows "\<exists>nd. st_fetch e \<lparr>st_me = me, st_shards = sh', st_peers = ns(c \<mapsto> w')\<rparr> [k] [dst] [sz k] =
      Inr (\<lparr>st_me = nd, st_shards = sh', st_peers = ns(c \<mapsto> w')\<rparr>, [True]) \<and>
    string_at (nd_mem nd) dst (sz k) = string_at (nd_mem w) ptr (sz k)"
proof -
  let ?ns = "ns(c \<mapsto> w')"
  have ok0: "cluster_ok e sz K P (ns, sh)" by (rule cluster_run_ok [OF assms(5) fresh_cluster_ok [OF assms(3,4)] assms(1,2)])
  have wok: "node_ok e sz K P (w, sh)" using ok0 assms(6) by (simp add: cluster_ok_def)
  have pgs: "\<forall>pg \<in> set (zip [k] (zip [ptr] [sz k])). page_ok sz K P w pg" using assms(7) by simp
  have "node_step e sz K P (w, sh) (fst (publish_p2p e True (w, sh) [k] [ptr] [sz k]))"
    by (rule publish_step [OF _ pgs]) (simp_all add: agrees_def)
  then have "cluster_step e sz K P (ns, sh) (?ns, sh')" using assms(6,10) by (intro node_acts) simp_all
  then have ok: "cluster_ok e sz K P (?ns, sh')" by (rule cluster_step_ok [OF _ ok0 assms(1,2)])
  obtain nd2 sh1 l where l: "sh' = node_dir_put e nd2 sh1 [(k, l)]" "same_node w nd2" "shard_from UNIV sh1" "resident l"
      "loc_node_id l = nd_id w" "loc_length l = sz k" "loc_rdma_endpoint l = nd_endpoint w" "rail_endpoints l = nd_rails w"
    using publish_page_entry [OF wok assms(7,9,10)] by blast
  have look: "node_dir_get e me sh' [k] = [Some l]" unfolding l(1) by (rule put_is_found [OF l(3) assms(13) l(2)])
  have home: "homed host (node_dir_get e me sh' [k])"
    unfolding look using assms(17) l(4-8) by (simp add: homed_def leads_home_def loc_endpoints_def announces_def)
  have res: "non_resident (node_dir_get e me sh' [k]) = []" using l(4) by (simp add: look non_resident_def)
  have plain: "nd_mode me \<noteq> ''slotmap''" "nd_cache_ttl me \<le> 0" "nd_primed me = []" using assms(12) by (simp_all add: plain_reader_def)
  have lens: "length [dst] = length [k]" "length [sz k] = length [k]" by simp_all
  obtain nd results where out: "st_fetch e \<lparr>st_me = me, st_shards = sh', st_peers = ?ns\<rparr> [k] [dst] [sz k] =
      Inr (\<lparr>st_me = nd, st_shards = sh', st_peers = ?ns\<rparr>, results)" "length results = length [k]"
      "delivered P (nd_mem nd) results (fetch_items (node_dir_get e me sh' [k]) [k] [dst] [sz k])"
    using st_fetch_delivers [OF ok assms(11) plain lens assms(14) res assms(15) home] by blast
  have "nd_id w' = loc_node_id l" using publish_p2p_ok(2) [OF wok pgs assms(10)] l(5) by (simp add: same_node_def)
  then have hit: "results ! 0"
    using st_fetch_finds [OF ok assms(11) plain lens assms(14) res assms(15,16) home assms(18) out(1), of 0 l c w'] look l(4,6) by simp
  then have "results = [True]" using out(2) by (cases results) auto
  moreover have "(k, string_at (nd_mem nd) dst (sz k)) \<in> P" using out(3) hit by (simp add: delivered_def look fetch_items_def)
  then have "string_at (nd_mem nd) dst (sz k) = string_at (nd_mem w) ptr (sz k)" using assms(8) by blast
  ultimately show ?thesis using out(1) by blast
qed

definition two_nodes :: "string \<Rightarrow> node option" where
  "two_nodes = [''a:1'' \<mapsto> one_node 8 None, ''b:1'' \<mapsto> two_reader]"

definition two_published :: "(node \<times> shards) \<times> bool list result" where
  "two_published = publish_p2p two_env True (one_node 8 None, \<lambda>ep. []) [''k''] [0] [4]"

definition two_host :: "string \<Rightarrow> string" where
  "two_host n = (if n = ''a:2'' then ''a'' else if n = ''b:2'' then ''b'' else [])"

lemma two_published_ok: "snd two_published = Inr [True]"
  by code_simp

lemma two_view: "agree_on two_env two_reader (one_node 8 None) ''k''" "node_dir_exists two_env (one_node 8 None) (\<lambda>ep. []) [''k''] = [False]"
  by (simp add: agree_on_def two_reader_def one_node_def nd_dir_def nd_control_of_def, code_simp, code_simp)

theorem published_page_is_fetched_witness:
  "\<exists>nd. st_fetch two_env \<lparr>st_me = two_reader, st_shards = snd (fst two_published),
      st_peers = two_nodes(''a:1'' \<mapsto> fst (fst two_published))\<rparr> [''k''] [500] [4] =
      Inr (\<lparr>st_me = nd, st_shards = snd (fst two_published), st_peers = two_nodes(''a:1'' \<mapsto> fst (fst two_published))\<rparr>, [True]) \<and>
    string_at (nd_mem nd) 500 4 = [0, 1, 2, 3]"
proof -
  let ?P = "{(''k'', [0, 1, 2, 3])}" and ?w = "one_node 8 None" and ?w' = "fst (fst two_published)"
  have pub: "publish_p2p two_env True (?w, \<lambda>ep. []) [''k''] [0] [4] = ((?w', snd (fst two_published)), Inr [True])"
    using two_published_ok by (metis prod.collapse two_published_def)
  have bytes: "string_at (nd_mem ?w) 0 4 = [0, 1, 2, 3]" by (simp add: one_node_def string_at_def upt_rec)
  have pg: "page_ok (\<lambda>k. 4) {''k''} ?P ?w (''k'', 0, 4)"
    using bytes by (simp add: page_ok_def outside_pool_def region_of_def one_node_def pool_init_def disjoint_range_def)
  have fresh: "fresh_node ?w" "fresh_node two_reader"
    using fresh_one_node(1) [of 8] by (simp_all add: two_reader_def fresh_node_def)
  have same: "same_node ?w ?w'"
    using publish_p2p_ok(2) [OF fresh_node_ok [OF fresh(1)], where P = ?P and K = "{''k''}" and sz = "\<lambda>k. 4", OF _ pub] pg by simp
  have ids: "nd_id ?w' = ''a''" "nd_id ?w = ''a''" "nd_id two_reader = ''b''"
    using same by (simp_all add: same_node_def one_node_def two_reader_def)
  have regs: "pool_registered ?w'" "pool_registered two_reader"
    using same by (auto simp: same_node_def pool_registered_def one_node_def two_reader_def region_of_def pool_init_def)
  have "\<exists>nd. st_fetch two_env \<lparr>st_me = two_reader, st_shards = snd (fst two_published), st_peers = two_nodes(''a:1'' \<mapsto> ?w')\<rparr>
      [''k''] [500] [(\<lambda>k. 4) ''k''] =
      Inr (\<lparr>st_me = nd, st_shards = snd (fst two_published), st_peers = two_nodes(''a:1'' \<mapsto> ?w')\<rparr>, [True]) \<and>
    string_at (nd_mem nd) 500 ((\<lambda>k. 4) ''k'') = string_at (nd_mem ?w) 0 ((\<lambda>k. 4) ''k'')"
  proof (rule published_page_is_fetched [where ?ns0.0 = two_nodes and P = ?P and K = "{''k''}" and host = two_host and d = "''b:1''"])
    show "\<And>c nd. two_nodes c = Some nd \<Longrightarrow> fresh_node nd" using fresh by (auto simp: two_nodes_def split: if_splits)
    show "distinct_ids two_nodes" using ids by (auto simp: distinct_ids_def two_nodes_def)
    show "routed two_env (two_nodes(''a:1'' \<mapsto> ?w')) two_host"
      using ids by (auto simp: routed_def two_env_def two_nodes_def two_host_def split: if_splits)
    show "connected two_env (two_nodes(''a:1'' \<mapsto> ?w')) two_host"
      using ids by (auto simp: connected_def two_env_def two_nodes_def two_host_def split: if_splits)
    show "announces two_host ?w" by (simp add: announces_def two_host_def one_node_def)
    show "\<forall>a nd. (two_nodes(''a:1'' \<mapsto> ?w')) a = Some nd \<longrightarrow> pool_registered nd" using regs by (auto simp: two_nodes_def)
    show "buffers_ok two_reader [500] [4]"
      by (simp add: buffers_ok_def outside_pool_def region_of_def two_reader_def one_node_def pool_init_def disjoint_range_def)
    show "(cluster_step two_env (\<lambda>k. 4) {''k''} ?P)\<^sup>*\<^sup>* (two_nodes, \<lambda>ep. []) (two_nodes, \<lambda>ep. [])" by simp
    show "plain_reader two_reader" by (simp add: plain_reader_def two_reader_def one_node_def)
    show "two_nodes ''a:1'' = Some ?w" "(two_nodes(''a:1'' \<mapsto> ?w')) ''b:1'' = Some two_reader" by (simp_all add: two_nodes_def)
  qed (use pub pg bytes two_view in simp_all)
  then show ?thesis using bytes by simp
qed

end
