(* ===== verification/Buffers.thy ===== *)
theory Buffers
  imports Api Coherence
begin

text \<open>
  Pages of several buffers (\<open>_pack_multi_buffer\<close> and \<open>_scatter_multi_buffer\<close> of
  \<^verbatim>\<open>python/peercache/store.py\<close>): what is packed on one side comes out of the buffers of the other.
\<close>

section \<open>One page\<close>

abbreviation span :: "(nat \<times> nat) list \<Rightarrow> nat" where
  "span bufs \<equiv> sum_list (map snd bufs)"

fun contents :: "mem \<Rightarrow> (nat \<times> nat) list \<Rightarrow> bytes list" where
  "contents m [] = []"
| "contents m ((p, n) # bufs) = string_at m p n # contents m bufs"

definition apart :: "nat \<times> nat \<Rightarrow> nat \<times> nat \<Rightarrow> bool" where
  "apart a b \<longleftrightarrow> disjoint_range (fst a) (snd a) (fst b) (snd b)"

lemma apart_sym: "apart a b \<Longrightarrow> apart b a"
  by (auto simp: apart_def disjoint_range_def)

lemma apart_inside: "apart a (s, n) \<Longrightarrow> s \<le> s' \<Longrightarrow> s' + n' \<le> s + n \<Longrightarrow> apart a (s', n')"
  by (auto simp: apart_def disjoint_range_def)

lemma string_at_join: "string_at m a (n + k) = string_at m a n @ string_at m (a + n) k"
  by (rule nth_equalityI) (auto simp: nth_append)

lemma memmove_apart: "apart (dst, n) (a, k) \<Longrightarrow> string_at (memmove m dst src n) a k = string_at m a k"
  by (simp add: memmove_write_bytes apart_def string_at_write_disjoint)

lemma memmove_same: "string_at (memmove m dst src n) dst n = string_at m src n"
  using string_at_write_same [of m dst "string_at m src n"] by (simp add: memmove_write_bytes)

lemma contents_cong: "(\<And>b. b \<in> set bufs \<Longrightarrow> string_at m (fst b) (snd b) = string_at m' (fst b) (snd b)) \<Longrightarrow> contents m bufs = contents m' bufs"
  by (induction bufs) auto

lemma gather_frame: "apart (dst, span bufs) (a, n) \<Longrightarrow> string_at (gather m dst bufs) a n = string_at m a n"
proof (induction bufs arbitrary: m dst)
  case (Cons b bufs)
  obtain p k where b: "b = (p, k)" by fastforce
  have "apart (dst + k, span bufs) (a, n)" "apart (dst, k) (a, n)" using Cons.prems by (auto simp: b apart_def disjoint_range_def)
  then show ?case using Cons.IH memmove_apart by (simp add: b)
qed simp

lemma gather_contents:
  assumes "\<forall>b \<in> set bufs. apart b (dst, span bufs)"
  shows "string_at (gather m dst bufs) dst (span bufs) = concat (contents m bufs)"
  using assms
proof (induction bufs arbitrary: m dst)
  case (Cons b bufs)
  obtain p k where b: "b = (p, k)" by fastforce
  let ?m = "memmove m dst p k"
  have ap: "\<forall>c \<in> set bufs. apart c (dst + k, span bufs)" "\<forall>c \<in> set bufs. apart (dst, k) c"
    using Cons.prems by (auto simp: b apart_def disjoint_range_def)
  have "contents ?m bufs = contents m bufs" using ap(2) memmove_apart by (intro contents_cong) (auto simp: apart_def)
  then have "string_at (gather ?m (dst + k) bufs) (dst + k) (span bufs) = concat (contents m bufs)"
    unfolding Cons.IH [OF ap(1)] by (rule arg_cong)
  moreover have "string_at (gather ?m (dst + k) bufs) dst k = string_at m p k"
    using gather_frame [of "dst + k" bufs dst k ?m] memmove_same [of m dst p k] by (simp add: apart_def disjoint_range_def)
  ultimately show ?case by (simp add: b string_at_join)
qed (simp add: string_at_def)

lemma scatter_frame: "\<forall>b \<in> set bufs. apart b (a, n) \<Longrightarrow> string_at (scatter m src bufs) a n = string_at m a n"
  by (induction m src bufs rule: scatter.induct) (simp_all add: memmove_apart)

lemma scatter_contents:
  assumes "string_at m src (span bufs) = concat bss" and "map length bss = map snd bufs"
    and "sorted_wrt apart bufs" and "\<forall>b \<in> set bufs. apart b (src, span bufs)"
  shows "contents (scatter m src bufs) bufs = bss"
  using assms
proof (induction bufs arbitrary: m src bss)
  case (Cons b bufs)
  obtain p k where b: "b = (p, k)" by fastforce
  obtain bs rest where bss: "bss = bs # rest" and len: "length bs = k" "map length rest = map snd bufs"
    using Cons.prems(2) by (cases bss) (auto simp: b)
  let ?m = "memmove m p src k"
  have eq: "string_at m src k = bs" "string_at m (src + k) (span bufs) = concat rest"
    using Cons.prems(1) len(1) by (simp_all add: b bss string_at_join)
  have ap: "\<forall>c \<in> set bufs. apart c (src + k, span bufs)" "\<forall>c \<in> set bufs. apart c (p, k)" "apart (p, k) (src + k, span bufs)"
    using Cons.prems(3,4) by (auto simp: b apart_def disjoint_range_def)
  have "string_at ?m (src + k) (span bufs) = concat rest" using eq(2) memmove_apart [OF ap(3)] by simp
  then have "contents (scatter ?m (src + k) bufs) bufs = rest" using Cons.prems(3) len(2) ap(1) by (intro Cons.IH) (simp_all add: b)
  moreover have "string_at (scatter ?m (src + k) bufs) p k = bs" using scatter_frame [OF ap(2)] memmove_same eq(1) by simp
  ultimately show ?case by (simp add: b bss)
qed simp

section \<open>A batch of pages\<close>

text \<open>The scratch area of page \<open>i\<close> of a batch, and that scratch areas and buffers do not overlap.\<close>

definition page_area :: "(nat \<Rightarrow> nat) \<Rightarrow> nat \<Rightarrow> nat list \<Rightarrow> nat list \<Rightarrow> nat \<Rightarrow> nat \<times> nat" where
  "page_area scratch nbuf ptrs sizes i = (scratch i, span (page_buffers nbuf ptrs sizes i))"

definition areas_apart :: "(nat \<Rightarrow> nat) \<Rightarrow> nat \<Rightarrow> nat \<Rightarrow> nat list \<Rightarrow> nat list \<Rightarrow> bool" where
  "areas_apart scratch n nbuf ptrs sizes \<longleftrightarrow>
     (\<forall>i < n. \<forall>j < n. i \<noteq> j \<longrightarrow> apart (page_area scratch nbuf ptrs sizes i) (page_area scratch nbuf ptrs sizes j)) \<and>
     (\<forall>i < n. \<forall>b \<in> set (zip ptrs sizes). apart b (page_area scratch nbuf ptrs sizes i))"

lemma page_buffers_zip: "page_buffers nbuf ptrs sizes i = take nbuf (drop (i * nbuf) (zip ptrs sizes))"
  by (simp add: page_buffers_def take_zip drop_zip)

lemma page_buffers_mem: "b \<in> set (page_buffers nbuf ptrs sizes i) \<Longrightarrow> b \<in> set (zip ptrs sizes)"
  unfolding page_buffers_zip by (meson in_set_dropD in_set_takeD)

text \<open>Packing: after the loop every scratch area holds the buffers of its page, one after another.\<close>

lemma pack_fold:
  fixes m :: mem
  assumes ap: "areas_apart scratch n nbuf ptrs sizes" and "k \<le> n"
  defines "run \<equiv> fold (\<lambda>i m. gather m (scratch i) (page_buffers nbuf ptrs sizes i)) [0..<k] m"
  shows "(\<forall>b \<in> set (zip ptrs sizes). string_at run (fst b) (snd b) = string_at m (fst b) (snd b)) \<and>
    (\<forall>i < k. string_at run (scratch i) (span (page_buffers nbuf ptrs sizes i)) = concat (contents m (page_buffers nbuf ptrs sizes i)))"
  using assms(2) unfolding run_def
proof (induction k)
  case (Suc k)
  let ?bufs = "page_buffers nbuf ptrs sizes" and ?m = "fold (\<lambda>i m. gather m (scratch i) (page_buffers nbuf ptrs sizes i)) [0..<k] m"
  have IH: "\<And>b. b \<in> set (zip ptrs sizes) \<Longrightarrow> string_at ?m (fst b) (snd b) = string_at m (fst b) (snd b)"
    "\<And>i. i < k \<Longrightarrow> string_at ?m (scratch i) (span (?bufs i)) = concat (contents m (?bufs i))"
    using Suc by simp_all
  have area: "apart (scratch k, span (?bufs k)) b" if "b \<in> set (zip ptrs sizes)" for b
    using ap Suc.prems that by (auto simp: areas_apart_def page_area_def intro: apart_sym)
  have cont: "contents ?m (?bufs k) = contents m (?bufs k)" by (rule contents_cong) (rule IH(1) [OF page_buffers_mem])
  have "\<forall>b \<in> set (?bufs k). apart b (scratch k, span (?bufs k))" using area page_buffers_mem apart_sym by blast
  from gather_contents [OF this, of ?m]
  have new: "string_at (gather ?m (scratch k) (?bufs k)) (scratch k) (span (?bufs k)) = concat (contents m (?bufs k))"
    unfolding cont .
  have keep: "string_at (gather ?m (scratch k) (?bufs k)) (scratch i) (span (?bufs i)) = string_at ?m (scratch i) (span (?bufs i))"
    if "i < k" for i
    using ap Suc.prems that by (intro gather_frame) (auto simp: areas_apart_def page_area_def)
  have src: "string_at (gather ?m (scratch k) (?bufs k)) (fst b) (snd b) = string_at m (fst b) (snd b)"
    if "b \<in> set (zip ptrs sizes)" for b
    using IH(1) [OF that] gather_frame [of "scratch k" "?bufs k" "fst b" "snd b" ?m] area [OF that] by (simp add: apart_def)
  have eq: "fold (\<lambda>i m. gather m (scratch i) (?bufs i)) [0..<Suc k] m = gather ?m (scratch k) (?bufs k)" by simp
  have "string_at (gather ?m (scratch k) (?bufs k)) (scratch i) (span (?bufs i)) = concat (contents m (?bufs i))" if "i < Suc k" for i
  proof (cases "i = k")
    case False
    then show ?thesis using that keep [of i] IH(2) [of i] by simp
  qed (use new in simp)
  then show ?case unfolding eq using src by blast
qed simp

text \<open>Unpacking: the buffers of every page reported as found hold the parts of its scratch area.\<close>

definition scatter_page :: "nat \<Rightarrow> nat list \<Rightarrow> nat list \<Rightarrow> nat list \<Rightarrow> nat \<Rightarrow> mem \<times> bool list \<Rightarrow> mem \<times> bool list" where
  "scatter_page nbuf ptrs sizes keepalive i s =
     (case s of (m, results) \<Rightarrow>
        if \<not> results ! i then (m, results)
        else if i \<ge> length keepalive then (m, results[i := False])
        else (scatter m (keepalive ! i) (page_buffers nbuf ptrs sizes i), results))"

lemma take_drop_mem: "c \<in> set (take n (drop a z)) \<Longrightarrow> \<exists>t < n. a + t < length z \<and> c = z ! (a + t)"
  by (auto simp: in_set_conv_nth)

lemma page_buffers_apart:
  assumes "sorted_wrt apart (zip ptrs sizes)"
  shows "sorted_wrt apart (page_buffers nbuf ptrs sizes i)"
    and "i < k \<Longrightarrow> b \<in> set (page_buffers nbuf ptrs sizes i) \<Longrightarrow> c \<in> set (page_buffers nbuf ptrs sizes k) \<Longrightarrow> apart b c"
proof -
  let ?z = "zip ptrs sizes"
  show "sorted_wrt apart (page_buffers nbuf ptrs sizes i)"
    unfolding page_buffers_zip using assms by (simp add: sorted_wrt_take sorted_wrt_drop)
  assume i: "i < k" and b: "b \<in> set (page_buffers nbuf ptrs sizes i)" and c: "c \<in> set (page_buffers nbuf ptrs sizes k)"
  obtain t where t: "t < nbuf" "i * nbuf + t < length ?z" "b = ?z ! (i * nbuf + t)"
    using take_drop_mem [OF b [unfolded page_buffers_zip]] by blast
  obtain u where u: "k * nbuf + u < length ?z" "c = ?z ! (k * nbuf + u)"
    using take_drop_mem [OF c [unfolded page_buffers_zip]] by blast
  have "Suc i * nbuf \<le> k * nbuf" using i by (intro mult_le_mono1) simp
  then have "i * nbuf + t < k * nbuf + u" using t(1) by simp
  then show "apart b c" using assms t u unfolding sorted_wrt_iff_nth_less by blast
qed

lemma scatter_fold:
  assumes ap: "areas_apart (\<lambda>i. keep ! i) (length keep) nbuf ptrs sizes" and k: "k \<le> length keep"
    and dst: "sorted_wrt apart (zip ptrs sizes)" and len: "length ptrs = length sizes"
    and run: "fold (scatter_page nbuf ptrs sizes keep) [0..<k] (m, results) = (m', results')"
  shows "results' = results \<and>
    (\<forall>i < length keep. string_at m' (keep ! i) (span (page_buffers nbuf ptrs sizes i)) = string_at m (keep ! i) (span (page_buffers nbuf ptrs sizes i))) \<and>
    (\<forall>i < k. results ! i \<longrightarrow> (\<forall>bss. map length bss = map snd (page_buffers nbuf ptrs sizes i) \<longrightarrow>
       string_at m (keep ! i) (span (page_buffers nbuf ptrs sizes i)) = concat bss \<longrightarrow> contents m' (page_buffers nbuf ptrs sizes i) = bss))"
  using k run
proof (induction k arbitrary: m' results')
  case (Suc k)
  let ?bufs = "page_buffers nbuf ptrs sizes"
  obtain m1 r1 where part: "fold (scatter_page nbuf ptrs sizes keep) [0..<k] (m, results) = (m1, r1)" by fastforce
  have IH: "r1 = results" "\<And>i. i < length keep \<Longrightarrow> string_at m1 (keep ! i) (span (?bufs i)) = string_at m (keep ! i) (span (?bufs i))"
    "\<And>i bss. i < k \<Longrightarrow> results ! i \<Longrightarrow> map length bss = map snd (?bufs i) \<Longrightarrow>
      string_at m (keep ! i) (span (?bufs i)) = concat bss \<Longrightarrow> contents m1 (?bufs i) = bss"
    using Suc.IH [OF _ part] Suc.prems(1) by simp_all
  have step: "scatter_page nbuf ptrs sizes keep k (m1, results) = (m', results')" using Suc.prems(2) part IH(1) by simp
  show ?case
  proof (cases "results ! k")
    case False
    then have "m' = m1" "results' = results" using step by (simp_all add: scatter_page_def)
    then show ?thesis using IH(2,3) False by (auto simp: less_Suc_eq)
  next
    case True
    then have m': "m' = scatter m1 (keep ! k) (?bufs k)" and "results' = results"
      using step Suc.prems(1) by (simp_all add: scatter_page_def)
    have area: "apart b (keep ! i, span (?bufs i))" if "b \<in> set (?bufs j)" "i < length keep" for b i j
      using ap that page_buffers_mem by (auto simp: areas_apart_def page_area_def)
    have kept: "string_at m' (keep ! i) (span (?bufs i)) = string_at m (keep ! i) (span (?bufs i))" if "i < length keep" for i
      unfolding m' IH(2) [OF that, symmetric] using area that by (intro scatter_frame) blast
    have old: "contents m' (?bufs i) = contents m1 (?bufs i)" if "i < k" for i
      unfolding m' using page_buffers_apart(2) [OF dst that] apart_sym
      by (intro contents_cong scatter_frame) (metis prod.collapse)
    have "contents m' (?bufs k) = bss" if "map length bss = map snd (?bufs k)" "string_at m (keep ! k) (span (?bufs k)) = concat bss" for bss
      unfolding m' using that IH(2) [of k] Suc.prems(1) area page_buffers_apart(1) [OF dst] by (intro scatter_contents) auto
    then show ?thesis using \<open>results' = results\<close> kept old IH(3) by (auto simp: less_Suc_eq)
  qed
qed simp

lemma contents_map: "contents m bufs = map (\<lambda>b. string_at m (fst b) (snd b)) bufs"
  by (induction bufs) auto

lemma page_buffers_sizes:
  "length ptrs = length sizes \<Longrightarrow> map snd (page_buffers nbuf ptrs sizes i) = take nbuf (drop (i * nbuf) sizes)"
  by (simp add: page_buffers_def)

lemma page_buffers_nth:
  assumes "length ptrs = length sizes" and "length ptrs = n * nbuf" and "j < length ptrs"
  shows "j div nbuf < n" and "j mod nbuf < length (page_buffers nbuf ptrs sizes (j div nbuf))"
    and "page_buffers nbuf ptrs sizes (j div nbuf) ! (j mod nbuf) = (ptrs ! j, sizes ! j)"
proof -
  have pos: "0 < nbuf" using assms(2,3) by (cases nbuf) auto
  have j: "j div nbuf * nbuf + j mod nbuf = j" by simp
  show "j div nbuf < n" using assms(2,3) pos by (simp add: less_mult_imp_div_less)
  have "j mod nbuf < nbuf" using pos by simp
  moreover have "j mod nbuf < length ptrs - j div nbuf * nbuf" using assms(3) j by linarith
  ultimately show len: "j mod nbuf < length (page_buffers nbuf ptrs sizes (j div nbuf))"
    using assms(1) by (simp add: page_buffers_def)
  have "j div nbuf * nbuf \<le> length ptrs" using assms(3) j by linarith
  then show "page_buffers nbuf ptrs sizes (j div nbuf) ! (j mod nbuf) = (ptrs ! j, sizes ! j)"
    using len assms(1) by (simp add: page_buffers_def)
qed

lemma contents_lengths: "map length (contents m bufs) = map snd bufs"
  by (simp add: contents_map)

lemma scatter_multi_fold:
  "length ptrs \<noteq> length keys \<Longrightarrow> scatter_multi_buffer r keys ptrs sizes keep results =
     fold (scatter_page (length ptrs div length keys) ptrs sizes keep) [0..<length keys] (r, results)"
  unfolding scatter_multi_buffer_def scatter_page_def [abs_def] Let_def by simp

text \<open>
  C37. Pages of several buffers survive the trip through the cache: what packing gathered into the
  scratch area of a page, once it has been fetched into the reader's scratch area, is scattered so that
  every buffer of the reader holds exactly the bytes of the writer's buffer, for every page reported as
  found; pages that were not found leave the results alone. (Buffers and scratch areas do not overlap.)
\<close>

theorem packed_pages_survive:
  assumes pack: "pack_multi_buffer e m keys ptrs sizes = Inr (m1, bufs, psizes, keep)"
    and multi: "length ptrs \<noteq> length keys" and len: "length sizes = length ptrs" "length ptrs' = length ptrs"
      "length keep' = length keys" "length results = length keys"
    and src: "areas_apart (e_scratch e) (length keys) (length ptrs div length keys) ptrs sizes"
    and dst: "areas_apart (\<lambda>i. keep' ! i) (length keys) (length ptrs div length keys) ptrs' sizes" "sorted_wrt apart (zip ptrs' sizes)"
    and fetched: "\<forall>i < length keys. results ! i \<longrightarrow> string_at r (keep' ! i) (psizes ! i) = string_at m1 (bufs ! i) (psizes ! i)"
  shows "\<exists>r'. scatter_multi_buffer r keys ptrs' sizes keep' results = (r', results) \<and>
    (\<forall>j < length ptrs. results ! (j div (length ptrs div length keys)) \<longrightarrow>
       string_at r' (ptrs' ! j) (sizes ! j) = string_at m (ptrs ! j) (sizes ! j))"
proof -
  define n nbuf where "n = length keys" and "nbuf = length ptrs div length keys"
  have n: "n \<noteq> 0" "length ptrs mod n = 0" and bufs: "bufs = map (e_scratch e) [0..<n]"
    and psizes: "psizes = map (\<lambda>i. sum_list (take nbuf (drop (i * nbuf) sizes))) [0..<n]"
    and m1: "m1 = fold (\<lambda>i m. gather m (e_scratch e i) (page_buffers nbuf ptrs sizes i)) [0..<n] m"
    using pack multi by (auto simp: pack_multi_buffer_def n_def nbuf_def Let_def split: if_splits)
  have total: "length ptrs = n * nbuf" using n(2) by (simp add: nbuf_def n_def mod_0_imp_dvd)
  have spans: "span (page_buffers nbuf ptrs sizes i) = psizes ! i" "span (page_buffers nbuf ptrs' sizes i) = psizes ! i" if "i < n" for i
    using that len by (simp_all add: page_buffers_sizes psizes)
  obtain r' res where run: "fold (scatter_page nbuf ptrs' sizes keep') [0..<n] (r, results) = (r', res)" by fastforce
  have scat: "scatter_multi_buffer r keys ptrs' sizes keep' results = fold (scatter_page nbuf ptrs' sizes keep') [0..<n] (r, results)"
    using scatter_multi_fold [of ptrs' keys] multi len(2) by (simp add: n_def nbuf_def)
  have areas: "areas_apart (\<lambda>i. keep' ! i) (length keep') nbuf ptrs' sizes" using dst(1) len(3) by (simp add: nbuf_def)
  have "n \<le> length keep'" "length ptrs' = length sizes" using len by (simp_all add: n_def)
  note out = scatter_fold [OF areas this(1) dst(2) this(2) run]
  have page: "contents r' (page_buffers nbuf ptrs' sizes i) = contents m (page_buffers nbuf ptrs sizes i)" if "i < n" "results ! i" for i
  proof -
    have "string_at m1 (bufs ! i) (span (page_buffers nbuf ptrs sizes i)) = concat (contents m (page_buffers nbuf ptrs sizes i))"
      using pack_fold [OF src [folded n_def nbuf_def] le_refl, of m, folded m1] that(1) bufs by simp
    moreover have "string_at r (keep' ! i) (psizes ! i) = string_at m1 (bufs ! i) (psizes ! i)"
      using fetched that by (simp add: n_def)
    ultimately have "string_at r (keep' ! i) (psizes ! i) = concat (contents m (page_buffers nbuf ptrs sizes i))"
      unfolding spans(1) [OF that(1)] by simp
    moreover have "map length (contents m (page_buffers nbuf ptrs sizes i)) = map snd (page_buffers nbuf ptrs' sizes i)"
      using len by (simp add: contents_lengths page_buffers_sizes)
    ultimately show ?thesis using out that spans(2) [OF that(1)] by simp
  qed
  have "string_at r' (ptrs' ! j) (sizes ! j) = string_at m (ptrs ! j) (sizes ! j)" if j: "j < length ptrs" "results ! (j div nbuf)" for j
  proof -
    have eq: "length ptrs = length sizes" "length ptrs' = length sizes" "length ptrs' = n * nbuf" using len total by simp_all
    note w = page_buffers_nth [OF eq(1) total j(1)] and rd = page_buffers_nth [OF eq(2,3), of j]
    show ?thesis using arg_cong [OF page [OF w(1) j(2)], of "\<lambda>x. x ! (j mod nbuf)"] w rd j(1) len by (simp add: contents_map)
  qed
  then show ?thesis using scat run out len n_def by (auto simp: nbuf_def)
qed

text \<open>Two pages of two buffers each, and a reader whose scratch areas hold them.\<close>

definition pack_toy :: "(mem \<times> nat list \<times> nat list \<times> nat list) result" where
  "pack_toy = pack_multi_buffer one_env (\<lambda>a. of_nat a) [''a'', ''b''] [0, 10, 20, 30] [2, 3, 2, 3]"

definition fetched_toy :: mem where
  "fetched_toy = write_bytes (write_bytes (\<lambda>a. 0) 500 [0, 1, 10, 11, 12]) 600 [20, 21, 30, 31, 32]"

lemma pack_toy_packs:
  "case pack_toy of Inl ex \<Rightarrow> False
   | Inr (m1, bufs, psizes, keep) \<Rightarrow> bufs = [1000, 1100] \<and> psizes = [5, 5] \<and>
       string_at m1 1000 5 = string_at fetched_toy 500 5 \<and> string_at m1 1100 5 = string_at fetched_toy 600 5"
  by code_simp

lemma less2: "(\<forall>i < length [x, y]. Q i) \<longleftrightarrow> Q 0 \<and> Q (1::nat)"
  by (auto simp: less_Suc_eq)

theorem packed_pages_survive_witness:
  "\<exists>r'. scatter_multi_buffer fetched_toy [''a'', ''b''] [40, 50, 60, 70] [2, 3, 2, 3] [500, 600] [True, True] = (r', [True, True]) \<and>
     string_at r' 50 3 = [10, 11, 12]"
proof -
  have two: "length [0, 10, 20, 30 :: nat] div length [''a'', ''b''] = 2" by code_simp
  obtain m1 keep where pack: "pack_multi_buffer one_env (\<lambda>a. of_nat a) [''a'', ''b''] [0, 10, 20, 30] [2, 3, 2, 3] =
      Inr (m1, [1000, 1100], [5, 5], keep)"
    and got: "string_at m1 1000 5 = string_at fetched_toy 500 5" "string_at m1 1100 5 = string_at fetched_toy 600 5"
    using pack_toy_packs unfolding pack_toy_def by (auto split: sum.splits prod.splits)
  have "\<exists>r'. scatter_multi_buffer fetched_toy [''a'', ''b''] [40, 50, 60, 70] [2, 3, 2, 3] [500, 600] [True, True] = (r', [True, True]) \<and>
    (\<forall>j < length [0, 10, 20, 30 :: nat]. [True, True] ! (j div (length [0, 10, 20, 30 :: nat] div length [''a'', ''b''])) \<longrightarrow>
       string_at r' ([40, 50, 60, 70] ! j) ([2, 3, 2, 3] ! j) = string_at (\<lambda>a. of_nat a) ([0, 10, 20, 30] ! j) ([2, 3, 2, 3] ! j))"
  proof (rule packed_pages_survive [OF pack])
    show "areas_apart (e_scratch one_env) (length [''a'', ''b'']) (length [0, 10, 20, 30 :: nat] div length [''a'', ''b'']) [0, 10, 20, 30] [2, 3, 2, 3]"
      "areas_apart (\<lambda>i. [500, 600] ! i) (length [''a'', ''b'']) (length [0, 10, 20, 30 :: nat] div length [''a'', ''b'']) [40, 50, 60, 70] [2, 3, 2, 3]"
      unfolding areas_apart_def less2 two
      by (simp_all add: page_area_def page_buffers_def apart_def disjoint_range_def one_env_def)
    show "sorted_wrt apart (zip [40, 50, 60, 70] [2, 3, 2, 3])" by (simp add: apart_def disjoint_range_def)
    show "\<forall>i < length [''a'', ''b'']. [True, True] ! i \<longrightarrow>
        string_at fetched_toy ([500, 600] ! i) ([5, 5] ! i) = string_at m1 ([1000, 1100] ! i) ([5, 5] ! i)"
      unfolding less2 using got by simp
  qed simp_all
  then obtain r' where r': "scatter_multi_buffer fetched_toy [''a'', ''b''] [40, 50, 60, 70] [2, 3, 2, 3] [500, 600] [True, True] = (r', [True, True])"
    and all: "\<forall>j < length [0, 10, 20, 30 :: nat]. [True, True] ! (j div (length [0, 10, 20, 30 :: nat] div length [''a'', ''b''])) \<longrightarrow>
       string_at r' ([40, 50, 60, 70] ! j) ([2, 3, 2, 3] ! j) = string_at (\<lambda>a. of_nat a) ([0, 10, 20, 30] ! j) ([2, 3, 2, 3] ! j)" by blast
  have "string_at r' 50 3 = string_at (\<lambda>a. of_nat a) 10 3" using all [unfolded two, rule_format, of 1] by simp
  then show ?thesis using r' by (simp add: string_at_def upt_rec)
qed

end
