(* ===== verification/Anomalies.thy ===== *)
theory Anomalies
  imports Coherence
begin

text \<open>
  Runs in which directory and pool part: where the agreement of \<open>Coherence\<close> ends. Each run is computed
  on a node with a pool at address 100, whose memory holds at first the low byte of each address.
\<close>

section \<open>Promoting several pages in one call\<close>

text \<open>
  Two pages of four bytes have passed through a pool with room for one, and both have reached the disk;
  then a peer asks for both in one call.
\<close>

definition swap_env :: env where
  "swap_env = one_env\<lparr>e_buf := 40\<rparr>"

definition both_on_disk :: disk_store where
  "both_on_disk =
     \<lparr>ds_dir = \<lparr>dd_files = [(''x.bin'', [0, 0, 0, 1, 120, 1, 1, 1, 1]), (''y.bin'', [0, 0, 0, 1, 121, 2, 2, 2, 2])], dd_index = None\<rparr>,
      ds_max_bytes = 100, ds_index = [(''x'', (''x.bin'', 4)), (''y'', (''y.bin'', 4))], ds_used = 8, ds_inflight = {},
      ds_writes_since_flush = 0, ds_queue = [], ds_running = True\<rparr>"

definition swapped_out :: node where
  "swapped_out = (one_node 4 (Some both_on_disk))\<lparr>nd_key_len := [(''x'', 4), (''y'', 4)]\<rparr>"

definition promoted_both :: "(node \<times> shards) \<times> pyval result" where
  "promoted_both = on_data_promote swap_env (swapped_out, \<lambda>ep. []) (VDict [(''keys'', VList [VStr ''x'', VStr ''y''])])"


section \<open>A page sent again after its write failed\<close>

text \<open>
  A storage server reserves room for a page; the one-sided write does not arrive, and the client sends
  the page inside a call instead.
\<close>

definition reserved_only :: "(node \<times> shards) \<times> pyval result" where
  "reserved_only = on_data_prepare_writes swap_env (one_node 8 None, \<lambda>ep. [])
     (VDict [(''pages'', VList [VDict [(''key'', VStr ''x''), (''length'', VInt 4)]])])"

definition sent_again :: "(node \<times> shards) \<times> pyval result" where
  "sent_again = on_data_ingest swap_env (fst reserved_only)
     (VDict [(''pages'', VList [VDict [(''key'', VStr ''x''), (''data'', VBytes [7, 7, 7, 7])]])])"


end
