(* ===== verification/Spec2Isabelle.thy ===== *)
theory Spec2Isabelle
  imports PyBase Cache_Spec Pool Wire Hashring Slotmap Seqlock Disk Rpc Directory Discovery
    Transport Config Metrics Runtime Node Storage SlotClient Store Coherence Fetch Api Roundtrip Buffers Anomalies
begin

text \<open>
  PeerCache is a peer-to-peer cache of KV pages for inference servers. Every node keeps pages in a pool of
  memory registered with the data plane, announces them in a directory that is spread over the nodes by a
  consistent-hash ring, and reads the pages of its peers with one-sided reads. A disk tier behind the pool
  takes what is evicted, dedicated storage servers may hold pages for everybody, and a second mode without
  a directory (\<open>slotmap\<close>) addresses pages by hash in the peers' memory. All sources below are in
  \<^verbatim>\<open>src/python/peercache\<close>.

  \<^bold>\<open>The model.\<close> Each theory models one part and states what makes it correct.

  \<^item> \<open>PyBase\<close>: Python's dicts, exceptions (a sum type), bytes, the memory of a process and \<open>ctypes\<close> on it,
    \<open>struct\<close> and \<open>int.to_bytes\<close>. \<open>Cache_Spec\<close>: the contract of a cache that may forget but never mixes up
    keys, a locale that \<open>Pool\<close> and \<open>Slotmap\<close> interpret.
  \<^item> \<open>Pool\<close> (\<^verbatim>\<open>pool.py\<close>, \<open>PublishedPool\<close>): allocator, LRU and copies. Pages never overlap or leave the
    region, the byte count is exact, publishing refines an LRU map, and with pages of one size it never fails.
  \<^item> \<open>Wire\<close> (\<^verbatim>\<open>types.py\<close>): \<open>NodeInfo\<close> and \<open>DataLocation\<close>; their encodings round-trip.
  \<^item> \<open>Hashring\<close> (\<^verbatim>\<open>hashring.py\<close>): lookup is the clockwise successor, a join or leave moves only the keys it
    must, and nodes with the same members route alike whatever their history.
  \<^item> \<open>Slotmap\<close>, \<open>Seqlock\<close> (\<^verbatim>\<open>slotmap.py\<close>): headers, geometry, choice of ways, and the writer threads of a
    region interleaved step by step. A snapshot that passes the reader's gate is a completed write; the two-step
    \<open>read_local\<close> can tear.
  \<^item> \<open>Disk\<close> (\<^verbatim>\<open>diskstore.py\<close>): index, writer thread, eviction and restart; bounded, readable, recovered.
  \<^item> \<open>Rpc\<close> (\<^verbatim>\<open>rpc.py\<close>): framing, server loop, client and pool over sockets that cut the stream anywhere;
    together they implement \<open>rpc_call\<close>, which the other parts use.
  \<^item> \<open>Directory\<close> (\<^verbatim>\<open>directory.py\<close>): shards and client; a map while the owners answer, and never an answer that
    was not put. \<open>Discovery\<close> (\<^verbatim>\<open>discovery.py\<close>): masters, registration, heartbeats. \<open>Runtime\<close>
    (\<^verbatim>\<open>server.py\<close>): rings in step with the membership, so what one node puts another finds.
  \<^item> \<open>Transport\<close> (\<^verbatim>\<open>transport.py\<close>): the TCP data plane, which serves registered memory only and delivers the
    bytes asked for; the RDMA transport as a client of its engine.
  \<^item> \<open>Config\<close> (\<^verbatim>\<open>config.py\<close>), \<open>Metrics\<close> (\<^verbatim>\<open>metrics.py\<close>): accepted configurations are well typed; the
    counters add up.
  \<^item> \<open>Node\<close>, \<open>SlotClient\<close>, \<open>Store\<close>, \<open>Api\<close> (\<^verbatim>\<open>store.py\<close>) and \<open>Storage\<close> (\<^verbatim>\<open>storage_server.py\<close>): one
    definition per method. The state of a node is the record \<open>node\<close>; \<open>store_state\<close> adds the shards of the
    directory and the peers. What an operation meets from outside (clock, digests, reachable endpoints) is the
    record \<open>env\<close>. \<open>SlotClient\<close> has the contract of one-sided reads, a locale, and interprets it on the node's
    reads of its peers.

  \<^bold>\<open>The parts together.\<close> \<open>Coherence\<close> gives the invariant that joins pool, disk tier and directory of every
  node, and step relations for a node and for a cluster; every step keeps it, so no resident entry of the
  directory is ever false. \<open>Fetch\<close> carries it through \<open>_fetch\<close>: a page reported as found has the bytes
  published under its key, whether it was copied from the own pool or read from a peer. \<open>Roundtrip\<close> shows the
  converse, that pages on reachable nodes are found, and so that what one node publishes another reads.
  \<open>Buffers\<close> does the packing of pages with several buffers. \<open>Anomalies\<close> computes runs outside the hypotheses
  of these theorems in which directory and pool part: promotions of several pages in one call, and a page sent
  again after its one-sided write failed.

  \<^bold>\<open>Bounds.\<close> Loops over data are structural or have a termination proof. The server loop of \<open>Rpc\<close> and
  \<open>Transport\<close> recurses on the bytes still to come, which every frame shortens. Waiting loops get what they wait
  for as a list: the rounds of the blocking registration, and the turns \<open>n\<close> the disk writer still gets on close.
  \<open>Discovery\<close> proves that registration returns in the first round a master answers.

  \<^bold>\<open>Assumptions.\<close> Digests (BLAKE2b, SHA-1), the message codec, the order of a Python \<open>set\<close>, name resolution,
  ports, file-system failures, SGLang's host pools and the RDMA engine are parameters, with what is used of
  them as hypotheses (ring points and file names do not collide, the codec decodes what it encodes). The
  operations of one node are atomic in \<open>Coherence\<close> and \<open>Fetch\<close>; only \<open>Seqlock\<close> and \<open>Disk\<close> interleave
  threads below that level.

  \<^bold>\<open>Not modelled.\<close> The C++ engine (\<^verbatim>\<open>src/cpp\<close>) is a client of libibverbs, so its behaviour is that of the
  adapter. Binding and accepting sockets, threads that only wait, log lines, the HTML of the dashboard and the
  allocation and registration of host buffers (torch, \<open>register_mem\<close>) have no effect that a theorem here could
  speak of. The benchmarks (\<^verbatim>\<open>bench/\<close>) and launchers (\<^verbatim>\<open>examples/\<close>) start processes, measure time and print.
\<close>

end
